(* ===== verification/Jato_Prelude.thy ===== *)
theory Jato_Prelude
  imports Main "HOL-Library.Word" "HOL-Library.Monad_Syntax"
begin

unbundle bit_operations_syntax

text \<open>
  What every other theory of the library shares: the machine types of the x86-64 build
  (\<open>unsigned char\<close>, \<open>uint16_t\<close>, \<open>uint32_t\<close>, \<open>unsigned long\<close>), the access to C arrays with
  the bounds made explicit, and generic lemmas on lists, options and words.

  A C array is a list. A read or a write outside the array, a failed \<open>assert\<close> and a
  dereference of \<open>NULL\<close> are undefined or fatal in C; the models return \<^const>\<open>None\<close> for them,
  so that \<open>f x = Some y\<close> always says, besides what \<open>y\<close> is, that the call stays inside its
  memory. Failing allocations are a boolean argument of the operation that allocates.
\<close>

type_synonym u8 = "8 word"
type_synonym u16 = "16 word"
type_synonym u32 = "32 word"
type_synonym u64 = "64 word"
type_synonym i32 = "32 word"

named_theorems mem_simps \<open>rules for array accesses\<close>
named_theorems word_facts \<open>values of machine words\<close>

definition ENOMEM :: int where
  "ENOMEM = 12"

section \<open>Array accesses\<close>

definition read_at :: "'a list \<Rightarrow> nat \<Rightarrow> 'a option" where
  "read_at xs i = (if i < length xs then Some (xs ! i) else None)"

definition write_at :: "'a list \<Rightarrow> nat \<Rightarrow> 'a \<Rightarrow> 'a list option" where
  "write_at xs i v = (if i < length xs then Some (xs[i := v]) else None)"

text \<open>\<open>realloc\<close> keeps the common prefix; what it adds is not initialised, so its content is a
  parameter of the model.\<close>

definition realloc_list :: "'a \<Rightarrow> nat \<Rightarrow> 'a list \<Rightarrow> 'a list" where
  "realloc_list junk m xs = take m xs @ replicate (m - length xs) junk"

definition c_assert :: "bool \<Rightarrow> unit option" where
  "c_assert b = (if b then Some () else None)"

lemma read_at_Some_iff [mem_simps]: "read_at xs i = Some v \<longleftrightarrow> i < length xs \<and> v = xs ! i"
  by (auto simp: read_at_def)

lemma read_at_None_iff [mem_simps]: "read_at xs i = None \<longleftrightarrow> length xs \<le> i"
  by (auto simp: read_at_def)

lemma write_at_Some_iff [mem_simps]:
  "write_at xs i v = Some ys \<longleftrightarrow> i < length xs \<and> ys = xs[i := v]"
  by (auto simp: write_at_def)

lemma c_assert_Some_iff [mem_simps]: "c_assert b = Some u \<longleftrightarrow> b"
  by (simp add: c_assert_def)

lemma read_at_inside [simp]: "i < length xs \<Longrightarrow> read_at xs i = Some (xs ! i)"
  by (simp add: read_at_def)

lemma read_at_outside [simp]: "length xs \<le> i \<Longrightarrow> read_at xs i = None"
  by (simp add: read_at_def)

lemma write_at_inside [simp]: "i < length xs \<Longrightarrow> write_at xs i v = Some (xs[i := v])"
  by (simp add: write_at_def)

lemma c_assert_True [simp]: "c_assert True = Some ()"
  by (simp add: c_assert_def)

lemma c_assert_False [simp]: "c_assert False = None"
  by (simp add: c_assert_def)

lemma length_realloc_list [simp]: "length (realloc_list junk m xs) = m"
  by (simp add: realloc_list_def)

lemma nth_realloc_list: "i < m \<Longrightarrow> i < length xs \<Longrightarrow> realloc_list junk m xs ! i = xs ! i"
  by (simp add: realloc_list_def nth_append)

section \<open>Words\<close>

lemma unat_of_nat_small [word_facts]:
  "n < 2 ^ LENGTH('a) \<Longrightarrow> unat (of_nat n :: 'a::len word) = n"
  by (simp add: unat_of_nat take_bit_eq_mod)

lemma unat_lt_pow [word_facts]: "unat (w :: 'a::len word) < 2 ^ LENGTH('a)"
  by (rule unsigned_less)

lemma ucast_of_nat_u64: "n < 2 ^ 32 \<Longrightarrow> ucast (of_nat n :: u64) = (of_nat n :: i32)"
  by (simp add: unsigned_of_nat take_bit_nat_eq_self)

lemma word_eq_by_bits:
  "(\<And>n. n < LENGTH('a) \<Longrightarrow> bit v n = bit w n) \<Longrightarrow> v = (w :: 'a::len word)"
  by (rule bit_word_eqI)

lemma signed_take_bit_if:
  fixes x :: int
  assumes "0 \<le> x" "x < 2 * 2 ^ n"
  shows "signed_take_bit n x = (if x < 2 ^ n then x else x - 2 * 2 ^ n)"
proof (cases "x < 2 ^ n")
  case True
  moreover have "- (2 ^ n) \<le> x" using assms(1) by (rule order_trans [rotated]) simp
  ultimately show ?thesis by (simp add: signed_take_bit_int_eq_self)
next
  case False
  define y where "y = x - 2 ^ n"
  from False assms have y: "0 \<le> y" "y < 2 ^ n" "x = y + 1 * 2 ^ n" by (simp_all add: y_def)
  then have "x div 2 ^ n = 1" by (simp only: div_mult_self1) simp
  then have "bit x n" by (simp add: bit_iff_odd)
  moreover have "take_bit (Suc n) x = x" using assms by (simp add: take_bit_int_eq_self)
  ultimately show ?thesis using False
    by (simp add: signed_take_bit_eq_take_bit_minus)
qed

lemma sint_if:
  fixes w :: "'a::len word"
  assumes n: "LENGTH('a) = Suc n"
  shows "sint w = (if unat w < 2 ^ n then int (unat w) else int (unat w) - 2 * 2 ^ n)"
proof -
  define x where "x = unat w"
  have x: "uint w = int x" by (simp add: x_def)
  have "x < 2 ^ LENGTH('a)" unfolding x_def by (rule unsigned_less)
  then have "int x < 2 ^ LENGTH('a)" by (simp only: of_nat_less_numeral_power_cancel_iff)
  then have "int x < 2 * 2 ^ n" by (simp only: n power_Suc)
  then have "signed_take_bit n (int x) = (if int x < 2 ^ n then int x else int x - 2 * 2 ^ n)"
    by (intro signed_take_bit_if) simp_all
  moreover have "int x < 2 ^ n \<longleftrightarrow> x < 2 ^ n"
    by (simp only: of_nat_less_numeral_power_cancel_iff)
  ultimately show ?thesis
    unfolding sint_uint x x_def [symmetric] n by simp
qed

lemma sint32_if: "sint (w :: i32) = (if unat w < 2 ^ 31 then int (unat w) else int (unat w) - 2 ^ 32)"
  by (subst sint_if [of 31]) simp_all

lemma sint32_nonneg_iff: "0 \<le> sint (w :: i32) \<longleftrightarrow> unat w < 2 ^ 31"
proof -
  define x where "x = unat w"
  have "x < 2 ^ 32" using unat_lt_pow [of w] by (simp add: x_def)
  then show ?thesis unfolding sint32_if x_def [symmetric] by auto
qed

lemma unat_scast32:
  assumes "0 \<le> sint (w :: i32)"
  shows "unat (scast w :: u64) = unat w"
proof -
  have lt: "unat w < 2 ^ 31" using assms by (simp only: sint32_nonneg_iff)
  then have "sint w = int (unat w)" by (simp only: sint32_if if_True)
  then have "scast w = (of_nat (unat w) :: u64)" by (simp only: scast_eq of_int_of_nat_eq)
  then show ?thesis using lt unat_of_nat_small [of "unat w", where 'a = 64] by simp
qed

end
