(* ===== verification/Bitset.thy ===== *)
theory Bitset
  imports Jato_Prelude
begin

text \<open>
  The bit sets of lib/bitset.c and include/lib/bitset.h: an array of \<open>unsigned long\<close> with the
  number of bits and the size in bytes. They hold branch targets (control-flow analysis),
  instruction starts (verifier), live variables (liveness) and dominance frontiers.
  The theory models every operation, gives the set of bit indices a bit set stands for
  (\<open>bset\<close>) and proves that each operation computes the set operation of its name.
\<close>

section \<open>Data\<close>

record bitset =
  nr_bits :: u64
  bs_size :: u64
  bits :: "u64 list"

definition BITS_PER_LONG :: u64 where
  "BITS_PER_LONG = 64"

definition align :: "u64 \<Rightarrow> u64 \<Rightarrow> u64" where
  "align x a = (x + a - 1) AND NOT (a - 1)"

section \<open>Operations\<close>

definition alloc_bitset :: "bool \<Rightarrow> u64 \<Rightarrow> bitset option" where
  "alloc_bitset mem n =
     (let size = align n BITS_PER_LONG div 8
      in if mem
         then Some \<lparr>nr_bits = n, bs_size = size, bits = replicate (unat size div 8) 0\<rparr>
         else None)"

definition bit_mask :: "u64 \<Rightarrow> u64" where
  "bit_mask b = push_bit (unat (b AND (BITS_PER_LONG - 1))) 1"

definition test_bit :: "u64 list \<Rightarrow> u64 \<Rightarrow> bool option" where
  "test_bit bs b =
     do { w \<leftarrow> read_at bs (unat (b div BITS_PER_LONG));
          Some (w AND bit_mask b \<noteq> 0) }"

definition set_bit :: "u64 list \<Rightarrow> u64 \<Rightarrow> u64 list option" where
  "set_bit bs b =
     do { w \<leftarrow> read_at bs (unat (b div BITS_PER_LONG));
          write_at bs (unat (b div BITS_PER_LONG)) (w OR bit_mask b) }"

definition clear_bit :: "u64 list \<Rightarrow> u64 \<Rightarrow> u64 list option" where
  "clear_bit bs b =
     do { w \<leftarrow> read_at bs (unat (b div BITS_PER_LONG));
          write_at bs (unat (b div BITS_PER_LONG)) (w AND NOT (bit_mask b)) }"

text \<open>The loop of the binary operations: \<open>dest[i] = f dest[i] src[i]\<close> for \<open>i < n\<close>.\<close>

fun words_loop :: "(u64 \<Rightarrow> u64 \<Rightarrow> u64) \<Rightarrow> u64 list \<Rightarrow> nat \<Rightarrow> nat \<Rightarrow> u64 list \<Rightarrow> u64 list option" where
  "words_loop f src i 0 dest = Some dest"
| "words_loop f src i (Suc n) dest =
     do { d \<leftarrow> read_at dest i;
          s \<leftarrow> read_at src i;
          dest' \<leftarrow> write_at dest i (f d s);
          words_loop f src (Suc i) n dest' }"

definition bitset_union_to :: "bitset \<Rightarrow> bitset \<Rightarrow> bitset option" where
  "bitset_union_to src dst =
     do { ws \<leftarrow> words_loop (\<lambda>d s. d OR s) (bits src) 0
                  (unat (max (bs_size src) (bs_size dst) div 8)) (bits dst);
          Some (dst\<lparr>bits := ws\<rparr>) }"

definition bitset_sub :: "bitset \<Rightarrow> bitset \<Rightarrow> bitset option" where
  "bitset_sub src dst =
     do { ws \<leftarrow> words_loop (\<lambda>d s. d AND NOT s) (bits src) 0
                  (unat (max (bs_size src) (bs_size dst) div 8)) (bits dst);
          Some (dst\<lparr>bits := ws\<rparr>) }"

fun words_equal :: "u64 list \<Rightarrow> u64 list \<Rightarrow> nat \<Rightarrow> nat \<Rightarrow> bool option" where
  "words_equal src dest i 0 = Some True"
| "words_equal src dest i (Suc n) =
     do { d \<leftarrow> read_at dest i;
          s \<leftarrow> read_at src i;
          if d \<noteq> s then Some False else words_equal src dest (Suc i) n }"

definition bitset_equal :: "bitset \<Rightarrow> bitset \<Rightarrow> bool option" where
  "bitset_equal src dst =
     words_equal (bits src) (bits dst) 0 (unat (max (bs_size src) (bs_size dst) div 8))"

text \<open>\<open>memset\<close> and \<open>memcpy\<close> work on bytes; a size that is not a multiple of the word size does
  not occur, since \<open>alloc_bitset\<close> rounds it.\<close>

definition memset_words :: "u64 \<Rightarrow> nat \<Rightarrow> u64 list \<Rightarrow> u64 list option" where
  "memset_words w n ws = (if n \<le> length ws then Some (replicate n w @ drop n ws) else None)"

definition bitset_clear_all :: "bitset \<Rightarrow> bitset option" where
  "bitset_clear_all b =
     do { ws \<leftarrow> memset_words 0 (unat (bs_size b) div 8) (bits b); Some (b\<lparr>bits := ws\<rparr>) }"

definition bitset_set_all :: "bitset \<Rightarrow> bitset option" where
  "bitset_set_all b =
     do { ws \<leftarrow> memset_words (-1) (unat (bs_size b) div 8) (bits b); Some (b\<lparr>bits := ws\<rparr>) }"

definition bitset_copy_to :: "bitset \<Rightarrow> bitset \<Rightarrow> bitset option" where
  "bitset_copy_to src dst =
     (let n = unat (min (bs_size src) (bs_size dst)) div 8
      in if n \<le> length (bits src) \<and> n \<le> length (bits dst)
         then Some (dst\<lparr>bits := take n (bits src) @ drop n (bits dst)\<rparr>) else None)"

text \<open>\<open>ffsl\<close> of the C library: one plus the index of the least significant set bit, zero if
  there is none.\<close>

definition ffsl :: "u64 \<Rightarrow> nat" where
  "ffsl w = (case find (bit w) [0..<64] of None \<Rightarrow> 0 | Some i \<Rightarrow> Suc i)"

text \<open>The label \<open>found\<close>, and the scan of the words after the first one; \<open>start\<close> counts bits.\<close>

definition ffs_found :: "bitset \<Rightarrow> nat \<Rightarrow> u64 \<Rightarrow> i32" where
  "ffs_found b start tmp =
     (let ret = of_nat (ffsl tmp) + (of_nat start - 1) :: u64
      in if ret < nr_bits b then ucast ret else -1)"

function ffs_scan :: "bitset \<Rightarrow> nat \<Rightarrow> i32 option" where
  "ffs_scan b start =
     (if start < unat (nr_bits b)
      then do { tmp \<leftarrow> read_at (bits b) (start div 64);
                if tmp \<noteq> 0 then Some (ffs_found b start tmp) else ffs_scan b (start + 64) }
      else Some (-1))"
  by pat_completeness auto
termination
  by (relation "measure (\<lambda>(b, start). unat (nr_bits b) - start)") auto

declare ffs_scan.simps [simp del]

definition bitset_ffs_from :: "bitset \<Rightarrow> i32 \<Rightarrow> i32 option" where
  "bitset_ffs_from b ndx =
     (let n = scast ndx :: u64;
          unaligned = n mod BITS_PER_LONG;
          start = n AND NOT (BITS_PER_LONG - 1);
          mask = push_bit (unat unaligned) 1 - 1
      in do { w \<leftarrow> read_at (bits b) (unat (start div BITS_PER_LONG));
              (let tmp = w AND NOT mask
               in if tmp \<noteq> 0 then Some (ffs_found b (unat start) tmp)
                  else ffs_scan b (unat (start + BITS_PER_LONG))) })"

definition bitset_ffs :: "bitset \<Rightarrow> i32 option" where
  "bitset_ffs b = bitset_ffs_from b 0"

section \<open>The set a bit set stands for\<close>

definition wset :: "u64 list \<Rightarrow> nat set" where
  "wset ws = {i. i < 64 * length ws \<and> bit (ws ! (i div 64)) (i mod 64)}"

definition bset :: "bitset \<Rightarrow> nat set" where
  "bset b = wset (bits b)"

definition bitset_wf :: "bitset \<Rightarrow> bool" where
  "bitset_wf b \<longleftrightarrow> unat (bs_size b) = 8 * length (bits b) \<and> unat (nr_bits b) \<le> 64 * length (bits b)"

lemma wset_nth: "i < 64 * length ws \<Longrightarrow> i \<in> wset ws \<longleftrightarrow> bit (ws ! (i div 64)) (i mod 64)"
  by (simp add: wset_def)

lemma wset_bound: "i \<in> wset ws \<Longrightarrow> i < 64 * length ws"
  by (simp add: wset_def)

lemma wset_eqI:
  assumes "length ws = length vs"
    and "\<And>j n. j < length ws \<Longrightarrow> n < 64 \<Longrightarrow> bit (ws ! j) n = bit (vs ! j) n"
  shows "wset ws = wset vs"
  using assms by (auto simp: wset_def less_mult_imp_div_less mult.commute)

lemma wset_nth_bit: "j < length ws \<Longrightarrow> n < 64 \<Longrightarrow> 64 * j + n \<in> wset ws \<longleftrightarrow> bit (ws ! j) n"
  by (auto simp: wset_def)

lemma wset_inject:
  assumes "length ws = length vs" and "wset ws = wset vs"
  shows "ws = vs"
proof (rule nth_equalityI)
  show "length ws = length vs" by (fact assms)
next
  fix j assume j: "j < length ws"
  show "ws ! j = vs ! j"
  proof (rule word_eq_by_bits)
    fix n :: nat assume "n < LENGTH(64)"
    then have n: "n < 64" by simp
    from j n assms show "bit (ws ! j) n = bit (vs ! j) n"
      by (metis wset_nth_bit)
  qed
qed

lemma unat_div_64 [word_facts]: "unat (b div BITS_PER_LONG) = unat b div 64"
  by (simp add: BITS_PER_LONG_def unat_div)

lemma unat_and_63 [word_facts]: "unat (b AND (BITS_PER_LONG - 1)) = unat b mod 64"
proof -
  have "b AND 63 = take_bit 6 b"
    by (simp add: take_bit_eq_mask mask_eq_exp_minus_1)
  then show ?thesis
    by (simp add: BITS_PER_LONG_def take_bit_eq_mod unat_mod)
qed

lemma bit_bit_mask [word_facts]: "bit (bit_mask b) n \<longleftrightarrow> n = unat b mod 64"
  by (auto simp: bit_mask_def word_facts bit_exp_iff)

lemma and_bit_mask_nonzero [word_facts]: "w AND bit_mask b \<noteq> 0 \<longleftrightarrow> bit w (unat b mod 64)"
  by (auto simp: bit_eq_iff [of "w AND bit_mask b" 0] bit_and_iff word_facts)

lemma index_in_words: "unat b < 64 * length ws \<Longrightarrow> unat b div 64 < length ws"
  by (simp add: less_mult_imp_div_less mult.commute)

lemma test_bit_eq: "unat b < 64 * length ws \<Longrightarrow> test_bit ws b = Some (unat b \<in> wset ws)"
  by (simp add: test_bit_def word_facts index_in_words wset_nth)

lemma test_bit_fault: "64 * length ws \<le> unat b \<Longrightarrow> test_bit ws b = None"
  by (simp add: test_bit_def word_facts read_at_def less_eq_div_iff_mult_less_eq mult.commute)

lemma div_mod_64_neq: "i \<noteq> j \<Longrightarrow> j div 64 = i div 64 \<Longrightarrow> i mod 64 \<noteq> (j::nat) mod 64"
  by (metis mult_div_mod_eq)

lemma wset_update:
  assumes "unat b < 64 * length ws"
  shows "wset (ws[unat b div 64 := ws ! (unat b div 64) OR bit_mask b]) = insert (unat b) (wset ws)"
    and "wset (ws[unat b div 64 := ws ! (unat b div 64) AND NOT (bit_mask b)]) = wset ws - {unat b}"
  using assms index_in_words [OF assms]
  by (auto simp: wset_def nth_list_update bit_or_iff bit_and_iff bit_not_iff word_facts
        less_mult_imp_div_less mult.commute dest: div_mod_64_neq)

lemma set_bit_eq:
  assumes "unat b < 64 * length ws"
  shows "\<exists>ws'. set_bit ws b = Some ws' \<and> length ws' = length ws \<and> wset ws' = insert (unat b) (wset ws)"
  using assms index_in_words [OF assms] wset_update(1) [OF assms]
  by (simp add: set_bit_def word_facts)

lemma clear_bit_eq:
  assumes "unat b < 64 * length ws"
  shows "\<exists>ws'. clear_bit ws b = Some ws' \<and> length ws' = length ws \<and> wset ws' = wset ws - {unat b}"
  using assms index_in_words [OF assms] wset_update(2) [OF assms]
  by (simp add: clear_bit_def word_facts)

lemma words_loop_nth:
  "i + n \<le> length dest \<Longrightarrow> i + n \<le> length src \<Longrightarrow>
   \<exists>ws. words_loop f src i n dest = Some ws \<and> length ws = length dest \<and>
     (\<forall>j < length dest. ws ! j = (if i \<le> j \<and> j < i + n then f (dest ! j) (src ! j) else dest ! j))"
proof (induction n arbitrary: i dest)
  case 0
  then show ?case by auto
next
  case (Suc n)
  let ?d = "dest[i := f (dest ! i) (src ! i)]"
  from Suc.prems have "Suc i + n \<le> length ?d" and "Suc i + n \<le> length src" by simp_all
  from Suc.IH [OF this] obtain ws where ws: "words_loop f src (Suc i) n ?d = Some ws"
    "length ws = length dest"
    "\<forall>j < length dest. ws ! j = (if Suc i \<le> j \<and> j < Suc i + n then f (?d ! j) (src ! j) else ?d ! j)"
    by auto
  from Suc.prems ws show ?case
    by (auto simp: nth_list_update not_less_eq_eq dest: le_antisym)
qed

lemma words_loop_full:
  assumes "length src = length dest"
  shows "words_loop f src 0 (length dest) dest = Some (map2 f dest src)"
  using words_loop_nth [of 0 "length dest" dest src f] assms
  by (auto intro!: nth_equalityI)

lemma wset_map2:
  assumes "length src = length dest"
  shows "wset (map2 (\<lambda>d s. d OR s) dest src) = wset dest \<union> wset src"
    and "wset (map2 (\<lambda>d s. d AND NOT s) dest src) = wset dest - wset src"
  using assms
  by (auto simp: wset_def bit_or_iff bit_and_iff bit_not_iff less_mult_imp_div_less mult.commute)

lemma wset_replicate [simp]: "wset (replicate n 0) = {}" "wset (replicate n (-1)) = {..<64 * n}"
  by (auto simp: wset_def less_mult_imp_div_less mult.commute)

lemma words_equal_iff:
  assumes "i + n \<le> length dest" and "i + n \<le> length src"
  shows "words_equal src dest i n = Some (\<forall>j. i \<le> j \<and> j < i + n \<longrightarrow> dest ! j = src ! j)"
  using assms
proof (induction n arbitrary: i)
  case 0
  then show ?case by auto
next
  case (Suc n)
  then have IH: "words_equal src dest (Suc i) n
      = Some (\<forall>j. Suc i \<le> j \<and> j < Suc i + n \<longrightarrow> dest ! j = src ! j)" by simp
  have "(\<forall>j. i \<le> j \<and> j < i + Suc n \<longrightarrow> dest ! j = src ! j) \<longleftrightarrow>
        dest ! i = src ! i \<and> (\<forall>j. Suc i \<le> j \<and> j < Suc i + n \<longrightarrow> dest ! j = src ! j)"
    by (auto simp: Suc_le_eq le_less [of i])
  with Suc.prems IH show ?case by simp
qed

lemma bitset_wf_words [simp]: "bitset_wf b \<Longrightarrow> unat (bs_size b div 8) = length (bits b)"
  by (simp add: bitset_wf_def unat_div)

lemma bitset_wf_same_size:
  "bitset_wf a \<Longrightarrow> bitset_wf b \<Longrightarrow> bs_size a = bs_size b \<Longrightarrow> length (bits a) = length (bits b)"
  by (simp add: bitset_wf_def)

lemma bitset_union_to_eq:
  assumes "bitset_wf a" "bitset_wf b" "bs_size a = bs_size b"
  shows "bitset_union_to a b = Some (b\<lparr>bits := map2 (\<lambda>d s. d OR s) (bits b) (bits a)\<rparr>)"
  using assms bitset_wf_same_size [OF assms]
  by (simp add: bitset_union_to_def words_loop_full)

lemma bitset_sub_eq:
  assumes "bitset_wf a" "bitset_wf b" "bs_size a = bs_size b"
  shows "bitset_sub a b = Some (b\<lparr>bits := map2 (\<lambda>d s. d AND NOT s) (bits b) (bits a)\<rparr>)"
  using assms bitset_wf_same_size [OF assms]
  by (simp add: bitset_sub_def words_loop_full)

lemma bset_map2:
  assumes "bitset_wf a" "bitset_wf b" "bs_size a = bs_size b"
  shows "bset (b\<lparr>bits := map2 (\<lambda>d s. d OR s) (bits b) (bits a)\<rparr>) = bset b \<union> bset a"
    and "bset (b\<lparr>bits := map2 (\<lambda>d s. d AND NOT s) (bits b) (bits a)\<rparr>) = bset b - bset a"
  using bitset_wf_same_size [OF assms] by (simp_all add: bset_def wset_map2)

lemma bitset_equal_eq:
  assumes "bitset_wf a" "bitset_wf b" "bs_size a = bs_size b"
  shows "bitset_equal a b = Some (bset a = bset b)"
proof -
  have len: "length (bits a) = length (bits b)" by (rule bitset_wf_same_size [OF assms])
  have "bset a = bset b \<longleftrightarrow> bits a = bits b"
    using len wset_inject by (auto simp: bset_def)
  also have "\<dots> \<longleftrightarrow> (\<forall>j < length (bits b). bits b ! j = bits a ! j)"
    using len by (auto simp: list_eq_iff_nth_eq)
  finally show ?thesis
    using assms len by (simp add: bitset_equal_def words_equal_iff)
qed

lemma bitset_clear_all_eq:
  "bitset_wf b \<Longrightarrow> bitset_clear_all b = Some (b\<lparr>bits := replicate (length (bits b)) 0\<rparr>)"
  by (simp add: bitset_clear_all_def memset_words_def bitset_wf_def)

lemma bitset_set_all_eq:
  "bitset_wf b \<Longrightarrow> bitset_set_all b = Some (b\<lparr>bits := replicate (length (bits b)) (-1)\<rparr>)"
  by (simp add: bitset_set_all_def memset_words_def bitset_wf_def)

lemma bitset_copy_to_eq:
  assumes "bitset_wf a" "bitset_wf b" "bs_size a = bs_size b"
  shows "bitset_copy_to a b = Some (b\<lparr>bits := bits a\<rparr>)"
  using assms bitset_wf_same_size [OF assms]
  by (simp add: bitset_copy_to_def bitset_wf_def)

lemma and_not_mask_eq: "w AND NOT (mask k) = push_bit k (drop_bit k (w :: u64))"
  by (rule word_eq_by_bits)
     (auto simp: bit_and_iff bit_not_iff bit_push_bit_iff bit_drop_bit_eq bit_mask_iff)

lemma unat_align_64:
  assumes "unat n + 63 < 2 ^ 64"
  shows "unat (align n BITS_PER_LONG) = 64 * ((unat n + 63) div 64)"
proof -
  have n63: "unat (n + 63) = unat n + 63"
    using assms by (simp add: unat_word_ariths)
  have "(n + 63) AND NOT 63 = push_bit 6 (drop_bit 6 (n + 63))"
    using and_not_mask_eq [of "n + 63" 6] by (simp add: mask_eq_exp_minus_1)
  also have "unat \<dots> = 64 * ((unat n + 63) div 64)"
  proof -
    have "unat (drop_bit 6 (n + 63)) = (unat n + 63) div 64"
      by (simp add: drop_bit_eq_div unat_div n63)
    moreover have "64 * ((unat n + 63) div 64) < 2 ^ 64"
      using assms by (meson le_less_trans times_div_less_eq_dividend)
    ultimately show ?thesis
      by (simp add: push_bit_eq_mult unat_word_ariths)
  qed
  finally show ?thesis by (simp add: align_def BITS_PER_LONG_def add.commute)
qed

lemma alloc_bitset_eq:
  assumes "unat n + 63 < 2 ^ 64"
  shows "\<exists>b. alloc_bitset True n = Some b \<and> bitset_wf b \<and> nr_bits b = n \<and> bset b = {} \<and>
             length (bits b) = (unat n + 63) div 64"
  using unat_align_64 [OF assms]
  by (auto simp: alloc_bitset_def Let_def bitset_wf_def bset_def unat_div)

text \<open>What \<open>bitset_ffs_from\<close> promises: the least member from \<open>k\<close> on below \<open>nr_bits\<close>, or \<open>-1\<close>.\<close>

definition first_from :: "bitset \<Rightarrow> nat \<Rightarrow> i32 \<Rightarrow> bool" where
  "first_from b k r \<longleftrightarrow>
     (if \<exists>i \<in> bset b. k \<le> i \<and> i < unat (nr_bits b)
      then \<exists>i \<in> bset b. r = of_nat i \<and> k \<le> i \<and> i < unat (nr_bits b) \<and> (\<forall>j \<in> bset b. k \<le> j \<longrightarrow> i \<le> j)
      else r = -1)"

lemma ffsl_least:
  assumes "w \<noteq> 0"
  obtains i where "i < 64" "ffsl w = Suc i" "bit w i" "\<And>j. j < i \<Longrightarrow> \<not> bit w j"
proof (cases "find (bit w) [0..<64]")
  case None
  then have "\<forall>n < 64. \<not> bit w n" by (auto simp: find_None_iff)
  then have "w = 0" by (intro word_eq_by_bits) auto
  with assms show thesis by simp
next
  case (Some i)
  then have "i < 64 \<and> bit w i \<and> (\<forall>j < i. \<not> bit w j)"
    by (auto simp: find_Some_iff)
  with Some that [of i] show thesis by (simp add: ffsl_def)
qed

lemma ffs_found_first:
  assumes wf: "bitset_wf b" and nr: "unat (nr_bits b) < 2 ^ 31"
    and s: "start = 64 * s" "s < length (bits b)" "s < 2 ^ 26"
    and tmp: "tmp \<noteq> 0" "\<And>n. n < 64 \<Longrightarrow> bit tmp n \<longleftrightarrow> bit (bits b ! s) n \<and> k \<le> start + n"
    and skip: "\<And>j. j \<in> bset b \<Longrightarrow> k \<le> j \<Longrightarrow> start \<le> j"
  shows "first_from b k (ffs_found b start tmp)"
proof -
  obtain i where i: "i < 64" "ffsl tmp = Suc i" "bit tmp i" "\<And>j. j < i \<Longrightarrow> \<not> bit tmp j"
    using ffsl_least [OF tmp(1)] by metis
  have mem: "start + i \<in> bset b" "k \<le> start + i"
    using i s tmp(2) by (auto simp: bset_def wset_nth_bit)
  have least: "start + i \<le> j" if j: "j \<in> bset b" "k \<le> j" for j
  proof -
    obtain n where n: "j = 64 * s + n" using skip [OF j] s(1) le_Suc_ex by blast
    show ?thesis
    proof (cases "n < 64")
      case True
      with j n s tmp(2) have "bit tmp n" by (auto simp: bset_def wset_nth_bit)
      with i(4) [of n] n s(1) show ?thesis by (simp add: not_less) (meson not_less)
    next
      case False
      with n s(1) i(1) show ?thesis by simp
    qed
  qed
  define p where "p = start + i"
  have ret: "of_nat (ffsl tmp) + (of_nat start - 1) = (of_nat p :: u64)"
    by (simp add: i(2) p_def)
  have small: "p < 2 ^ 32" using s i(1) by (simp add: p_def)
  then have "unat (of_nat p :: u64) = p" by (simp add: unat_of_nat_small)
  then have found: "ffs_found b start tmp = (if p < unat (nr_bits b) then of_nat p else -1)"
    unfolding ffs_found_def ret Let_def word_less_nat_alt ucast_of_nat_u64 [OF small] by simp
  show ?thesis
  proof (cases "p < unat (nr_bits b)")
    case True
    with found mem least show ?thesis
      unfolding first_from_def p_def [symmetric] by (metis (no_types, lifting))
  next
    case False
    with least have "\<not> (\<exists>i \<in> bset b. k \<le> i \<and> i < unat (nr_bits b))"
      unfolding p_def by fastforce
    with False found show ?thesis unfolding first_from_def by (simp only: if_False)
  qed
qed

lemma bset_word:
  "s < length (bits b) \<Longrightarrow> n < 64 \<Longrightarrow> 64 * s + n \<in> bset b \<longleftrightarrow> bit (bits b ! s) n"
  by (simp add: bset_def wset_nth_bit)

lemma bset_skip_word:
  assumes "s < length (bits b)" "\<And>n. n < 64 \<Longrightarrow> k \<le> 64 * s + n \<Longrightarrow> \<not> bit (bits b ! s) n"
    and "j \<in> bset b" "k \<le> j" "64 * s \<le> j"
  shows "64 * s + 64 \<le> j"
proof (rule ccontr)
  assume "\<not> 64 * s + 64 \<le> j"
  with assms(5) obtain n where "j = 64 * s + n" "n < 64"
    by (metis add_less_cancel_left le_Suc_ex not_le)
  with assms(1-4) show False by (auto simp: bset_word)
qed

lemma ffs_scan_first:
  assumes "bitset_wf b" "unat (nr_bits b) < 2 ^ 31" "start = 64 * s" "k \<le> start"
    and "\<And>j. j \<in> bset b \<Longrightarrow> k \<le> j \<Longrightarrow> start \<le> j"
  shows "\<exists>r. ffs_scan b start = Some r \<and> first_from b k r"
  using assms
proof (induction b start arbitrary: s rule: ffs_scan.induct)
  case (1 b start)
  show ?case
  proof (cases "start < unat (nr_bits b)")
    case False
    with "1.prems"(5) have "first_from b k (-1)" by (force simp: first_from_def)
    with False show ?thesis by (simp add: ffs_scan.simps)
  next
    case True
    with "1.prems" have s: "s < length (bits b)" "s < 2 ^ 26" by (auto simp: bitset_wf_def)
    let ?w = "bits b ! s"
    have rd: "read_at (bits b) (start div 64) = Some ?w" using s "1.prems"(3) by simp
    show ?thesis
    proof (cases "?w = 0")
      case False
      have "first_from b k (ffs_found b start ?w)"
        using "1.prems" s False by (intro ffs_found_first [where s = s]) auto
      with True False rd show ?thesis by (simp add: ffs_scan.simps)
    next
      case w0: True
      have "\<exists>r. ffs_scan b (start + 64) = Some r \<and> first_from b k r"
      proof (rule "1.IH" [OF True rd, of "Suc s"])
        show "start + 64 \<le> j" if "j \<in> bset b" "k \<le> j" for j
          using bset_skip_word [of s b k j] s(1) w0 that "1.prems"(3,5) by simp
      qed (use "1.prems" w0 rd in auto)
      with True w0 rd show ?thesis by (simp add: ffs_scan.simps [of b start])
    qed
  qed
qed

lemma word_mod_64: "w mod BITS_PER_LONG = w AND (BITS_PER_LONG - 1)"
proof -
  have "w AND 63 = take_bit 6 w"
    by (simp add: take_bit_eq_mask mask_eq_exp_minus_1)
  then show ?thesis by (simp add: BITS_PER_LONG_def take_bit_eq_mod)
qed

lemma bitset_ffs_from_first:
  assumes wf: "bitset_wf b" and nr: "unat (nr_bits b) < 2 ^ 31"
    and ndx: "0 \<le> sint ndx" "unat ndx < 64 * length (bits b)"
  shows "\<exists>r. bitset_ffs_from b ndx = Some r \<and> first_from b (unat ndx) r"
proof -
  define k where "k = unat ndx"
  define s where "s = k div 64"
  define n :: u64 where "n = scast ndx"
  have n: "unat n = k" unfolding n_def k_def by (rule unat_scast32 [OF ndx(1)])
  have k31: "k < 2 ^ 31" using ndx(1) by (simp only: sint32_nonneg_iff k_def)
  then have s26: "s < 2 ^ 26" by (simp add: s_def)
  have slen: "s < length (bits b)" using ndx(2) by (simp add: s_def k_def less_mult_imp_div_less mult.commute)
  have st: "n AND NOT (BITS_PER_LONG - 1) = push_bit 6 (drop_bit 6 n)"
    using and_not_mask_eq [of n 6] by (simp add: BITS_PER_LONG_def mask_eq_exp_minus_1)
  have start: "unat (push_bit 6 (drop_bit 6 n)) = 64 * s"
    using n s26 by (simp add: push_bit_eq_mult drop_bit_eq_div unat_word_ariths unat_div s_def)
  have start64: "unat (push_bit 6 (drop_bit 6 n) + BITS_PER_LONG) = 64 * Suc s"
    using start s26 by (simp add: BITS_PER_LONG_def unat_word_ariths(1))
  have m: "push_bit (unat (n mod BITS_PER_LONG)) 1 - 1 = (mask (k mod 64) :: u64)"
    by (simp add: word_mod_64 unat_and_63 n mask_eq_exp_minus_1)
  let ?w = "bits b ! s"
  define tmp where "tmp = ?w AND NOT (mask (k mod 64))"
  have ks: "k = 64 * s + k mod 64" by (simp add: s_def)
  have tmp: "bit tmp j \<longleftrightarrow> bit ?w j \<and> k \<le> 64 * s + j" if "j < 64" for j
  proof -
    have "k \<le> 64 * s + j \<longleftrightarrow> k mod 64 \<le> j" using ks by linarith
    with that show ?thesis by (auto simp: tmp_def bit_and_iff bit_not_iff bit_mask_iff)
  qed
  have eq: "bitset_ffs_from b ndx
      = (if tmp \<noteq> 0 then Some (ffs_found b (64 * s) tmp) else ffs_scan b (64 * Suc s))"
    unfolding bitset_ffs_from_def Let_def n_def [symmetric] st m unat_div_64 start start64
    using slen by (simp add: tmp_def)
  have skip: "64 * s \<le> j" if "k \<le> j" for j using that by (simp add: s_def)
  show ?thesis
  proof (cases "tmp = 0")
    case False
    have "first_from b k (ffs_found b (64 * s) tmp)"
      using wf nr slen s26 False tmp skip by (intro ffs_found_first) auto
    with False eq show ?thesis by (simp add: k_def)
  next
    case True
    have "64 * Suc s \<le> j" if j: "j \<in> bset b" "k \<le> j" for j
    proof -
      have "\<not> bit ?w i" if "i < 64" "k \<le> 64 * s + i" for i
        using tmp [OF that(1)] that True by simp
      with bset_skip_word [OF slen _ j skip [OF j(2)]] show ?thesis by simp
    qed
    moreover have "k \<le> 64 * Suc s" using mult_div_mod_eq [of 64 k] by (simp add: s_def)
    ultimately have "\<exists>r. ffs_scan b (64 * Suc s) = Some r \<and> first_from b k r"
      using wf nr by (intro ffs_scan_first [where s = "Suc s"]) auto
    with True eq show ?thesis by (simp add: k_def)
  qed
qed

section \<open>The interface the data-flow analyses rely on\<close>

locale index_set =
  fixes carrier :: "'u \<Rightarrow> 's \<Rightarrow> bool"
    and elems :: "'s \<Rightarrow> nat set"
    and copy_to :: "'s \<Rightarrow> 's \<Rightarrow> 's option"
    and union_to :: "'s \<Rightarrow> 's \<Rightarrow> 's option"
    and sub_from :: "'s \<Rightarrow> 's \<Rightarrow> 's option"
    and clear_all :: "'s \<Rightarrow> 's option"
    and equal_sets :: "'s \<Rightarrow> 's \<Rightarrow> bool option"
  assumes copy: "carrier u a \<Longrightarrow> carrier u b \<Longrightarrow> \<exists>c. copy_to a b = Some c \<and> carrier u c \<and> elems c = elems a"
    and union: "carrier u a \<Longrightarrow> carrier u b \<Longrightarrow>
      \<exists>c. union_to a b = Some c \<and> carrier u c \<and> elems c = elems b \<union> elems a"
    and sub: "carrier u a \<Longrightarrow> carrier u b \<Longrightarrow>
      \<exists>c. sub_from a b = Some c \<and> carrier u c \<and> elems c = elems b - elems a"
    and clear: "carrier u a \<Longrightarrow> \<exists>c. clear_all a = Some c \<and> carrier u c \<and> elems c = {}"
    and equal: "carrier u a \<Longrightarrow> carrier u b \<Longrightarrow> equal_sets a b = Some (elems a = elems b)"
begin

text \<open>The transfer function of a backward analysis, \<open>in = use \<union> (out - def)\<close>, and the union over
  the successors.\<close>

lemma transfer:
  assumes "carrier u out" "carrier u inn" "carrier u def" "carrier u use"
  shows "\<exists>r. do { a \<leftarrow> copy_to out inn; b \<leftarrow> sub_from def a; union_to use b } = Some r \<and>
     carrier u r \<and> elems r = elems use \<union> (elems out - elems def)"
proof -
  obtain a where a: "copy_to out inn = Some a" "carrier u a" "elems a = elems out"
    using copy assms by blast
  obtain b where b: "sub_from def a = Some b" "carrier u b" "elems b = elems out - elems def"
    using sub [OF assms(3) a(2)] a(3) by auto
  obtain c where "union_to use b = Some c" "carrier u c" "elems c = elems b \<union> elems use"
    using union [OF assms(4) b(2)] by blast
  with a b show ?thesis by auto
qed

lemma union_list:
  assumes "carrier u acc" "\<And>s. s \<in> set ss \<Longrightarrow> carrier u s"
  shows "\<exists>r. foldr (\<lambda>s k acc. do { acc' \<leftarrow> union_to s acc; k acc' }) ss Some acc = Some r \<and>
     carrier u r \<and> elems r = elems acc \<union> (\<Union>s \<in> set ss. elems s)"
  using assms
proof (induction ss arbitrary: acc)
  case Nil
  then show ?case by simp
next
  case (Cons s ss)
  obtain c where c: "union_to s acc = Some c" "carrier u c" "elems c = elems acc \<union> elems s"
    using union [of u s acc] Cons.prems by auto
  with Cons.IH [of c] Cons.prems show ?case by auto
qed

end

definition bitset_of :: "nat \<Rightarrow> bitset \<Rightarrow> bool" where
  "bitset_of n b \<longleftrightarrow> bitset_wf b \<and> length (bits b) = n"

lemma bitset_of_same: "bitset_of n a \<Longrightarrow> bitset_of n b \<Longrightarrow> bs_size a = bs_size b"
  by (simp add: bitset_of_def bitset_wf_def word_unat_eq_iff)

lemma bitset_of_bits [simp]: "bitset_of n b \<Longrightarrow> length ws = n \<Longrightarrow> bitset_of n (b\<lparr>bits := ws\<rparr>)"
  by (auto simp: bitset_of_def bitset_wf_def)

interpretation bs: index_set bitset_of bset bitset_copy_to bitset_union_to bitset_sub
    bitset_clear_all bitset_equal
proof unfold_locales
  fix u a b assume ab: "bitset_of u a" "bitset_of u b"
  then have wf: "bitset_wf a" "bitset_wf b" "length (bits a) = u" "length (bits b) = u"
    by (simp_all add: bitset_of_def)
  note same = wf(1,2) bitset_of_same [OF ab]
  show "\<exists>c. bitset_copy_to a b = Some c \<and> bitset_of u c \<and> bset c = bset a"
    using ab wf by (simp add: bitset_copy_to_eq [OF same] bset_def)
  show "\<exists>c. bitset_union_to a b = Some c \<and> bitset_of u c \<and> bset c = bset b \<union> bset a"
    using ab wf by (simp add: bitset_union_to_eq [OF same] bset_map2 [OF same])
  show "\<exists>c. bitset_sub a b = Some c \<and> bitset_of u c \<and> bset c = bset b - bset a"
    using ab wf by (simp add: bitset_sub_eq [OF same] bset_map2 [OF same])
  show "bitset_equal a b = Some (bset a = bset b)"
    by (rule bitset_equal_eq [OF same])
next
  fix u a assume "bitset_of u a"
  then show "\<exists>c. bitset_clear_all a = Some c \<and> bitset_of u c \<and> bset c = {}"
    by (simp add: bitset_clear_all_eq bitset_of_def bitset_wf_def bset_def)
qed

section \<open>Properties\<close>

text \<open>A freshly allocated bit set of \<open>n\<close> bits has room for all of them and is empty.
  Setting, clearing and testing a bit with an index inside the set stays inside the array and
  is insertion, removal and membership on the set of bit indices.\<close>

theorem bitset_bit_operations:
  assumes "unat n + 63 < 2 ^ 64" "alloc_bitset True n = Some b0" "unat i < unat n"
    and "length ws = length (bits b0)"
  shows "bitset_wf b0 \<and> bset b0 = {} \<and>
    (\<exists>ws'. set_bit ws i = Some ws' \<and> length ws' = length ws \<and> wset ws' = insert (unat i) (wset ws)) \<and>
    (\<exists>ws'. clear_bit ws i = Some ws' \<and> length ws' = length ws \<and> wset ws' = wset ws - {unat i}) \<and>
    test_bit ws i = Some (unat i \<in> wset ws)"
proof -
  obtain wf: "bitset_wf b0" "bset b0 = {}" and len: "length (bits b0) = (unat n + 63) div 64"
    using alloc_bitset_eq [OF assms(1)] assms(2) by auto
  have "unat i < 64 * length ws" using assms(3,4) len by linarith
  then show ?thesis using wf set_bit_eq clear_bit_eq test_bit_eq by blast
qed

theorem bitset_bit_operations_witness:
  "\<exists>b0. alloc_bitset True 100 = Some b0 \<and> bset b0 = {} \<and>
     (\<exists>ws'. set_bit (bits b0) 70 = Some ws' \<and> wset ws' = {70})"
proof -
  have h: "unat (100::u64) + 63 < 2 ^ 64" "unat (70::u64) < unat (100::u64)" by simp_all
  obtain b0 where b0: "alloc_bitset True 100 = Some b0" by (simp add: alloc_bitset_def Let_def)
  from bitset_bit_operations [OF h(1) b0 h(2) refl] b0 show ?thesis
    by (auto simp: bset_def)
qed

text \<open>C20: On bit sets of the same capacity \<open>bitset_copy_to\<close>, \<open>bitset_union_to\<close>, \<open>bitset_sub\<close>,
  \<open>bitset_clear_all\<close> and \<open>bitset_equal\<close> are copy, union, difference, the empty set and equality
  of the sets they stand for, and none of them leaves its array.\<close>

theorem bitset_refines_sets:
  assumes "bitset_of u a" "bitset_of u b"
  shows "(\<exists>c. bitset_copy_to a b = Some c \<and> bitset_of u c \<and> bset c = bset a) \<and>
    (\<exists>c. bitset_union_to a b = Some c \<and> bitset_of u c \<and> bset c = bset b \<union> bset a) \<and>
    (\<exists>c. bitset_sub a b = Some c \<and> bitset_of u c \<and> bset c = bset b - bset a) \<and>
    (\<exists>c. bitset_clear_all a = Some c \<and> bitset_of u c \<and> bset c = {}) \<and>
    bitset_equal a b = Some (bset a = bset b)"
  using bs.copy [OF assms] bs.union [OF assms] bs.sub [OF assms] bs.clear [OF assms(1)] bs.equal [OF assms]
  by blast

theorem bitset_refines_sets_witness:
  "\<exists>a b c. bitset_of 2 a \<and> bitset_of 2 b \<and> bitset_union_to a b = Some c \<and> bset c = bset b \<union> bset a"
proof -
  let ?a = "\<lparr>nr_bits = 100, bs_size = 16, bits = [5, 1]\<rparr>" and ?b = "\<lparr>nr_bits = 100, bs_size = 16, bits = [2, 9]\<rparr>"
  have ab: "bitset_of 2 ?a" "bitset_of 2 ?b" by (simp_all add: bitset_of_def bitset_wf_def)
  with bitset_refines_sets [OF ab] show ?thesis by blast
qed

text \<open>When the source is larger than the destination, \<open>bitset_union_to\<close> runs over the end of the
  destination: the loop bound is the maximum of the two sizes where \<open>bitset_copy_to\<close> takes the
  minimum.\<close>

theorem bitset_union_to_overrun:
  assumes "bitset_wf a" "bitset_wf b" "length (bits b) < length (bits a)"
  shows "bitset_union_to a b = None \<and> (\<exists>c. bitset_copy_to a b = Some c)"
proof -
  have sizes: "bs_size b < bs_size a" "unat (bs_size b) = 8 * length (bits b)"
    using assms by (simp_all add: bitset_wf_def word_less_nat_alt)
  have stop: "words_loop f (bits a) i n ws = None" if "i \<le> length ws" "length ws < i + n" for f i n ws
    using that
  proof (induction n arbitrary: i ws)
    case 0
    then show ?case by simp
  next
    case (Suc n)
    then show ?case
      by (cases "read_at ws i"; cases "read_at (bits a) i") (auto simp: mem_simps)
  qed
  have "unat (max (bs_size a) (bs_size b) div 8) = length (bits a)"
    using assms(1) sizes(1) by (simp add: max.absorb1)
  then have "bitset_union_to a b = None"
    using stop [of 0 "bits b" "length (bits a)"] assms(3) by (simp add: bitset_union_to_def)
  moreover have "min (bs_size a) (bs_size b) = bs_size b" using sizes(1) by (simp add: min.absorb2)
  ultimately show ?thesis using sizes(2) assms(3) by (simp add: bitset_copy_to_def)
qed

theorem bitset_union_to_overrun_witness:
  "bitset_union_to \<lparr>nr_bits = 100, bs_size = 16, bits = [5, 1]\<rparr> \<lparr>nr_bits = 10, bs_size = 8, bits = [2]\<rparr> = None"
  using bitset_union_to_overrun [of "\<lparr>nr_bits = 100, bs_size = 16, bits = [5, 1]\<rparr>"
      "\<lparr>nr_bits = 10, bs_size = 8, bits = [2]\<rparr>"]
  by (simp add: bitset_wf_def)

text \<open>C21: \<open>bitset_ffs_from\<close> started inside a bit set of fewer than \<open>2 ^ 31\<close> bits terminates, stays inside
  the array and returns the least member from the start index on, or \<open>-1\<close> when there is none.\<close>

theorem bitset_ffs_from_correct:
  assumes "bitset_wf b" "unat (nr_bits b) < 2 ^ 31" "0 \<le> sint ndx" "unat ndx < 64 * length (bits b)"
  shows "\<exists>r. bitset_ffs_from b ndx = Some r \<and> first_from b (unat ndx) r"
  using assms by (rule bitset_ffs_from_first)

theorem bitset_ffs_from_correct_witness:
  "bitset_ffs_from \<lparr>nr_bits = 100, bs_size = 16, bits = [5, 2]\<rparr> 3 = Some 65 \<and>
   first_from \<lparr>nr_bits = 100, bs_size = 16, bits = [5, 2]\<rparr> 3 65"
proof -
  let ?b = "\<lparr>nr_bits = 100, bs_size = 16, bits = [5, 2]\<rparr>"
  have r: "bitset_ffs_from ?b 3 = Some 65" by code_simp
  have "\<exists>r. bitset_ffs_from ?b 3 = Some r \<and> first_from ?b (unat (3 :: i32)) r"
    by (rule bitset_ffs_from_correct) (simp_all add: bitset_wf_def)
  with r show ?thesis by simp
qed

end
