(* ===== verification/Pqueue.thy ===== *)
theory Pqueue
  imports Jato_Prelude "HOL-Library.Multiset"
begin

text \<open>
  The priority queue of lib/pqueue.c, the work list of the linear scan register allocator: a
  binary heap in an array whose cell 0 is not used, the root in cell 1 and \<open>size\<close> one more
  than the number of queued nodes. Sizes and indices are natural numbers: the \<open>unsigned int\<close>
  indices of the code agree with them as long as fewer than \<open>2 ^ 31\<close> nodes are queued.
  Keys are 64 bit words and are compared by the sign of their difference truncated to
  \<open>int\<close>, as in the code.
\<close>

section \<open>Data and operations\<close>

record 'v pqueue_node =
  pq_key :: u64
  pq_value :: 'v

record 'v pqueue =
  pq_size :: nat
  pq_data :: "'v pqueue_node list"

definition pqueue_alloc :: "bool \<Rightarrow> 'v pqueue option" where
  "pqueue_alloc mem = (if mem then Some \<lparr>pq_size = 1, pq_data = []\<rparr> else None)"

definition pqueue_is_empty :: "'v pqueue \<Rightarrow> bool" where
  "pqueue_is_empty pq \<longleftrightarrow> pq_size pq = 1"

definition pqueue_compare :: "u64 \<Rightarrow> u64 \<Rightarrow> int" where
  "pqueue_compare a b = sint (ucast (b - a) :: i32)"

function pq_up :: "'v pqueue_node list \<Rightarrow> u64 \<Rightarrow> nat \<Rightarrow> ('v pqueue_node list \<times> nat) option" where
  "pq_up d k i =
     (if 1 < i
      then do { p \<leftarrow> read_at d (i div 2);
                if pqueue_compare (pq_key p) k < 0
                then do { d' \<leftarrow> write_at d i p; pq_up d' k (i div 2) }
                else Some (d, i) }
      else Some (d, i))"
  by pat_completeness auto
termination
  by (relation "measure (\<lambda>(d, k, i). i)") auto

definition pqueue_insert ::
  "'v pqueue_node \<Rightarrow> bool \<Rightarrow> 'v pqueue \<Rightarrow> u64 \<Rightarrow> 'v \<Rightarrow> (int \<times> 'v pqueue) option" where
  "pqueue_insert junk mem pq k v =
     (if \<not> mem then Some (- ENOMEM, pq)
      else do { (d, i) \<leftarrow> pq_up (realloc_list junk (pq_size pq + 1) (pq_data pq)) k (pq_size pq);
                d' \<leftarrow> write_at d i \<lparr>pq_key = k, pq_value = v\<rparr>;
                Some (0, \<lparr>pq_size = pq_size pq + 1, pq_data = d'\<rparr>) })"

function pq_down ::
  "'v pqueue_node list \<Rightarrow> nat \<Rightarrow> 'v pqueue_node \<Rightarrow> nat \<Rightarrow> ('v pqueue_node list \<times> nat) option" where
  "pq_down d n tmp i =
     (if 1 \<le> i \<and> i \<le> n div 2
      then do { dj \<leftarrow> read_at d (2 * i);
                right \<leftarrow> (if 2 * i < n
                         then do { dr \<leftarrow> read_at d (2 * i + 1);
                                   Some (pqueue_compare (pq_key dj) (pq_key dr) < 0) }
                         else Some False);
                let j = (if right then 2 * i + 1 else 2 * i) in
                do { c \<leftarrow> read_at d j;
                     if pqueue_compare (pq_key c) (pq_key tmp) < 0 then Some (d, i)
                     else do { d' \<leftarrow> write_at d i c; pq_down d' n tmp j } } }
      else Some (d, i))"
  by pat_completeness auto
termination
  by (relation "measure (\<lambda>(d, n, tmp, i). n - i)") (auto split: if_splits)

definition pqueue_remove_top :: "'v pqueue \<Rightarrow> ('v option \<times> 'v pqueue) option" where
  "pqueue_remove_top pq =
     (if pqueue_is_empty pq then Some (None, pq)
      else do { top \<leftarrow> read_at (pq_data pq) 1;
                tmp \<leftarrow> read_at (pq_data pq) (pq_size pq - 1);
                (d, i) \<leftarrow> pq_down (pq_data pq) (pq_size pq - 1) tmp 1;
                d' \<leftarrow> write_at d i tmp;
                Some (Some (pq_value top), \<lparr>pq_size = pq_size pq - 1, pq_data = d'\<rparr>) })"

text \<open>The guard \<open>1 \<le> i\<close> of \<open>pq_down\<close> holds in every call; it is written out for the
  termination proof.\<close>

declare pq_up.simps [simp del] pq_down.simps [simp del]

section \<open>The comparison\<close>

lemma unat_diff_wrap:
  fixes a b :: "'a::len word"
  assumes "unat b < unat a"
  shows "unat (b - a) = 2 ^ LENGTH('a) - (unat a - unat b)"
  using assms by (simp add: unat_sub_if' )

lemma pqueue_compare_less:
  assumes "unat a < 2 ^ 31" "unat b < 2 ^ 31"
  shows "pqueue_compare a b < 0 \<longleftrightarrow> b < a"
proof -
  have u: "unat (ucast (b - a) :: i32) = unat (b - a) mod 2 ^ 32"
    by (simp add: unsigned_ucast_eq take_bit_eq_mod)
  show ?thesis
  proof (cases "b < a")
    case True
    then have lt: "unat b < unat a" by (simp add: word_less_nat_alt)
    define c where "c = unat a - unat b"
    have c: "0 < c" "c < 2 ^ 31" using lt assms by (simp_all add: c_def)
    have "unat (b - a) = 2 ^ 64 - c" using unat_diff_wrap [OF lt] by (simp add: c_def)
    also have "\<dots> = (2 ^ 32 - c) + (2 ^ 32 - 1) * 2 ^ 32" using c by simp
    finally have "unat (b - a) mod 2 ^ 32 = 2 ^ 32 - c"
      using c by (simp only: mod_mult_self1) simp
    with u c True show ?thesis by (simp add: pqueue_compare_def sint32_if)
  next
    case False
    then have le: "unat a \<le> unat b" by (simp add: word_less_nat_alt)
    then have "unat (b - a) = unat b - unat a" by (simp add: unat_sub_if')
    then have "unat (ucast (b - a) :: i32) < 2 ^ 31" using u assms le by simp
    then have "0 \<le> pqueue_compare a b" by (simp only: pqueue_compare_def sint32_nonneg_iff)
    with False show ?thesis by simp
  qed
qed

section \<open>Heaps with a hole\<close>

text \<open>\<open>heap d n\<close>: cells 1 to \<open>n\<close> are a heap. \<open>hole d n i\<close>: they would be one but for
  cell \<open>i\<close>, whose content does not count.\<close>

definition heap :: "'v pqueue_node list \<Rightarrow> nat \<Rightarrow> bool" where
  "heap d n \<longleftrightarrow> (\<forall>k. 2 \<le> k \<and> k \<le> n \<longrightarrow> pq_key (d ! (k div 2)) \<le> pq_key (d ! k))"

definition hole :: "'v pqueue_node list \<Rightarrow> nat \<Rightarrow> nat \<Rightarrow> bool" where
  "hole d n i \<longleftrightarrow> 1 \<le> i \<and> i \<le> n \<and> n < length d \<and>
     (\<forall>k. 2 \<le> k \<and> k \<le> n \<and> k \<noteq> i \<and> k div 2 \<noteq> i \<longrightarrow> pq_key (d ! (k div 2)) \<le> pq_key (d ! k)) \<and>
     (\<forall>k. 2 \<le> i \<and> k \<le> n \<and> k div 2 = i \<longrightarrow> pq_key (d ! (i div 2)) \<le> pq_key (d ! k))"

definition cells :: "'v pqueue_node list \<Rightarrow> nat set \<Rightarrow> 'v pqueue_node multiset" where
  "cells d I = image_mset ((!) d) (mset_set I)"

definition small_keys :: "'v pqueue_node list \<Rightarrow> nat \<Rightarrow> bool" where
  "small_keys d n \<longleftrightarrow> (\<forall>k. 1 \<le> k \<and> k \<le> n \<longrightarrow> unat (pq_key (d ! k)) < 2 ^ 31)"

lemma child_gt: "1 \<le> i \<Longrightarrow> k div 2 = i \<Longrightarrow> i < (k::nat)"
  by auto

lemma holeD:
  assumes "hole d n i"
  shows "1 \<le> i" "i \<le> n" "n < length d" "i < length d"
    and "2 \<le> k \<Longrightarrow> k \<le> n \<Longrightarrow> k \<noteq> i \<Longrightarrow> k div 2 \<noteq> i \<Longrightarrow> pq_key (d ! (k div 2)) \<le> pq_key (d ! k)"
    and "2 \<le> i \<Longrightarrow> k \<le> n \<Longrightarrow> k div 2 = i \<Longrightarrow> pq_key (d ! (i div 2)) \<le> pq_key (d ! k)"
  using assms by (simp_all add: hole_def)

lemma holeI:
  assumes "1 \<le> i" "i \<le> n" "n < length d"
    and "\<And>k. 2 \<le> k \<Longrightarrow> k \<le> n \<Longrightarrow> k \<noteq> i \<Longrightarrow> k div 2 \<noteq> i \<Longrightarrow> pq_key (d ! (k div 2)) \<le> pq_key (d ! k)"
    and "\<And>k. 2 \<le> i \<Longrightarrow> k \<le> n \<Longrightarrow> k div 2 = i \<Longrightarrow> pq_key (d ! (i div 2)) \<le> pq_key (d ! k)"
  shows "hole d n i"
  using assms by (simp add: hole_def)

lemma hole_fill:
  assumes h: "hole d n i"
    and up: "2 \<le> i \<Longrightarrow> pq_key (d ! (i div 2)) \<le> pq_key x"
    and down: "\<And>k. k \<le> n \<Longrightarrow> k div 2 = i \<Longrightarrow> pq_key x \<le> pq_key (d ! k)"
  shows "heap (d[i := x]) n"
  unfolding heap_def
proof (intro allI impI, elim conjE)
  fix k :: nat assume k: "2 \<le> k" "k \<le> n"
  note hd = holeD [OF h]
  consider "k = i" | "k \<noteq> i" "k div 2 = i" | "k \<noteq> i" "k div 2 \<noteq> i" by blast
  then show "pq_key (d[i := x] ! (k div 2)) \<le> pq_key (d[i := x] ! k)"
  proof cases
    case 1
    then have "k div 2 \<noteq> i" using hd(1) by simp
    with 1 k up hd(4) show ?thesis by simp
  next
    case 2
    with k down hd(4) show ?thesis by simp
  next
    case 3
    with k hd(4,5) show ?thesis by simp
  qed
qed

lemma hole_move_up:
  assumes h: "hole d n i" and i: "2 \<le> i"
  shows "hole (d[i := d ! (i div 2)]) n (i div 2)"
proof (rule holeI)
  note hd = holeD [OF h]
  let ?d = "d[i := d ! (i div 2)]"
  have lt: "i div 2 < i" using i by simp
  show "1 \<le> i div 2" "i div 2 \<le> n" "n < length ?d" using i hd(2,3) lt by simp_all
  show "pq_key (?d ! (k div 2)) \<le> pq_key (?d ! k)"
    if k: "2 \<le> k" "k \<le> n" "k \<noteq> i div 2" "k div 2 \<noteq> i div 2" for k
  proof (cases "k div 2 = i")
    case True
    moreover from k(4) have "k \<noteq> i" by blast
    ultimately show ?thesis using hd(4,6) i k by simp
  next
    case False
    moreover from k(4) have "k \<noteq> i" by blast
    ultimately show ?thesis using hd(4,5) k by simp
  qed
  show "pq_key (?d ! (i div 2 div 2)) \<le> pq_key (?d ! k)"
    if k: "2 \<le> i div 2" "k \<le> n" "k div 2 = i div 2" for k
  proof -
    have p: "pq_key (d ! (i div 2 div 2)) \<le> pq_key (d ! (i div 2))"
      using hd(5) [of "i div 2"] k(1) lt hd(2) by simp
    have ne: "i div 2 div 2 \<noteq> i" using lt by simp
    show ?thesis
    proof (cases "k = i")
      case True
      then show ?thesis using p ne hd(4) by simp
    next
      case False
      have "k div 2 \<noteq> i" "2 \<le> k" using k lt by simp_all
      then have "pq_key (d ! (i div 2)) \<le> pq_key (d ! k)" using hd(5) [of k] k False by simp
      with p ne False show ?thesis by simp
    qed
  qed
qed

lemma hole_move_down:
  assumes h: "hole d n i" and j: "j div 2 = i" "j \<le> n"
    and least: "\<And>k. k \<le> n \<Longrightarrow> k div 2 = i \<Longrightarrow> pq_key (d ! j) \<le> pq_key (d ! k)"
  shows "hole (d[i := d ! j]) n j"
proof (rule holeI)
  note hd = holeD [OF h]
  let ?d = "d[i := d ! j]"
  have lt: "i < j" using child_gt [OF hd(1) j(1)] .
  show "1 \<le> j" "j \<le> n" "n < length ?d" using lt j hd(3) by simp_all
  show "pq_key (?d ! (k div 2)) \<le> pq_key (?d ! k)"
    if k: "2 \<le> k" "k \<le> n" "k \<noteq> j" "k div 2 \<noteq> j" for k
  proof -
    consider "k = i" | "k \<noteq> i" "k div 2 = i" | "k \<noteq> i" "k div 2 \<noteq> i" by blast
    then show ?thesis
    proof cases
      case 1
      then have "k div 2 \<noteq> i" using hd(1) by simp
      with 1 k hd(4) hd(6) [of j] j show ?thesis by simp
    next
      case 2
      with k least hd(4) show ?thesis by simp
    next
      case 3
      with k hd(4,5) show ?thesis by simp
    qed
  qed
  show "pq_key (?d ! (j div 2)) \<le> pq_key (?d ! k)"
    if k: "2 \<le> j" "k \<le> n" "k div 2 = j" for k
  proof -
    have "j < k" using child_gt [of j k] k by simp
    then have "pq_key (d ! j) \<le> pq_key (d ! k)" using hd(5) [of k] k lt by simp
    then show ?thesis using j(1) hd(4) lt \<open>j < k\<close> by simp
  qed
qed

lemma cells_update_outside:
  assumes "finite K" "i \<notin> K"
  shows "cells (d[i := x]) K = cells d K"
  unfolding cells_def using assms
  by (intro image_mset_cong) (metis elem_mset_set nth_list_update_neq)

lemma cells_insert: "finite K \<Longrightarrow> i \<notin> K \<Longrightarrow> cells d (insert i K) = add_mset (d ! i) (cells d K)"
  by (simp add: cells_def)

lemma cells_put:
  assumes "finite I" "i \<in> I" "i < length d"
  shows "cells (d[i := x]) I = add_mset x (cells d (I - {i}))"
proof -
  obtain K where K: "I = insert i K" "i \<notin> K" using assms(2) by (meson mk_disjoint_insert)
  with assms have "finite K" by simp
  with K assms(3) show ?thesis by (simp add: cells_insert cells_update_outside)
qed

lemma cells_move:
  assumes "finite I" "j \<in> I" "i \<in> I" "i \<noteq> j" "i < length d"
  shows "cells (d[i := d ! j]) (I - {j}) = cells d (I - {i})"
proof -
  define K where "K = I - {j} - {i}"
  have "I - {i} = insert j K" "finite K" "j \<notin> K" using assms by (auto simp: K_def)
  then have "cells d (I - {i}) = add_mset (d ! j) (cells d (I - {j} - {i}))"
    unfolding K_def [symmetric] by (metis cells_insert)
  with assms cells_put [of "I - {j}" i d "d ! j"] show ?thesis by simp
qed

section \<open>The loops\<close>

lemma pq_up_hole:
  assumes "hole d n i" "unat k < 2 ^ 31" "\<And>j. j < i \<Longrightarrow> 1 \<le> j \<Longrightarrow> unat (pq_key (d ! j)) < 2 ^ 31"
    and "\<And>j. j \<le> n \<Longrightarrow> j div 2 = i \<Longrightarrow> k \<le> pq_key (d ! j)"
  shows "\<exists>d' i'. pq_up d k i = Some (d', i') \<and> hole d' n i' \<and> length d' = length d \<and>
     (2 \<le> i' \<longrightarrow> pq_key (d' ! (i' div 2)) \<le> k) \<and> (\<forall>j. j \<le> n \<and> j div 2 = i' \<longrightarrow> k \<le> pq_key (d' ! j)) \<and>
     cells d' ({1..n} - {i'}) = cells d ({1..n} - {i})"
  using assms
proof (induction d k i rule: pq_up.induct)
  case (1 d k i)
  note hd = holeD [OF "1.prems"(1)]
  show ?case
  proof (cases "1 < i")
    case False
    with "1.prems" show ?thesis by (simp add: pq_up.simps)
  next
    case True
    let ?p = "d ! (i div 2)" and ?d = "d[i := d ! (i div 2)]"
    have h2: "1 \<le> i div 2" "i div 2 < i" "i div 2 < length d" using True hd(4) by simp_all
    have rd: "read_at d (i div 2) = Some ?p" using h2 by simp
    have cmp: "pqueue_compare (pq_key ?p) k < 0 \<longleftrightarrow> k < pq_key ?p"
      using "1.prems"(2,3) h2 by (intro pqueue_compare_less) auto
    show ?thesis
    proof (cases "k < pq_key ?p")
      case False
      with True rd cmp "1.prems" show ?thesis by (simp add: pq_up.simps not_less)
    next
      case less: True
      have ndx: "?d ! j = (if j = i then ?p else d ! j)" for j
        using hd(4) by (simp add: nth_list_update)
      have down: "k \<le> pq_key (?d ! j)" if "j \<le> n" "j div 2 = i div 2" for j
      proof (cases "j = i")
        case True
        with less ndx show ?thesis by simp
      next
        case False
        have "pq_key ?p \<le> pq_key (d ! j)"
          using hd(5) [of j] that False h2 by simp
        with less False ndx show ?thesis by simp
      qed
      have hole': "hole ?d n (i div 2)" using hole_move_up [OF "1.prems"(1)] True by simp
      have small: "unat (pq_key (?d ! j)) < 2 ^ 31" if "j < i div 2" "1 \<le> j" for j
      proof -
        have "j < i" using that h2(2) by linarith
        with "1.prems"(3) [of j] that ndx show ?thesis by simp
      qed
      have c: "cells ?d ({1..n} - {i div 2}) = cells d ({1..n} - {i})"
        using hd h2 by (intro cells_move) auto
      have wr: "write_at d i ?p = Some ?d" using hd(4) by simp
      from "1.IH" [OF True rd _ wr hole' "1.prems"(2) small down] less cmp
      obtain d' i' where "pq_up ?d k (i div 2) = Some (d', i')" "hole d' n i'" "length d' = length ?d"
        "2 \<le> i' \<longrightarrow> pq_key (d' ! (i' div 2)) \<le> k" "\<forall>j. j \<le> n \<and> j div 2 = i' \<longrightarrow> k \<le> pq_key (d' ! j)"
        "cells d' ({1..n} - {i'}) = cells ?d ({1..n} - {i div 2})"
        by blast
      with True less rd cmp wr c show ?thesis by (simp add: pq_up.simps [of d k i])
    qed
  qed
qed

text \<open>Which child \<open>pq_down\<close> compares with: the one with the smaller key.\<close>

definition min_child :: "'v pqueue_node list \<Rightarrow> nat \<Rightarrow> nat \<Rightarrow> nat" where
  "min_child d n i =
     (if 2 * i < n \<and> pq_key (d ! (2 * i + 1)) < pq_key (d ! (2 * i)) then 2 * i + 1 else 2 * i)"

lemma min_child:
  assumes "1 \<le> i" "i \<le> n div 2"
  shows "min_child d n i div 2 = i" "min_child d n i \<le> n" "i < min_child d n i"
    and "k \<le> n \<Longrightarrow> k div 2 = i \<Longrightarrow> pq_key (d ! min_child d n i) \<le> pq_key (d ! k)"
proof -
  show "min_child d n i div 2 = i" "min_child d n i \<le> n" "i < min_child d n i"
    using assms by (auto simp: min_child_def)
  assume k: "k \<le> n" "k div 2 = i"
  then have "k = 2 * i \<or> k = 2 * i + 1 \<and> 2 * i < n" by linarith
  then show "pq_key (d ! min_child d n i) \<le> pq_key (d ! k)"
    by (auto simp: min_child_def not_less)
qed

lemma pq_down_unfold:
  assumes "1 \<le> i" "i \<le> n div 2" "n < length d" "small_keys d n" "unat (pq_key tmp) < 2 ^ 31"
  shows "pq_down d n tmp i =
     (let j = min_child d n i in
      if pq_key tmp < pq_key (d ! j) then Some (d, i) else pq_down (d[i := d ! j]) n tmp j)"
proof -
  have small: "unat (pq_key (d ! k)) < 2 ^ 31" if "1 \<le> k" "k \<le> n" for k
    using assms(4) that by (simp add: small_keys_def)
  have cmp1: "pqueue_compare (pq_key (d ! (2 * i))) (pq_key (d ! (2 * i + 1))) < 0 \<longleftrightarrow>
      pq_key (d ! (2 * i + 1)) < pq_key (d ! (2 * i))" if "2 * i < n"
    using that assms(1) small by (intro pqueue_compare_less) auto
  define j where "j = min_child d n i"
  note mc = min_child [OF assms(1,2), where d = d]
  have j: "1 \<le> j" "j \<le> n" using mc assms(1) unfolding j_def by linarith+
  have cmp2: "pqueue_compare (pq_key (d ! j)) (pq_key tmp) < 0 \<longleftrightarrow> pq_key tmp < pq_key (d ! j)"
    using assms(5) small j by (intro pqueue_compare_less) auto
  have rd: "read_at d j = Some (d ! j)" "write_at d i (d ! j) = Some (d[i := d ! j])"
    using j assms(1-3) by (auto simp: j_def intro!: read_at_inside write_at_inside)
  have sel: "(if 2 * i < n then do { dr \<leftarrow> read_at d (2 * i + 1);
      Some (pqueue_compare (pq_key (d ! (2 * i))) (pq_key dr) < 0) } else Some False)
    = Some (j = 2 * i + 1)"
    using cmp1 assms(3) by (auto simp: j_def min_child_def)
  have two: "read_at d (2 * i) = Some (d ! (2 * i))" using assms(2,3) by simp
  have jj: "(if j = 2 * i + 1 then 2 * i + 1 else 2 * i) = j" by (auto simp: j_def min_child_def)
  show ?thesis
    unfolding j_def [symmetric]
    by (subst pq_down.simps)
       (simp only: assms(1,2) simp_thms if_True two sel bind.bind_lunit jj rd cmp2 Let_def)
qed

lemma small_keys_update: "small_keys d n \<Longrightarrow> 1 \<le> j \<Longrightarrow> j \<le> n \<Longrightarrow> n < length d \<Longrightarrow> small_keys (d[i := d ! j]) n"
  by (cases "i < length d") (auto simp: small_keys_def nth_list_update list_update_beyond)

lemma pq_down_hole:
  assumes "hole d n i" "small_keys d n" "unat (pq_key tmp) < 2 ^ 31" "d ! n = tmp \<or> i = n"
    and "2 \<le> i \<Longrightarrow> pq_key (d ! (i div 2)) \<le> pq_key tmp"
  shows "\<exists>d' i'. pq_down d n tmp i = Some (d', i') \<and> hole d' n i' \<and> length d' = length d \<and>
     (d' ! n = tmp \<or> i' = n) \<and> small_keys d' n \<and>
     (2 \<le> i' \<longrightarrow> pq_key (d' ! (i' div 2)) \<le> pq_key tmp) \<and>
     (\<forall>j. j \<le> n \<and> j div 2 = i' \<longrightarrow> pq_key tmp \<le> pq_key (d' ! j)) \<and>
     cells d' ({1..n} - {i'}) = cells d ({1..n} - {i})"
  using assms
proof (induction "n - i" arbitrary: d i rule: less_induct)
  case less
  note hd = holeD [OF less.prems(1)]
  show ?case
  proof (cases "i \<le> n div 2")
    case False
    then have "j \<le> n \<Longrightarrow> j div 2 \<noteq> i" for j by auto
    with False less.prems show ?thesis by (auto simp: pq_down.simps)
  next
    case True
    define j where "j = min_child d n i"
    note mc = min_child [OF hd(1) True, where d = d, folded j_def]
    note unf = pq_down_unfold [OF hd(1) True hd(3) less.prems(2,3), folded j_def]
    show ?thesis
    proof (cases "pq_key tmp < pq_key (d ! j)")
      case stop: True
      have "pq_key tmp \<le> pq_key (d ! k)" if "k \<le> n" "k div 2 = i" for k
        using mc(4) [OF that] stop by simp
      with stop unf less.prems show ?thesis by (auto simp: Let_def)
    next
      case go: False
      let ?d = "d[i := d ! j]"
      have ne: "i \<noteq> n" using mc(2,3) by linarith
      have hole': "hole ?d n j" using less.prems(1) mc(1,2,4) by (rule hole_move_down)
      have small': "small_keys ?d n"
        using small_keys_update less.prems(2) mc(2,3) hd(3) by fastforce
      have last': "?d ! n = tmp \<or> j = n" using less.prems(4) ne by simp
      have up': "pq_key (?d ! (j div 2)) \<le> pq_key tmp" using go mc(1) hd(4) by simp
      have c: "cells ?d ({1..n} - {j}) = cells d ({1..n} - {i})"
        using hd mc(2,3) by (intro cells_move) auto
      have "n - j < n - i" using mc(2,3) by linarith
      from less.hyps [OF this hole' small' less.prems(3) last' up']
      show ?thesis unfolding unf Let_def using go c by auto
    qed
  qed
qed

section \<open>Invariant and content of a queue\<close>

definition pq_inv :: "'v pqueue \<Rightarrow> bool" where
  "pq_inv pq \<longleftrightarrow> 1 \<le> pq_size pq \<and> (pq_size pq = 1 \<or> pq_size pq \<le> length (pq_data pq)) \<and>
     heap (pq_data pq) (pq_size pq - 1) \<and> small_keys (pq_data pq) (pq_size pq - 1)"

definition pq_elems :: "'v pqueue \<Rightarrow> 'v pqueue_node multiset" where
  "pq_elems pq = cells (pq_data pq) {1..pq_size pq - 1}"

lemma pq_inv_alloc: "pqueue_alloc True = Some pq \<Longrightarrow> pq_inv pq \<and> pq_elems pq = {#}"
  by (auto simp: pqueue_alloc_def pq_inv_def pq_elems_def heap_def small_keys_def cells_def)

lemma pq_elems_empty_iff: "pq_inv pq \<Longrightarrow> pq_elems pq = {#} \<longleftrightarrow> pqueue_is_empty pq"
  by (auto simp: pq_elems_def pq_inv_def pqueue_is_empty_def cells_def mset_set_empty_iff)

lemma heap_root:
  assumes "heap d n"
  shows "1 \<le> k \<Longrightarrow> k \<le> n \<Longrightarrow> pq_key (d ! 1) \<le> pq_key (d ! k)"
proof (induction k rule: less_induct)
  case (less k)
  show ?case
  proof (cases "k = 1")
    case False
    with less.prems have k: "2 \<le> k" "k div 2 < k" "1 \<le> k div 2" "k div 2 \<le> n" by auto
    with less.IH [of "k div 2"] have "pq_key (d ! 1) \<le> pq_key (d ! (k div 2))" by simp
    also have "\<dots> \<le> pq_key (d ! k)" using assms k less.prems by (simp add: heap_def)
    finally show ?thesis .
  qed simp
qed

lemma hole_last:
  assumes "heap d (n - 1)" "1 \<le> n" "n < length d"
  shows "hole d n n"
proof (rule holeI)
  show "pq_key (d ! (k div 2)) \<le> pq_key (d ! k)" if "2 \<le> k" "k \<le> n" "k \<noteq> n" for k
    using assms(1) that by (simp add: heap_def)
  show "pq_key (d ! (n div 2)) \<le> pq_key (d ! k)" if "k \<le> n" "k div 2 = n" for k
    using that assms(2) by auto
qed (use assms in auto)

lemma hole_first: "heap d n \<Longrightarrow> 1 \<le> n \<Longrightarrow> n < length d \<Longrightarrow> hole d n 1"
  by (rule holeI) (auto simp: heap_def)

lemma heap_mono: "heap d n \<Longrightarrow> m \<le> n \<Longrightarrow> heap d m"
  by (auto simp: heap_def)

lemma heap_cong: "(\<And>k. 1 \<le> k \<Longrightarrow> k \<le> n \<Longrightarrow> d ! k = d' ! k) \<Longrightarrow> heap d n = heap d' n"
  by (auto simp: heap_def)

lemma cells_cong: "(\<And>k. k \<in> I \<Longrightarrow> d ! k = d' ! k) \<Longrightarrow> cells d I = cells d' I"
  unfolding cells_def by (cases "finite I") (auto intro!: image_mset_cong)

lemma small_keys_cells: "small_keys d n \<longleftrightarrow> (\<forall>x \<in># cells d {1..n}. unat (pq_key x) < 2 ^ 31)"
  by (auto simp: small_keys_def cells_def)

lemma pqueue_insert_elems:
  assumes inv: "pq_inv pq" and k: "unat k < 2 ^ 31"
  shows "\<exists>pq'. pqueue_insert junk True pq k v = Some (0, pq') \<and> pq_inv pq' \<and>
     pq_elems pq' = add_mset \<lparr>pq_key = k, pq_value = v\<rparr> (pq_elems pq)"
proof -
  define n where "n = pq_size pq"
  define d where "d = realloc_list junk (n + 1) (pq_data pq)"
  let ?x = "\<lparr>pq_key = k, pq_value = v\<rparr>"
  have n: "1 \<le> n" using inv by (simp add: pq_inv_def n_def)
  have same: "d ! j = pq_data pq ! j" if "1 \<le> j" "j \<le> n - 1" for j
    using inv that by (auto simp: d_def n_def pq_inv_def intro!: nth_realloc_list)
  have len: "length d = n + 1" by (simp add: d_def)
  have h: "hole d n n"
    using inv n same len heap_cong [of "n - 1" d "pq_data pq"] by (intro hole_last) (auto simp: pq_inv_def n_def)
  have small: "unat (pq_key (d ! j)) < 2 ^ 31" if "j < n" "1 \<le> j" for j
    using inv same [of j] that by (simp add: pq_inv_def small_keys_def n_def)
  have none: "k \<le> pq_key (d ! j)" if "j \<le> n" "j div 2 = n" for j using that n by auto
  obtain d' i where up: "pq_up d k n = Some (d', i)" "hole d' n i" "length d' = length d"
      "2 \<le> i \<longrightarrow> pq_key (d' ! (i div 2)) \<le> k" "\<forall>j. j \<le> n \<and> j div 2 = i \<longrightarrow> k \<le> pq_key (d' ! j)"
      "cells d' ({1..n} - {i}) = cells d ({1..n} - {n})"
    using pq_up_hole [OF h k small none] by blast
  note hd = holeD [OF up(2)]
  have "{1..n} - {n} = {1..n - 1}" using n by auto
  then have old: "cells d ({1..n} - {n}) = pq_elems pq"
    using same by (auto simp: pq_elems_def n_def intro!: cells_cong)
  have new: "cells (d'[i := ?x]) {1..n} = add_mset ?x (pq_elems pq)"
    using cells_put [of "{1..n}" i d' ?x] hd up(6) old by simp
  have "heap (d'[i := ?x]) n" using up by (intro hole_fill) auto
  moreover have "small_keys (d'[i := ?x]) n"
    unfolding small_keys_cells new using inv k by (auto simp: pq_inv_def small_keys_cells pq_elems_def)
  ultimately have "pq_inv \<lparr>pq_size = n + 1, pq_data = d'[i := ?x]\<rparr>"
    using up(3) len by (simp add: pq_inv_def)
  moreover have "pqueue_insert junk True pq k v = Some (0, \<lparr>pq_size = n + 1, pq_data = d'[i := ?x]\<rparr>)"
    using up(1) hd(4) by (simp add: pqueue_insert_def n_def d_def)
  ultimately show ?thesis using new by (simp add: pq_elems_def)
qed

lemma pqueue_remove_top_elems:
  assumes inv: "pq_inv pq" and ne: "\<not> pqueue_is_empty pq"
  shows "\<exists>x pq'. pqueue_remove_top pq = Some (Some (pq_value x), pq') \<and> pq_inv pq' \<and>
     x \<in># pq_elems pq \<and> (\<forall>y \<in># pq_elems pq. pq_key x \<le> pq_key y) \<and>
     pq_elems pq' = pq_elems pq - {#x#}"
proof -
  define d n where "d = pq_data pq" and "n = pq_size pq - 1"
  have n: "1 \<le> n" "n < length d" "heap d n" "small_keys d n"
    using inv ne by (auto simp: pq_inv_def pqueue_is_empty_def d_def n_def)
  have h: "hole d n 1" using n by (intro hole_first)
  have tmp: "unat (pq_key (d ! n)) < 2 ^ 31" using n by (simp add: small_keys_def)
  obtain d' i where dn: "pq_down d n (d ! n) 1 = Some (d', i)" "hole d' n i" "length d' = length d"
      "d' ! n = d ! n \<or> i = n" "small_keys d' n"
      "2 \<le> i \<longrightarrow> pq_key (d' ! (i div 2)) \<le> pq_key (d ! n)"
      "\<forall>j. j \<le> n \<and> j div 2 = i \<longrightarrow> pq_key (d ! n) \<le> pq_key (d' ! j)"
      "cells d' ({1..n} - {i}) = cells d ({1..n} - {1})"
    using pq_down_hole [OF h n(4) tmp] by fastforce
  note hd = holeD [OF dn(2)]
  let ?d = "d'[i := d ! n]"
  have all: "pq_elems pq = add_mset (d ! 1) (cells d ({1..n} - {1}))"
    using cells_put [of "{1..n}" 1 d "d ! 1"] n by (simp add: pq_elems_def d_def n_def)
  have keep: "cells ?d {1..n - 1} = cells d ({1..n} - {1})"
  proof -
    have full: "cells ?d {1..n} = add_mset (d ! n) (cells d ({1..n} - {1}))"
      using cells_put [of "{1..n}" i d' "d ! n"] hd dn(8) by simp
    have last: "?d ! n = d ! n" using dn(4) hd by (auto simp: nth_list_update)
    have "{1..n} = insert n {1..n - 1}" using n(1) by auto
    then have "cells ?d {1..n} = add_mset (d ! n) (cells ?d {1..n - 1})"
      using last n(1) by (simp add: cells_insert)
    with full show ?thesis by simp
  qed
  have "heap ?d n" using dn by (intro hole_fill) auto
  then have hp: "heap ?d (n - 1)" by (rule heap_mono) simp
  have sm: "small_keys ?d (n - 1)"
    unfolding small_keys_cells keep using inv all by (auto simp: pq_inv_def small_keys_cells pq_elems_def d_def n_def)
  have inv': "pq_inv \<lparr>pq_size = n, pq_data = ?d\<rparr>"
    using hp sm n dn(3) by (auto simp: pq_inv_def)
  have eq: "pqueue_remove_top pq = Some (Some (pq_value (d ! 1)), \<lparr>pq_size = n, pq_data = ?d\<rparr>)"
    using dn(1) ne n hd(4) by (simp add: pqueue_remove_top_def d_def n_def)
  have "\<forall>y \<in># pq_elems pq. pq_key (d ! 1) \<le> pq_key y"
    using heap_root [OF n(3)] by (auto simp: pq_elems_def cells_def d_def n_def)
  with inv' eq all keep show ?thesis by (intro exI conjI) (auto simp: pq_elems_def)
qed

section \<open>The interface the register allocator relies on\<close>

text \<open>\<open>drain\<close> is the loop \<open>while (!pqueue_is_empty(q)) ... pqueue_remove_top(q)\<close>, collecting
  what it removes.\<close>

fun drain :: "('q \<Rightarrow> ('v option \<times> 'q) option) \<Rightarrow> nat \<Rightarrow> 'q \<Rightarrow> 'v list option" where
  "drain pop 0 q = None"
| "drain pop (Suc n) q =
     do { (r, q') \<leftarrow> pop q;
          case r of None \<Rightarrow> Some [] | Some v \<Rightarrow> map_option ((#) v) (drain pop n q') }"

locale min_queue =
  fixes qinv :: "'q \<Rightarrow> bool"
    and qelems :: "'q \<Rightarrow> 'e multiset"
    and ekey :: "'e \<Rightarrow> 'k::linorder"
    and eval :: "'e \<Rightarrow> 'v"
    and push :: "'k \<Rightarrow> 'v \<Rightarrow> 'q \<Rightarrow> 'q option"
    and pop :: "'q \<Rightarrow> ('v option \<times> 'q) option"
    and okkey :: "'k \<Rightarrow> bool"
  assumes push_elems: "qinv q \<Longrightarrow> okkey k \<Longrightarrow>
      \<exists>q' x. push k v q = Some q' \<and> qinv q' \<and> ekey x = k \<and> eval x = v \<and> qelems q' = add_mset x (qelems q)"
    and pop_empty: "qinv q \<Longrightarrow> qelems q = {#} \<Longrightarrow> pop q = Some (None, q)"
    and pop_min: "qinv q \<Longrightarrow> qelems q \<noteq> {#} \<Longrightarrow>
      \<exists>x q'. pop q = Some (Some (eval x), q') \<and> qinv q' \<and> x \<in># qelems q \<and>
        (\<forall>y \<in># qelems q. ekey x \<le> ekey y) \<and> qelems q' = qelems q - {#x#}"
begin

lemma drain_sorted:
  assumes "qinv q" "size (qelems q) < n"
  shows "\<exists>xs. drain pop n q = Some (map eval xs) \<and> mset xs = qelems q \<and> sorted (map ekey xs)"
  using assms
proof (induction n arbitrary: q)
  case 0
  then show ?case by simp
next
  case (Suc n)
  show ?case
  proof (cases "qelems q = {#}")
    case True
    with Suc.prems pop_empty [of q] show ?thesis by (intro exI [of _ "[]"]) simp
  next
    case False
    then obtain x q' where x: "pop q = Some (Some (eval x), q')" "qinv q'" "x \<in># qelems q"
      "\<forall>y \<in># qelems q. ekey x \<le> ekey y" "qelems q' = qelems q - {#x#}"
      using pop_min Suc.prems(1) by blast
    have "size (qelems q) = Suc (size (qelems q'))"
      using x(3,5) by (metis insert_DiffM size_add_mset)
    with Suc.prems(2) have "size (qelems q') < n" by simp
    with Suc.IH [OF x(2)] obtain xs where xs: "drain pop n q' = Some (map eval xs)" "mset xs = qelems q'"
      "sorted (map ekey xs)" by blast
    have "mset (x # xs) = qelems q" using xs(2) x(3,5) by simp
    moreover have "sorted (map ekey (x # xs))"
      using xs(2,3) x(4,5) by (auto dest: in_diffD simp flip: set_mset_mset)
    ultimately show ?thesis using x(1) xs(1) by (intro exI [of _ "x # xs"]) simp
  qed
qed

end

text \<open>\<open>pqueue_insert\<close> with memory available, as the interface sees it.\<close>

definition pq_push :: "'v pqueue_node \<Rightarrow> u64 \<Rightarrow> 'v \<Rightarrow> 'v pqueue \<Rightarrow> 'v pqueue option" where
  "pq_push junk k v pq = map_option snd (pqueue_insert junk True pq k v)"

interpretation pq: min_queue pq_inv pq_elems pq_key pq_value "pq_push junk" pqueue_remove_top
    "\<lambda>k. unat k < 2 ^ 31" for junk
proof unfold_locales
  show "\<exists>q' x. pq_push junk k v q = Some q' \<and> pq_inv q' \<and> pq_key x = k \<and> pq_value x = v \<and>
      pq_elems q' = add_mset x (pq_elems q)" if "pq_inv q" "unat k < 2 ^ 31" for q k v
    using pqueue_insert_elems [OF that, of junk v] by (fastforce simp: pq_push_def)
  show "pqueue_remove_top q = Some (None, q)" if "pq_inv q" "pq_elems q = {#}" for q
    using that by (simp add: pqueue_remove_top_def pq_elems_empty_iff)
  show "\<exists>x q'. pqueue_remove_top q = Some (Some (pq_value x), q') \<and> pq_inv q' \<and> x \<in># pq_elems q \<and>
      (\<forall>y \<in># pq_elems q. pq_key x \<le> pq_key y) \<and> pq_elems q' = pq_elems q - {#x#}"
    if "pq_inv q" "pq_elems q \<noteq> {#}" for q
    using that by (intro pqueue_remove_top_elems) (simp_all add: pq_elems_empty_iff)
qed

section \<open>Properties\<close>

text \<open>C18: Inserting a node with a key below \<open>2 ^ 31\<close> into a well-formed queue succeeds when memory is
  available, stays inside the array, keeps the heap invariant and adds exactly the new node;
  without memory the call returns \<open>-ENOMEM\<close> and leaves the queue as it was.\<close>

theorem pqueue_insert_correct:
  assumes "pq_inv pq" "unat k < 2 ^ 31"
  shows "(\<exists>pq'. pqueue_insert junk True pq k v = Some (0, pq') \<and> pq_inv pq' \<and>
            pq_elems pq' = add_mset \<lparr>pq_key = k, pq_value = v\<rparr> (pq_elems pq)) \<and>
         pqueue_insert junk False pq k v = Some (- ENOMEM, pq)"
  using pqueue_insert_elems [OF assms] by (simp add: pqueue_insert_def)

theorem pqueue_insert_correct_witness:
  "\<exists>pq'. pqueue_insert (\<lparr>pq_key = 7, pq_value = 7\<rparr> :: nat pqueue_node) True \<lparr>pq_size = 1, pq_data = []\<rparr> 3 (5::nat)
      = Some (0, pq') \<and> pq_inv pq'"
proof -
  have "pq_inv (\<lparr>pq_size = 1, pq_data = []\<rparr> :: nat pqueue)"
    by (simp add: pq_inv_def heap_def small_keys_def)
  then show ?thesis
    using pqueue_insert_correct [of _ 3 "\<lparr>pq_key = 7, pq_value = 7\<rparr>" 5] by fastforce
qed

text \<open>C14: Removing the top of a well-formed, non-empty queue returns the value of a node with the
  least key, removes exactly that node and keeps the heap invariant.\<close>

theorem pqueue_remove_top_correct:
  assumes "pq_inv pq" "\<not> pqueue_is_empty pq"
  shows "\<exists>x pq'. pqueue_remove_top pq = Some (Some (pq_value x), pq') \<and> pq_inv pq' \<and>
     x \<in># pq_elems pq \<and> (\<forall>y \<in># pq_elems pq. pq_key x \<le> pq_key y) \<and>
     pq_elems pq' = pq_elems pq - {#x#}"
  using assms by (rule pqueue_remove_top_elems)

definition example_queue :: "nat pqueue" where
  "example_queue = \<lparr>pq_size = 4, pq_data = map (\<lambda>k. \<lparr>pq_key = of_nat k, pq_value = k\<rparr>) [0, 2, 5, 3]\<rparr>"

lemma heap_code [code]:
  "heap d n = list_all (\<lambda>k. pq_key (d ! (k div 2)) \<le> pq_key (d ! k)) [2..<Suc n]"
  by (auto simp: heap_def list_all_iff)

lemma small_keys_code [code]: "small_keys d n = list_all (\<lambda>k. pq_key (d ! k) < 0x80000000) [1..<Suc n]"
  by (auto simp: small_keys_def list_all_iff word_less_nat_alt)

lemma example_queue_inv: "pq_inv example_queue"
  by code_simp

theorem pqueue_remove_top_correct_witness:
  "\<not> pqueue_is_empty example_queue \<and>
   (\<exists>(x :: nat pqueue_node) pq'. pqueue_remove_top example_queue = Some (Some (pq_value x), pq') \<and> pq_inv pq')"
proof -
  have "\<not> pqueue_is_empty example_queue" by (simp add: pqueue_is_empty_def example_queue_def)
  with pqueue_remove_top_correct [OF example_queue_inv this] show ?thesis by blast
qed

text \<open>C19: The work list loop of the register allocator, run without new insertions, terminates and
  visits every queued value once, in ascending order of the keys.\<close>

theorem pqueue_drain_sorted:
  assumes "pq_inv pq" "size (pq_elems pq) < n"
  shows "\<exists>xs. drain pqueue_remove_top n pq = Some (map pq_value xs) \<and>
     mset xs = pq_elems pq \<and> sorted (map pq_key xs)"
  using assms by (rule pq.drain_sorted)

theorem pqueue_drain_sorted_witness:
  "drain pqueue_remove_top 4 example_queue = Some [2, 3, 5] \<and>
   (\<exists>xs :: nat pqueue_node list. drain pqueue_remove_top 4 example_queue = Some (map pq_value xs) \<and>
      sorted (map pq_key xs))"
proof -
  have "size (pq_elems example_queue) < 4"
    by (simp add: pq_elems_def cells_def example_queue_def)
  from pqueue_drain_sorted [OF example_queue_inv this]
  have "\<exists>xs :: nat pqueue_node list. drain pqueue_remove_top 4 example_queue = Some (map pq_value xs) \<and>
      sorted (map pq_key xs)"
    by blast
  moreover have "drain pqueue_remove_top 4 example_queue = Some [2, 3, 5]"
    by code_simp
  ultimately show ?thesis by blast
qed

text \<open>C24: \<open>pqueue_compare\<close> agrees with the order of the keys below \<open>2 ^ 31\<close>, but not beyond: the
  64 bit difference is truncated to \<open>int\<close>, so a key \<open>2 ^ 31\<close> counts as smaller than the key 0.\<close>

theorem pqueue_compare_order:
  "(\<forall>a b. unat a < 2 ^ 31 \<and> unat b < 2 ^ 31 \<longrightarrow> (pqueue_compare a b < 0 \<longleftrightarrow> b < a)) \<and>
   pqueue_compare 0 (2 ^ 31) < 0"
proof -
  have "pqueue_compare 0 (2 ^ 31) < 0" by (simp add: pqueue_compare_def)
  with pqueue_compare_less show ?thesis by blast
qed

theorem pqueue_compare_order_witness: "pqueue_compare 5 3 < 0"
  using pqueue_compare_order [THEN conjunct1, rule_format, of 5 3] by simp

end
