(* ===== verification/Bytecode.thy ===== *)
theory Bytecode
  imports Jato_Prelude
begin

text \<open>
  Reading, measuring and patching Java bytecode: vm/bytecode.c with its table of instructions
  (include/vm/bytecode-def.h, include/vm/opcodes.h). The code of a method is a list of bytes; a
  C pointer into it is the list with an offset. Every access is checked, so that a result
  \<open>Some\<close> includes that nothing outside the code was read. \<open>int\<close> computations that overflow are
  undefined in C and a fault here.
\<close>

section \<open>Readers and writers\<close>

record bytecode_buffer =
  buffer :: "u8 list"
  pos :: nat

definition bytecode_read_u8 :: "bytecode_buffer \<Rightarrow> (u8 \<times> bytecode_buffer) option" where
  "bytecode_read_u8 b = do { v \<leftarrow> read_at (buffer b) (pos b); Some (v, b\<lparr>pos := pos b + 1\<rparr>) }"

definition bytecode_read_u16 :: "bytecode_buffer \<Rightarrow> (u16 \<times> bytecode_buffer) option" where
  "bytecode_read_u16 b =
     do { (x0, b) \<leftarrow> bytecode_read_u8 b;
          (x1, b) \<leftarrow> bytecode_read_u8 b;
          Some (push_bit 8 (ucast x0) OR ucast x1, b) }"

definition bytecode_read_u32 :: "bytecode_buffer \<Rightarrow> (u32 \<times> bytecode_buffer) option" where
  "bytecode_read_u32 b =
     do { (x0, b) \<leftarrow> bytecode_read_u8 b;
          (x1, b) \<leftarrow> bytecode_read_u8 b;
          (x2, b) \<leftarrow> bytecode_read_u8 b;
          (x3, b) \<leftarrow> bytecode_read_u8 b;
          Some (((push_bit 24 (ucast x0) OR push_bit 16 (ucast x1)) OR push_bit 8 (ucast x2)) OR ucast x3, b) }"

definition bytecode_read_s8 :: "bytecode_buffer \<Rightarrow> (int \<times> bytecode_buffer) option" where
  "bytecode_read_s8 b = map_option (apfst sint) (bytecode_read_u8 b)"

definition bytecode_read_s16 :: "bytecode_buffer \<Rightarrow> (int \<times> bytecode_buffer) option" where
  "bytecode_read_s16 b = map_option (apfst sint) (bytecode_read_u16 b)"

definition bytecode_read_s32 :: "bytecode_buffer \<Rightarrow> (int \<times> bytecode_buffer) option" where
  "bytecode_read_s32 b = map_option (apfst sint) (bytecode_read_u32 b)"

definition read_u8 :: "u8 list \<Rightarrow> nat \<Rightarrow> u8 option" where
  "read_u8 c p = read_at c p"

definition read_u16 :: "u8 list \<Rightarrow> nat \<Rightarrow> u16 option" where
  "read_u16 c p =
     do { x0 \<leftarrow> read_u8 c (p + 0);
          x1 \<leftarrow> read_u8 c (p + 1);
          Some (push_bit 8 (ucast x0) OR ucast x1) }"

definition read_u32 :: "u8 list \<Rightarrow> nat \<Rightarrow> u32 option" where
  "read_u32 c p =
     do { x0 \<leftarrow> read_u8 c (p + 0);
          x1 \<leftarrow> read_u8 c (p + 1);
          x2 \<leftarrow> read_u8 c (p + 2);
          x3 \<leftarrow> read_u8 c (p + 3);
          Some (((push_bit 24 (ucast x0) OR push_bit 16 (ucast x1)) OR push_bit 8 (ucast x2)) OR ucast x3) }"

definition read_s16 :: "u8 list \<Rightarrow> nat \<Rightarrow> int option" where
  "read_s16 c p = map_option sint (read_u16 c p)"

definition read_s32 :: "u8 list \<Rightarrow> nat \<Rightarrow> int option" where
  "read_s32 c p = map_option sint (read_u32 c p)"

definition write_u8 :: "u8 list \<Rightarrow> nat \<Rightarrow> u8 \<Rightarrow> u8 list option" where
  "write_u8 c p v = write_at c p v"

definition write_u16 :: "u8 list \<Rightarrow> nat \<Rightarrow> u16 \<Rightarrow> u8 list option" where
  "write_u16 c p v =
     do { c \<leftarrow> write_u8 c (p + 0) (ucast (drop_bit 8 v AND 0xff));
          write_u8 c (p + 1) (ucast (v AND 0xff)) }"

definition write_u32 :: "u8 list \<Rightarrow> nat \<Rightarrow> u32 \<Rightarrow> u8 list option" where
  "write_u32 c p v =
     do { c \<leftarrow> write_u8 c (p + 0) (ucast (drop_bit 24 v AND 0xff));
          c \<leftarrow> write_u8 c (p + 1) (ucast (drop_bit 16 v AND 0xff));
          c \<leftarrow> write_u8 c (p + 2) (ucast (drop_bit 8 v AND 0xff));
          write_u8 c (p + 3) (ucast (v AND 0xff)) }"

definition write_s16 :: "u8 list \<Rightarrow> nat \<Rightarrow> int \<Rightarrow> u8 list option" where
  "write_s16 c p v = write_u16 c p (word_of_int v)"

definition write_s32 :: "u8 list \<Rightarrow> nat \<Rightarrow> int \<Rightarrow> u8 list option" where
  "write_s32 c p v = write_u32 c p (word_of_int v)"

section \<open>Opcodes and the instruction table\<close>

abbreviation OPC_ILOAD_0 :: u8 where "OPC_ILOAD_0 \<equiv> 26"
abbreviation OPC_LLOAD_0 :: u8 where "OPC_LLOAD_0 \<equiv> 30"
abbreviation OPC_FLOAD_0 :: u8 where "OPC_FLOAD_0 \<equiv> 34"
abbreviation OPC_DLOAD_0 :: u8 where "OPC_DLOAD_0 \<equiv> 38"
abbreviation OPC_ALOAD_0 :: u8 where "OPC_ALOAD_0 \<equiv> 42"
abbreviation OPC_IALOAD :: u8 where "OPC_IALOAD \<equiv> 46"
abbreviation OPC_ISTORE_0 :: u8 where "OPC_ISTORE_0 \<equiv> 59"
abbreviation OPC_LSTORE_0 :: u8 where "OPC_LSTORE_0 \<equiv> 63"
abbreviation OPC_FSTORE_0 :: u8 where "OPC_FSTORE_0 \<equiv> 67"
abbreviation OPC_DSTORE_0 :: u8 where "OPC_DSTORE_0 \<equiv> 71"
abbreviation OPC_ASTORE_0 :: u8 where "OPC_ASTORE_0 \<equiv> 75"
abbreviation OPC_ASTORE_1 :: u8 where "OPC_ASTORE_1 \<equiv> 76"
abbreviation OPC_ASTORE_2 :: u8 where "OPC_ASTORE_2 \<equiv> 77"
abbreviation OPC_ASTORE_3 :: u8 where "OPC_ASTORE_3 \<equiv> 78"
abbreviation OPC_ASTORE :: u8 where "OPC_ASTORE \<equiv> 58"
abbreviation OPC_IASTORE :: u8 where "OPC_IASTORE \<equiv> 79"
abbreviation OPC_TABLESWITCH :: u8 where "OPC_TABLESWITCH \<equiv> 170"
abbreviation OPC_LOOKUPSWITCH :: u8 where "OPC_LOOKUPSWITCH \<equiv> 171"
abbreviation OPC_WIDE :: u8 where "OPC_WIDE \<equiv> 196"
abbreviation OPC_IINC :: u8 where "OPC_IINC \<equiv> 132"
abbreviation OPC_BREAKPOINT :: u8 where "OPC_BREAKPOINT \<equiv> 202"
abbreviation OPC_XXXUNUSEDXXX :: u8 where "OPC_XXXUNUSEDXXX \<equiv> 186"
abbreviation OPC_XXXUNUSEDXXX2 :: u8 where "OPC_XXXUNUSEDXXX2 \<equiv> 186"
abbreviation OPC_LDC :: u8 where "OPC_LDC \<equiv> 18"
abbreviation OPC_LDC_W :: u8 where "OPC_LDC_W \<equiv> 19"
abbreviation OPC_LDC2_W :: u8 where "OPC_LDC2_W \<equiv> 20"
abbreviation OPC_GOTO :: u8 where "OPC_GOTO \<equiv> 167"
abbreviation OPC_GOTO_W :: u8 where "OPC_GOTO_W \<equiv> 200"
abbreviation OPC_ATHROW :: u8 where "OPC_ATHROW \<equiv> 191"
abbreviation OPC_JSR :: u8 where "OPC_JSR \<equiv> 168"
abbreviation OPC_JSR_W :: u8 where "OPC_JSR_W \<equiv> 201"
abbreviation OPC_RET :: u8 where "OPC_RET \<equiv> 169"
abbreviation OPC_RETURN :: u8 where "OPC_RETURN \<equiv> 177"
abbreviation OPC_NOP :: u8 where "OPC_NOP \<equiv> 0"

definition BYTECODE_NORMAL :: u8 where "BYTECODE_NORMAL = 0x01"
definition BYTECODE_BRANCH :: u8 where "BYTECODE_BRANCH = 0x02"
definition BYTECODE_WIDE :: u8 where "BYTECODE_WIDE = 0x04"
definition BYTECODE_RETURN :: u8 where "BYTECODE_RETURN = 0x08"
definition BYTECODE_VARIABLE_LEN :: u8 where "BYTECODE_VARIABLE_LEN = 0x10"
definition BYTECODE_USES_LOCAL_VAR :: u8 where "BYTECODE_USES_LOCAL_VAR = 0x20"

text \<open>Size and type flags of the opcodes 0x00 to 0xc9, ten to a line. The initialiser of the C array
  is sorted by name; opcode 0xba has no entry and is zero.\<close>

definition bytecode_infos :: "(nat \<times> u8) list" where
  "bytecode_infos =
     [(1, 1), (1, 1), (1, 1), (1, 1), (1, 1), (1, 1), (1, 1), (1, 1), (1, 1), (1, 1),
      (1, 1), (1, 1), (1, 1), (1, 1), (1, 1), (1, 1), (2, 1), (3, 1), (2, 1), (3, 5),
      (3, 5), (2, 33), (2, 33), (2, 33), (2, 33), (2, 33), (1, 33), (1, 33), (1, 33), (1, 33),
      (1, 33), (1, 33), (1, 33), (1, 33), (1, 33), (1, 33), (1, 33), (1, 33), (1, 33), (1, 33),
      (1, 33), (1, 33), (1, 33), (1, 33), (1, 33), (1, 33), (1, 1), (1, 1), (1, 1), (1, 1),
      (1, 1), (1, 1), (1, 1), (1, 1), (2, 33), (2, 33), (2, 33), (2, 33), (2, 33), (1, 33),
      (1, 33), (1, 33), (1, 33), (1, 33), (1, 33), (1, 33), (1, 33), (1, 33), (1, 33), (1, 33),
      (1, 33), (1, 33), (1, 33), (1, 33), (1, 33), (1, 33), (1, 33), (1, 33), (1, 33), (1, 1),
      (1, 1), (1, 1), (1, 1), (1, 1), (1, 1), (1, 1), (1, 1), (1, 1), (1, 1), (1, 1),
      (1, 1), (1, 1), (1, 1), (1, 1), (1, 1), (1, 1), (1, 1), (1, 1), (1, 1), (1, 1),
      (1, 1), (1, 1), (1, 1), (1, 1), (1, 1), (1, 1), (1, 1), (1, 1), (1, 1), (1, 1),
      (1, 1), (1, 1), (1, 1), (1, 1), (1, 1), (1, 1), (1, 1), (1, 1), (1, 1), (1, 1),
      (1, 1), (1, 1), (1, 1), (1, 1), (1, 1), (1, 1), (1, 1), (1, 1), (1, 1), (1, 1),
      (1, 1), (1, 1), (3, 1), (1, 1), (1, 1), (1, 1), (1, 1), (1, 1), (1, 1), (1, 1),
      (1, 1), (1, 1), (1, 1), (1, 1), (1, 1), (1, 1), (1, 1), (1, 1), (1, 1), (1, 1),
      (1, 1), (1, 1), (1, 1), (3, 2), (3, 2), (3, 2), (3, 2), (3, 2), (3, 2), (3, 2),
      (3, 2), (3, 2), (3, 2), (3, 2), (3, 2), (3, 2), (3, 2), (3, 2), (3, 2), (2, 1),
      (0, 18), (0, 18), (1, 8), (1, 8), (1, 8), (1, 8), (1, 8), (1, 8), (3, 1), (3, 1),
      (3, 1), (3, 1), (3, 1), (3, 1), (3, 1), (5, 1), (0, 0), (3, 1), (2, 1), (3, 1),
      (1, 1), (1, 1), (3, 1), (3, 1), (1, 1), (1, 1), (0, 17), (4, 1), (3, 2), (3, 2),
      (5, 6), (5, 6)]"

definition bytecode_info_size :: "u8 \<Rightarrow> nat option" where
  "bytecode_info_size opc = map_option fst (read_at bytecode_infos (unat opc))"

definition bytecode_info_type :: "u8 \<Rightarrow> u8 option" where
  "bytecode_info_type opc = map_option snd (read_at bytecode_infos (unat opc))"

definition bc_is_invalid :: "u8 \<Rightarrow> bool" where
  "bc_is_invalid opc \<longleftrightarrow> opc \<ge> OPC_BREAKPOINT \<or> opc = OPC_XXXUNUSEDXXX \<or> opc = OPC_XXXUNUSEDXXX2"

definition bc_is_ldc :: "u8 \<Rightarrow> bool" where
  "bc_is_ldc opc \<longleftrightarrow> opc = OPC_LDC \<or> opc = OPC_LDC_W \<or> opc = OPC_LDC2_W"

definition bc_is_branch :: "u8 \<Rightarrow> bool option" where
  "bc_is_branch opc = map_option (\<lambda>t. t AND BYTECODE_BRANCH \<noteq> 0) (bytecode_info_type opc)"

definition bc_is_wide :: "u8 \<Rightarrow> bool option" where
  "bc_is_wide opc = map_option (\<lambda>t. t AND BYTECODE_WIDE \<noteq> 0) (bytecode_info_type opc)"

definition bc_uses_local_var :: "u8 \<Rightarrow> bool option" where
  "bc_uses_local_var opc = map_option (\<lambda>t. t AND BYTECODE_USES_LOCAL_VAR \<noteq> 0) (bytecode_info_type opc)"

definition bc_is_return :: "u8 \<Rightarrow> bool option" where
  "bc_is_return opc = map_option (\<lambda>t. t AND BYTECODE_RETURN \<noteq> 0) (bytecode_info_type opc)"

definition bc_is_goto :: "u8 \<Rightarrow> bool" where
  "bc_is_goto opc \<longleftrightarrow> opc = OPC_GOTO"

definition bc_is_athrow :: "u8 \<Rightarrow> bool" where
  "bc_is_athrow opc \<longleftrightarrow> opc = OPC_ATHROW"

definition bc_is_jsr :: "u8 \<Rightarrow> bool" where
  "bc_is_jsr opc \<longleftrightarrow> opc = OPC_JSR \<or> opc = OPC_JSR_W"

definition bc_branches_to_follower :: "u8 \<Rightarrow> bool option" where
  "bc_branches_to_follower opc = map_option (\<lambda>b. b \<and> \<not> bc_is_goto opc) (bc_is_branch opc)"

text \<open>The operands of \<open>||\<close> are evaluated from the left, and only as far as needed.\<close>

definition or_else :: "bool option \<Rightarrow> bool option \<Rightarrow> bool option" where
  "or_else a b = do { x \<leftarrow> a; if x then Some True else b }"

definition bc_ends_basic_block :: "u8 \<Rightarrow> bool option" where
  "bc_ends_basic_block opc = or_else (bc_is_branch opc) (or_else (Some (bc_is_athrow opc)) (bc_is_return opc))"

definition bc_is_ret :: "u8 list \<Rightarrow> nat \<Rightarrow> bool option" where
  "bc_is_ret c p =
     do { x \<leftarrow> read_at c p;
          if x = OPC_WIDE then map_option (\<lambda>y. y = OPC_RET) (read_at c (p + 1)) else Some (x = OPC_RET) }"

definition bc_is_unconditionnal_branch :: "u8 list \<Rightarrow> nat \<Rightarrow> bool option" where
  "bc_is_unconditionnal_branch c p =
     do { x \<leftarrow> read_at c p;
          or_else (bc_is_return x) (or_else (Some (bc_is_goto x)) (or_else (Some (bc_is_jsr x))
            (or_else (bc_is_ret c p) (Some (bc_is_athrow x))))) }"

definition bc_is_astore :: "u8 list \<Rightarrow> nat \<Rightarrow> bool option" where
  "bc_is_astore c p =
     do { x \<leftarrow> read_at c p;
          y \<leftarrow> (if x = OPC_WIDE then read_at c (p + 1) else Some x);
          Some (y \<in> {OPC_ASTORE, OPC_ASTORE_0, OPC_ASTORE_1, OPC_ASTORE_2, OPC_ASTORE_3}) }"

definition bc_get_astore_index :: "u8 list \<Rightarrow> nat \<Rightarrow> nat option" where
  "bc_get_astore_index c p =
     do { x \<leftarrow> read_at c p;
          if x = OPC_WIDE then map_option unat (read_u16 c (p + 2))
          else if x = OPC_ASTORE then map_option unat (read_u8 c (p + 1))
          else if x = OPC_ASTORE_0 then Some 0
          else if x = OPC_ASTORE_1 then Some 1
          else if x = OPC_ASTORE_2 then Some 2
          else if x = OPC_ASTORE_3 then Some 3
          else None }"

definition bc_get_ret_index :: "u8 list \<Rightarrow> nat \<Rightarrow> nat option" where
  "bc_get_ret_index c p =
     do { x \<leftarrow> read_at c p;
          if x = OPC_WIDE then map_option unat (read_u16 c (p + 2))
          else map_option unat (read_u8 c (p + 1)) }"

definition bytecode_read_branch_target :: "u8 \<Rightarrow> bytecode_buffer \<Rightarrow> (int \<times> bytecode_buffer) option" where
  "bytecode_read_branch_target opc b =
     do { w \<leftarrow> bc_is_wide opc; if w then bytecode_read_s32 b else bytecode_read_s16 b }"

definition bc_target_off :: "u8 list \<Rightarrow> nat \<Rightarrow> int option" where
  "bc_target_off c p =
     do { opc \<leftarrow> read_at c p;
          w \<leftarrow> bc_is_wide opc;
          if w then read_s32 c (p + 1) else read_s16 c (p + 1) }"

definition bc_set_target_off :: "u8 list \<Rightarrow> nat \<Rightarrow> int \<Rightarrow> u8 list option" where
  "bc_set_target_off c p off =
     do { opc \<leftarrow> read_at c p;
          w \<leftarrow> bc_is_wide opc;
          if w
          then do { _ \<leftarrow> c_assert (off \<le> 0x7ffffffe \<and> off \<ge> - 0x7fffffff); write_s32 c (p + 1) off }
          else do { _ \<leftarrow> c_assert (off \<le> 0x7ffe \<and> off \<ge> - 0x7fff); write_s16 c (p + 1) off } }"

definition get_local_var_index :: "u8 list \<Rightarrow> nat \<Rightarrow> nat option" where
  "get_local_var_index c pc =
     do { opc \<leftarrow> read_at c pc;
          if opc \<ge> OPC_ILOAD_0 \<and> opc < OPC_LLOAD_0 then Some (unat (opc - OPC_ILOAD_0))
          else if opc \<ge> OPC_LLOAD_0 \<and> opc < OPC_FLOAD_0 then Some (unat (opc - OPC_LLOAD_0))
          else if opc \<ge> OPC_FLOAD_0 \<and> opc < OPC_DLOAD_0 then Some (unat (opc - OPC_FLOAD_0))
          else if opc \<ge> OPC_DLOAD_0 \<and> opc < OPC_ALOAD_0 then Some (unat (opc - OPC_DLOAD_0))
          else if opc \<ge> OPC_ALOAD_0 \<and> opc < OPC_IALOAD then Some (unat (opc - OPC_ALOAD_0))
          else if opc \<ge> OPC_ISTORE_0 \<and> opc < OPC_LSTORE_0 then Some (unat (opc - OPC_ISTORE_0))
          else if opc \<ge> OPC_LSTORE_0 \<and> opc < OPC_FSTORE_0 then Some (unat (opc - OPC_LSTORE_0))
          else if opc \<ge> OPC_FSTORE_0 \<and> opc < OPC_DSTORE_0 then Some (unat (opc - OPC_FSTORE_0))
          else if opc \<ge> OPC_DSTORE_0 \<and> opc < OPC_ASTORE_0 then Some (unat (opc - OPC_DSTORE_0))
          else if opc \<ge> OPC_ASTORE_0 \<and> opc < OPC_IASTORE then Some (unat (opc - OPC_ASTORE_0))
          else map_option unat (read_u8 c (pc + 1)) }"

section \<open>Instruction sizes\<close>

record tableswitch_info =
  ts_low :: u32
  ts_high :: u32
  ts_default_target :: int
  ts_targets :: nat
  ts_count :: u32
  ts_insn_size :: nat

record lookupswitch_info =
  ls_default_target :: int
  ls_pairs :: nat
  ls_count :: u32
  ls_insn_size :: nat

definition get_tableswitch_padding :: "nat \<Rightarrow> nat" where
  "get_tableswitch_padding pc = 3 - pc mod 4"

definition get_tableswitch_info :: "u8 list \<Rightarrow> nat \<Rightarrow> tableswitch_info option" where
  "get_tableswitch_info c pc =
     do { opc \<leftarrow> read_at c pc;
          _ \<leftarrow> c_assert (opc = OPC_TABLESWITCH);
          let pad = get_tableswitch_padding pc;
              pc = pc + (pad + 1) in
          do { def \<leftarrow> read_u32 c pc;
               low \<leftarrow> read_u32 c (pc + 4);
               high \<leftarrow> read_u32 c (pc + 8);
               let count = high - low + 1 in
               Some \<lparr>ts_low = low, ts_high = high, ts_default_target = sint def, ts_targets = pc + 12,
                     ts_count = count, ts_insn_size = 1 + pad + unat ((3 + count) * 4)\<rparr> } }"

definition get_lookupswitch_info :: "u8 list \<Rightarrow> nat \<Rightarrow> lookupswitch_info option" where
  "get_lookupswitch_info c pc =
     do { opc \<leftarrow> read_at c pc;
          _ \<leftarrow> c_assert (opc = OPC_LOOKUPSWITCH);
          let pad = get_tableswitch_padding pc;
              pc = pc + (pad + 1) in
          do { def \<leftarrow> read_u32 c pc;
               count \<leftarrow> read_u32 c (pc + 4);
               Some \<lparr>ls_default_target = sint def, ls_pairs = pc + 8,
                     ls_count = count, ls_insn_size = 1 + pad + 2 * 4 + unat (count * 8)\<rparr> } }"

definition read_lookupswitch_target :: "u8 list \<Rightarrow> lookupswitch_info \<Rightarrow> nat \<Rightarrow> int option" where
  "read_lookupswitch_target c info idx = read_s32 c (ls_pairs info + idx * 8 + 4)"

definition read_lookupswitch_match :: "u8 list \<Rightarrow> lookupswitch_info \<Rightarrow> nat \<Rightarrow> int option" where
  "read_lookupswitch_match c info idx = read_s32 c (ls_pairs info + idx * 8)"

definition bc_insn_size :: "u8 list \<Rightarrow> nat \<Rightarrow> nat option" where
  "bc_insn_size c pc =
     do { opc \<leftarrow> read_at c pc;
          if opc = OPC_WIDE then do { x \<leftarrow> read_at c (pc + 1); Some (if x = OPC_IINC then 6 else 4) }
          else if opc = OPC_TABLESWITCH then map_option ts_insn_size (get_tableswitch_info c pc)
          else if opc = OPC_LOOKUPSWITCH then map_option ls_insn_size (get_lookupswitch_info c pc)
          else do { size \<leftarrow> bytecode_info_size opc; if size = 0 then None else Some size } }"

definition E_MALFORMED_BC :: int where
  "E_MALFORMED_BC = - 2"

definition c_int :: "int \<Rightarrow> int option" where
  "c_int x = (if - (2 ^ 31) \<le> x \<and> x < 2 ^ 31 then Some x else None)"

text \<open>The label \<open>out\<close> of \<open>bc_insn_size_safe\<close>.\<close>

definition insn_size_out :: "nat \<Rightarrow> nat \<Rightarrow> int \<Rightarrow> int" where
  "insn_size_out pc code_size sz =
     (if sz < 0 then E_MALFORMED_BC
      else if code_size < pc + nat sz then E_MALFORMED_BC
      else sz)"

definition bc_insn_size_safe :: "u8 list \<Rightarrow> nat \<Rightarrow> nat \<Rightarrow> int option" where
  "bc_insn_size_safe c pc code_size =
     (if code_size \<le> pc then Some E_MALFORMED_BC
      else do {
        (opc, buf) \<leftarrow> bytecode_read_u8 \<lparr>buffer = c, pos = pc\<rparr>;
        if bc_is_invalid opc then Some E_MALFORMED_BC
        else do {
          size \<leftarrow> bytecode_info_size opc;
          let padding = get_tableswitch_padding pc in
          if size \<noteq> 0 then Some (insn_size_out pc code_size (int size))
          else if opc = OPC_TABLESWITCH then
            (if code_size \<le> pos buf + padding + 12 then Some E_MALFORMED_BC
             else do {
               (low, buf) \<leftarrow> bytecode_read_s32 (buf\<lparr>pos := pos buf + (padding + 4)\<rparr>);
               (high, buf) \<leftarrow> bytecode_read_s32 buf;
               if high < low then Some E_MALFORMED_BC
               else do {
                 d \<leftarrow> c_int (high - low);
                 n \<leftarrow> c_int (d + 1);
                 m \<leftarrow> c_int (n * 4);
                 s \<leftarrow> c_int (1 + int padding + 12 + m);
                 Some (insn_size_out pc code_size s) } })
          else if opc = OPC_LOOKUPSWITCH then
            (if code_size \<le> pos buf + padding + 8 then Some E_MALFORMED_BC
             else do {
               (npairs, buf) \<leftarrow> bytecode_read_s32 (buf\<lparr>pos := pos buf + (padding + 4)\<rparr>);
               if npairs < 0 then Some E_MALFORMED_BC
               else do {
                 n \<leftarrow> c_int (npairs * 2);
                 m \<leftarrow> c_int (n * 4);
                 s \<leftarrow> c_int (1 + int padding + 8 + m);
                 Some (insn_size_out pc code_size s) } })
          else if opc = OPC_WIDE then
            (if code_size \<le> pos buf + 1 then Some E_MALFORMED_BC
             else do {
               (opc2, buf) \<leftarrow> bytecode_read_u8 buf;
               Some (insn_size_out pc code_size (if opc2 = OPC_IINC then 6 else 4)) })
          else Some E_MALFORMED_BC } })"

lemma bc_insn_size_pos: "bc_insn_size c pc = Some n \<Longrightarrow> 0 < n"
  by (auto simp: bc_insn_size_def get_tableswitch_info_def get_lookupswitch_info_def Let_def bind_eq_Some_conv
      split: if_splits)

text \<open>The loop \<open>bytecode_for_each_insn\<close> of \<open>bytecode_insn_count\<close>, and the offsets it visits.\<close>

function insn_count_from :: "u8 list \<Rightarrow> nat \<Rightarrow> nat \<Rightarrow> nat \<Rightarrow> nat option" where
  "insn_count_from c len pc count =
     (if pc < len
      then do { n \<leftarrow> bc_insn_size c pc; insn_count_from c len (pc + n) (count + 1) }
      else Some count)"
  by pat_completeness auto
termination
  by (relation "measure (\<lambda>(c, len, pc, count). len - pc)") (auto dest: bc_insn_size_pos)

definition bytecode_insn_count :: "u8 list \<Rightarrow> nat \<Rightarrow> nat option" where
  "bytecode_insn_count c code_length = insn_count_from c code_length 0 0"

declare insn_count_from.simps [simp del]

section \<open>Round trips\<close>

lemma bytes_u16:
  fixes v :: u16
  shows "push_bit 8 (ucast (ucast (drop_bit 8 v AND 0xff) :: u8)) OR ucast (ucast (v AND 0xff) :: u8) = v"
proof -
  have m: "(0xff :: u16) = mask 8" by (simp add: mask_eq_exp_minus_1)
  show ?thesis
    unfolding m
    by (rule word_eq_by_bits)
       (auto simp: bit_or_iff bit_push_bit_iff bit_ucast_iff bit_and_iff bit_mask_iff bit_drop_bit_eq)
qed

lemma bytes_u32:
  fixes v :: u32
  shows "((push_bit 24 (ucast (ucast (drop_bit 24 v AND 0xff) :: u8)) OR
           push_bit 16 (ucast (ucast (drop_bit 16 v AND 0xff) :: u8))) OR
           push_bit 8 (ucast (ucast (drop_bit 8 v AND 0xff) :: u8))) OR
           ucast (ucast (v AND 0xff) :: u8) = v"
proof -
  have m: "(0xff :: u32) = mask 8" by (simp add: mask_eq_exp_minus_1)
  show ?thesis
    unfolding m
  proof (rule word_eq_by_bits)
    fix n :: nat assume "n < LENGTH(32)"
    then have "n < 32" by simp
    then consider "n < 8" | "8 \<le> n" "n < 16" | "16 \<le> n" "n < 24" | "24 \<le> n" "n < 32" by linarith
    then show "bit (((push_bit 24 (ucast (ucast (drop_bit 24 v AND mask 8) :: u8)) OR
           push_bit 16 (ucast (ucast (drop_bit 16 v AND mask 8) :: u8))) OR
           push_bit 8 (ucast (ucast (drop_bit 8 v AND mask 8) :: u8))) OR
           ucast (ucast (v AND mask 8) :: u8) :: u32) n = bit v n"
      by cases (simp_all add: bit_or_iff bit_push_bit_iff bit_ucast_iff bit_and_iff bit_mask_iff
          bit_drop_bit_eq less_diff_conv2)
  qed
qed

lemma write_u16_eq:
  "write_u16 c p v = (if p + 1 < length c
     then Some (c[p := ucast (drop_bit 8 v AND 0xff), p + 1 := ucast (v AND 0xff)]) else None)"
  by (auto simp: write_u16_def write_u8_def write_at_def)

lemma write_u32_eq:
  "write_u32 c p v = (if p + 3 < length c
     then Some (c[p := ucast (drop_bit 24 v AND 0xff), p + 1 := ucast (drop_bit 16 v AND 0xff),
                  p + 2 := ucast (drop_bit 8 v AND 0xff), p + 3 := ucast (v AND 0xff)]) else None)"
  by (auto simp: write_u32_def write_u8_def write_at_def)

lemma read_write_u16: "p + 1 < length c \<Longrightarrow> write_u16 c p v = Some c' \<Longrightarrow> read_u16 c' p = Some v"
  by (auto simp: write_u16_eq read_u16_def read_u8_def bytes_u16)

lemma read_write_u32: "p + 3 < length c \<Longrightarrow> write_u32 c p v = Some c' \<Longrightarrow> read_u32 c' p = Some v"
  by (auto simp: write_u32_eq read_u32_def read_u8_def bytes_u32)

lemma sint_word_of_int:
  fixes x :: int
  assumes "LENGTH('a::len) = Suc n" "- (2 ^ n) \<le> x" "x < 2 ^ n"
  shows "sint (word_of_int x :: 'a word) = x"
proof -
  have "sint (word_of_int x :: 'a word) = signed_take_bit n x"
    using assms(1) by (simp add: sint_uint uint_word_of_int_eq signed_take_bit_take_bit)
  with assms(2,3) show ?thesis by (simp add: signed_take_bit_int_eq_self)
qed

lemma read_write_s16:
  assumes "- (2 ^ 15) \<le> off" "off < 2 ^ 15" "write_s16 c p off = Some c'"
  shows "read_s16 c' p = Some off"
proof -
  have "p + 1 < length c" using assms(3) by (simp add: write_s16_def write_u16_eq split: if_splits)
  with assms show ?thesis
    using read_write_u16 [of p c "word_of_int off" c'] sint_word_of_int [of 15 off, where 'a = 16]
    by (simp add: write_s16_def read_s16_def)
qed

lemma read_write_s32:
  assumes "- (2 ^ 31) \<le> off" "off < 2 ^ 31" "write_s32 c p off = Some c'"
  shows "read_s32 c' p = Some off"
proof -
  have "p + 3 < length c" using assms(3) by (simp add: write_s32_def write_u32_eq split: if_splits)
  with assms show ?thesis
    using read_write_u32 [of p c "word_of_int off" c'] sint_word_of_int [of 31 off, where 'a = 32]
    by (simp add: write_s32_def read_s32_def)
qed

lemma write_frame:
  "write_s16 c p off = Some c' \<Longrightarrow> length c' = length c \<and> (\<forall>q. q < p \<or> p + 2 \<le> q \<longrightarrow> c' ! q = c ! q)"
  "write_s32 c p off = Some c' \<Longrightarrow> length c' = length c \<and> (\<forall>q. q < p \<or> p + 4 \<le> q \<longrightarrow> c' ! q = c ! q)"
  by (auto simp: write_s16_def write_s32_def write_u16_eq write_u32_eq split: if_splits)

section \<open>Instruction sizes: facts\<close>

lemma length_bytecode_infos [simp]: "length bytecode_infos = 202"
  by (simp add: bytecode_infos_def)

lemma special_sizes [simp]:
  "bytecode_info_size OPC_WIDE = Some 0" "bytecode_info_size OPC_TABLESWITCH = Some 0"
  "bytecode_info_size OPC_LOOKUPSWITCH = Some 0"
  by (simp_all add: bytecode_info_size_def) (simp_all add: bytecode_infos_def)

lemma bytecode_info_size_valid: "\<not> bc_is_invalid opc \<Longrightarrow> \<exists>n. bytecode_info_size opc = Some n"
  by (auto simp: bc_is_invalid_def bytecode_info_size_def word_less_nat_alt not_le)

lemma bytecode_read_s32_eq:
  "bytecode_read_s32 b = map_option (\<lambda>v. (v, b\<lparr>pos := pos b + 4\<rparr>)) (read_s32 (buffer b) (pos b))"
  by (auto simp: bytecode_read_s32_def bytecode_read_u32_def bytecode_read_u8_def read_s32_def read_u32_def
      read_u8_def read_at_def numeral_eq_Suc)

lemma read_u32_inside: "p + 3 < length c \<Longrightarrow> \<exists>v. read_u32 c p = Some v"
  by (simp add: read_u32_def read_u8_def)

lemma insn_size_out_cases:
  "insn_size_out pc n s = E_MALFORMED_BC \<or> (insn_size_out pc n s = s \<and> 0 \<le> s \<and> pc + nat s \<le> n)"
  by (simp add: insn_size_out_def)

lemma insn_size_out_pos: "0 < insn_size_out pc n s \<Longrightarrow> insn_size_out pc n s = s \<and> pc + nat s \<le> n"
  by (simp add: insn_size_out_def E_MALFORMED_BC_def split: if_splits)

lemma unat_scaled:
  "0 \<le> x \<Longrightarrow> x < 2 ^ 32 \<Longrightarrow> unat (word_of_int x :: u32) = nat x"
  by (simp add: unat_eq_nat_uint uint_word_of_int_eq take_bit_int_eq_self)

lemma word_of_sint: "(v :: u32) = word_of_int (sint v)"
  by simp

lemma tableswitch_size_eq:
  fixes low high :: u32
  assumes "sint low \<le> sint high" "4 * (sint high - sint low + 4) < 2 ^ 32"
  shows "unat ((3 + (high - low + 1)) * 4) = nat (12 + 4 * (sint high - sint low + 1))"
proof -
  have "(3 + (high - low + 1)) * 4 = (word_of_int ((3 + (sint high - sint low + 1)) * 4) :: u32)"
    by (subst (1) word_of_sint [of high], subst (1) word_of_sint [of low]) simp
  then have "unat ((3 + (high - low + 1)) * 4) = nat ((3 + (sint high - sint low + 1)) * 4)"
    by (simp only:) (rule unat_scaled, use assms in auto)
  also have "\<dots> = nat (12 + 4 * (sint high - sint low + 1))" by (rule arg_cong [of _ _ nat]) simp
  finally show ?thesis .
qed

lemma lookupswitch_size_eq:
  fixes npairs :: u32
  assumes "0 \<le> sint npairs" "8 * sint npairs < 2 ^ 32"
  shows "unat (npairs * 8) = nat (8 * sint npairs)"
proof -
  have "npairs * 8 = (word_of_int (sint npairs * 8) :: u32)"
    by (subst (1) word_of_sint [of npairs]) simp
  then have "unat (npairs * 8) = nat (sint npairs * 8)"
    by (simp only:) (rule unat_scaled, use assms in auto)
  then show ?thesis by (simp add: mult.commute)
qed

lemma c_int_Some: "c_int x = Some y \<longleftrightarrow> y = x \<and> - (2 ^ 31) \<le> x \<and> x < 2 ^ 31"
  by (auto simp: c_int_def)

lemma safe_tableswitch:
  assumes op: "pc < n" "n \<le> length c" "c ! pc = OPC_TABLESWITCH"
    and r: "bc_insn_size_safe c pc n = Some r"
  shows "r = E_MALFORMED_BC \<or> (0 < r \<and> pc + nat r \<le> n \<and> bc_insn_size c pc = Some (nat r))"
proof -
  define pad where "pad = get_tableswitch_padding pc"
  show ?thesis
  proof (cases "n \<le> pc + 1 + pad + 12")
    case False
    define p where "p = pc + (pad + 1)"
    have inside: "p + 11 < length c" "pc < length c" using False op by (auto simp: p_def)
    obtain def low high where rd: "read_u32 c p = Some def" "read_u32 c (p + 4) = Some low"
      "read_u32 c (p + 8) = Some high"
      using read_u32_inside [of p c] read_u32_inside [of "p + 4" c] read_u32_inside [of "p + 8" c] inside by auto
    note rd = rd [unfolded p_def]
    have sz: "bc_insn_size c pc = Some (1 + pad + unat ((3 + (high - low + 1)) * 4))"
      using inside(2) op(3) rd
      by (simp add: bc_insn_size_def get_tableswitch_info_def Let_def c_assert_def flip: pad_def)
    show ?thesis
    proof (cases "sint low \<le> sint high \<and> 4 * (sint high - sint low + 4) < 2 ^ 32")
      case True
      then have "bc_insn_size c pc = Some (1 + pad + nat (12 + 4 * (sint high - sint low + 1)))"
        by (simp only: sz tableswitch_size_eq)
      with r op inside(2) False rd True show ?thesis
        using insn_size_out_cases [of pc n "1 + int pad + 12 + (sint high - sint low + 1) * 4"]
        by (auto simp: bc_insn_size_safe_def bytecode_read_u8_def bc_is_invalid_def Let_def bytecode_read_s32_eq
            read_s32_def c_int_Some bind_eq_Some_conv simp flip: pad_def split: if_splits)
    qed (use r op inside(2) False rd in \<open>auto simp: bc_insn_size_safe_def bytecode_read_u8_def bc_is_invalid_def
        Let_def bytecode_read_s32_eq read_s32_def c_int_Some bind_eq_Some_conv simp flip: pad_def split: if_splits\<close>)
  qed (use assms in \<open>simp add: bc_insn_size_safe_def bytecode_read_u8_def bc_is_invalid_def Let_def flip: pad_def\<close>)
qed

lemmas safe_defs = bc_insn_size_safe_def bytecode_read_u8_def bc_is_invalid_def Let_def bytecode_read_s32_eq
  read_s32_def c_int_Some bind_eq_Some_conv

lemma safe_lookupswitch:
  assumes op: "pc < n" "n \<le> length c" "c ! pc = OPC_LOOKUPSWITCH"
    and r: "bc_insn_size_safe c pc n = Some r"
  shows "r = E_MALFORMED_BC \<or> (0 < r \<and> pc + nat r \<le> n \<and> bc_insn_size c pc = Some (nat r))"
proof -
  define pad where "pad = get_tableswitch_padding pc"
  show ?thesis
  proof (cases "n \<le> pc + 1 + pad + 8")
    case False
    define p where "p = pc + (pad + 1)"
    have inside: "p + 7 < length c" "pc < length c" using False op by (auto simp: p_def)
    obtain def np where rd: "read_u32 c p = Some def" "read_u32 c (p + 4) = Some np"
      using read_u32_inside [of p c] read_u32_inside [of "p + 4" c] inside by auto
    note rd = rd [unfolded p_def]
    have sz: "bc_insn_size c pc = Some (1 + pad + 2 * 4 + unat (np * 8))"
      using inside(2) op(3) rd
      by (simp add: bc_insn_size_def get_lookupswitch_info_def Let_def c_assert_def flip: pad_def)
    show ?thesis
    proof (cases "0 \<le> sint np \<and> 8 * sint np < 2 ^ 32")
      case True
      then have "bc_insn_size c pc = Some (1 + pad + 8 + nat (8 * sint np))"
        using sz lookupswitch_size_eq [of np] by simp
      with r op inside(2) False rd True show ?thesis
        using insn_size_out_cases [of pc n "1 + int pad + 8 + sint np * 2 * 4"]
        by (auto simp: safe_defs simp flip: pad_def split: if_splits)
    qed (use r op inside(2) False rd in \<open>auto simp: safe_defs simp flip: pad_def split: if_splits\<close>)
  qed (use assms in \<open>simp add: safe_defs flip: pad_def\<close>)
qed

lemma safe_plain:
  assumes "pc < n" "n \<le> length c" "c ! pc \<noteq> OPC_TABLESWITCH" "c ! pc \<noteq> OPC_LOOKUPSWITCH"
    and "bc_insn_size_safe c pc n = Some r"
  shows "r = E_MALFORMED_BC \<or> (0 < r \<and> pc + nat r \<le> n \<and> bc_insn_size c pc = Some (nat r))"
proof (cases "bc_is_invalid (c ! pc)")
  case False
  then obtain k where k: "bytecode_info_size (c ! pc) = Some k" using bytecode_info_size_valid by blast
  show ?thesis
  proof (cases "c ! pc = OPC_WIDE")
    case True
    show ?thesis
      using assms True False insn_size_out_cases [of pc n "if c ! Suc pc = OPC_IINC then 6 else 4"]
      by (auto simp: bc_insn_size_safe_def bytecode_read_u8_def bc_insn_size_def Let_def split: if_splits)
  next
    case nw: False
    show ?thesis
      using assms nw False k insn_size_out_cases [of pc n "int k"]
      by (auto simp: bc_insn_size_safe_def bytecode_read_u8_def bc_insn_size_def Let_def split: if_splits)
  qed
qed (use assms in \<open>simp add: bc_insn_size_safe_def bytecode_read_u8_def\<close>)

lemma bc_insn_size_safe_sound:
  assumes "n \<le> length c" "bc_insn_size_safe c pc n = Some r"
  shows "r = E_MALFORMED_BC \<or> (0 < r \<and> pc + nat r \<le> n \<and> bc_insn_size c pc = Some (nat r))"
proof (cases "pc < n")
  case True
  then show ?thesis using assms safe_tableswitch safe_lookupswitch safe_plain by metis
qed (use assms in \<open>simp add: bc_insn_size_safe_def\<close>)

text \<open>The declared size of the operands: the switch sizes that the verifier computes in \<^verbatim>\<open>int\<close>.\<close>

definition switch_overflow :: "u8 list \<Rightarrow> nat \<Rightarrow> nat \<Rightarrow> bool" where
  "switch_overflow c pc n =
     (let p = pc + 1 + get_tableswitch_padding pc in
      if c ! pc = OPC_TABLESWITCH \<and> p + 12 < n then
        (case (read_s32 c (p + 4), read_s32 c (p + 8)) of
          (Some low, Some high) \<Rightarrow> low \<le> high \<and> 2 ^ 31 \<le> int (p - pc) + 12 + 4 * (high - low + 1)
        | _ \<Rightarrow> False)
      else if c ! pc = OPC_LOOKUPSWITCH \<and> p + 8 < n then
        (case read_s32 c (p + 4) of
          Some npairs \<Rightarrow> 2 ^ 31 \<le> int (p - pc) + 8 + 8 * npairs
        | _ \<Rightarrow> False)
      else False)"

lemma c_int_bind: "c_int x \<bind> f = (if - (2 ^ 31) \<le> x \<and> x < 2 ^ 31 then f x else None)"
  by (simp add: c_int_def)

lemma safe_undefined:
  assumes "pc < n" "n \<le> length c"
  shows "bc_insn_size_safe c pc n = None \<longleftrightarrow> switch_overflow c pc n"
proof -
  define pad where "pad = get_tableswitch_padding pc"
  have pad: "pad \<le> 3" by (simp add: pad_def get_tableswitch_padding_def)
  have rd: "\<exists>v. read_u32 c q = Some v" if "q + 3 < n" for q
    using read_u32_inside [of q c] that assms by simp
  consider (ts) "c ! pc = OPC_TABLESWITCH" | (ls) "c ! pc = OPC_LOOKUPSWITCH"
    | (other) "c ! pc \<noteq> OPC_TABLESWITCH" "c ! pc \<noteq> OPC_LOOKUPSWITCH" by blast
  then show ?thesis
  proof cases
    case ts
    show ?thesis
    proof (cases "n \<le> pc + 1 + pad + 12")
      case False
      then show ?thesis
        using assms ts rd [of "pc + 1 + pad + 4"] rd [of "pc + 1 + pad + 8"]
        by (auto simp: bc_insn_size_safe_def bytecode_read_u8_def bc_is_invalid_def Let_def bytecode_read_s32_eq
            read_s32_def switch_overflow_def c_int_bind simp flip: pad_def split: if_splits)
    qed (use assms ts in \<open>simp add: bc_insn_size_safe_def bytecode_read_u8_def
        bc_is_invalid_def Let_def switch_overflow_def flip: pad_def\<close>)
  next
    case ls
    show ?thesis
    proof (cases "n \<le> pc + 1 + pad + 8")
      case False
      then show ?thesis
        using assms ls pad rd [of "pc + 1 + pad + 4"]
        by (auto simp: bc_insn_size_safe_def bytecode_read_u8_def bc_is_invalid_def Let_def bytecode_read_s32_eq
            read_s32_def switch_overflow_def c_int_bind simp flip: pad_def split: if_splits)
    qed (use assms ls in \<open>simp add: bc_insn_size_safe_def bytecode_read_u8_def
        bc_is_invalid_def Let_def switch_overflow_def flip: pad_def\<close>)
  next
    case other
    then show ?thesis
      using assms bytecode_info_size_valid [of "c ! pc"]
      by (auto simp: bc_insn_size_safe_def bytecode_read_u8_def Let_def switch_overflow_def)
  qed
qed

section \<open>Properties\<close>

text \<open>C13: \<open>bc_insn_size_safe\<close>, which the verifier runs on untrusted code, reads inside the code only: on a
  method whose bytes are all there it answers \<open>E_MALFORMED_BC\<close> or a positive size for which the instruction
  ends inside the code, and then the unchecked \<open>bc_insn_size\<close> of the compiler gives the same size. The only
  way out of defined behaviour is the signed overflow of the size of a switch, which happens exactly when the
  declared bounds make the instruction \<open>2 ^ 31\<close> bytes or longer.\<close>

theorem bc_insn_size_safe_correct:
  assumes "code_size \<le> length c" "pc < code_size"
  shows "case bc_insn_size_safe c pc code_size of
      None \<Rightarrow> switch_overflow c pc code_size
    | Some r \<Rightarrow> \<not> switch_overflow c pc code_size \<and>
        (r = E_MALFORMED_BC \<or>
         (0 < r \<and> pc + nat r \<le> code_size \<and> bc_insn_size c pc = Some (nat r)))"
  using assms safe_undefined [of pc code_size c] bc_insn_size_safe_sound [of code_size c pc]
  by (auto split: option.split)

definition example_code :: "u8 list" where
  "example_code = [OPC_ILOAD_0, OPC_TABLESWITCH, 0, 0, 0, 0, 0, 20, 0, 0, 0, 1, 0, 0, 0, 2, 0, 0, 0, 24, 0, 0, 0, 25,
     OPC_NOP, OPC_RETURN]"

theorem bc_insn_size_safe_correct_witness:
  "bc_insn_size_safe example_code 1 26 = Some 23 \<and> bc_insn_size example_code 1 = Some 23"
proof -
  have v: "bc_insn_size_safe example_code 1 26 = Some 23" by code_simp
  then show ?thesis
    using bc_insn_size_safe_correct [of 26 example_code 1] by (simp add: example_code_def E_MALFORMED_BC_def)
qed

text \<open>C22: Patching a branch and reading it back: where \<open>bc_set_target_off\<close> succeeds, \<open>bc_target_off\<close> of the
  patched code is the offset that was written, for two-byte and four-byte branches alike; the opcode, the
  length and every byte outside of the operand are unchanged.\<close>

theorem bc_target_off_set:
  assumes "bc_set_target_off c p off = Some c'"
  shows "bc_target_off c' p = Some off \<and> length c' = length c \<and>
    (\<forall>w. bc_is_wide (c ! p) = Some w \<longrightarrow> (\<forall>q. q < p + 1 \<or> p + (if w then 5 else 3) \<le> q \<longrightarrow> c' ! q = c ! q))"
proof -
  obtain w where p: "p < length c" and w: "bc_is_wide (c ! p) = Some w"
    using assms by (auto simp: bc_set_target_off_def bind_eq_Some_conv read_at_def split: if_splits)
  show ?thesis
  proof (cases w)
    case True
    then have wr: "write_s32 c (p + 1) off = Some c'" "- 0x7fffffff \<le> off" "off \<le> 0x7ffffffe"
      using assms p w by (auto simp: bc_set_target_off_def c_assert_def split: if_splits)
    then show ?thesis
      using p w True read_write_s32 [of off c "p + 1" c'] write_frame(2) [OF wr(1)]
      by (simp add: bc_target_off_def)
  next
    case False
    then have wr: "write_s16 c (p + 1) off = Some c'" "- 0x7fff \<le> off" "off \<le> 0x7ffe"
      using assms p w by (auto simp: bc_set_target_off_def c_assert_def split: if_splits)
    then show ?thesis
      using p w False read_write_s16 [of off c "p + 1" c'] write_frame(1) [OF wr(1)]
      by (simp add: bc_target_off_def)
  qed
qed

theorem bc_target_off_set_witness:
  "\<exists>c'. bc_set_target_off [OPC_NOP, OPC_GOTO, 0, 5, OPC_RETURN] 1 (- 300) = Some c' \<and>
     bc_target_off c' 1 = Some (- 300)"
proof -
  obtain c' where c': "bc_set_target_off [OPC_NOP, OPC_GOTO, 0, 5, OPC_RETURN] 1 (- 300) = Some c'"
    by (cases "bc_set_target_off [OPC_NOP, OPC_GOTO, 0, 5, OPC_RETURN] 1 (- 300)") (code_simp, blast)
  then show ?thesis using bc_target_off_set [OF c'] by blast
qed

end
