(* ===== verification/Radix_Tree.thy ===== *)
theory Radix_Tree
  imports Jato_Prelude
begin

text \<open>
  The radix tree of \<open>lib/radix-tree.c\<close> (\<open>include/lib/radix-tree.h\<close>) and its client \<open>jit/cu-mapping.c\<close>, which
  attributes a native address to the compiled method that contains it.

  A slot of a node is a \<open>void *\<close>: \<open>NULL\<close>, a node of the next level, or, on the last level, a value. The three are
  the constructors of \<open>rnode\<close>; using a value as a node is a fault. The \<open>parent\<close> pointers of the C nodes are the
  path from the node up to the root that the loops carry along. Keys are 64-bit words.

  Shown: the operations refine a finite map with a predecessor query (\<open>rmap\<close>, \<open>pred_at\<close>), under the invariant
  that \<open>count\<close> is the number of used slots; the interface is the locale \<open>pred_map\<close>, and the attribution of
  addresses to methods is proved in it.
\<close>

section \<open>The tree\<close>

datatype 'v rnode = Null | Value 'v | Node (node_count: int) (node_slots: "'v rnode list")

record 'v radix_tree =
  rt_root :: "'v rnode"
  bits_per_level :: nat
  level_count :: nat

definition level_mask :: "'v radix_tree \<Rightarrow> u64" where
  "level_mask t = push_bit (bits_per_level t) 1 - 1"

definition slot_count :: "'v radix_tree \<Rightarrow> nat" where
  "slot_count t = 2 ^ bits_per_level t"

definition alloc_radix_tree_node :: "'v radix_tree \<Rightarrow> 'v rnode" where
  "alloc_radix_tree_node t = Node 0 (replicate (slot_count t) Null)"

text \<open>The inner option is the returned pointer; \<open>mem\<close> and \<open>mem'\<close> say whether the two allocations succeed. Without bits per
  level the division is undefined, and from 31 bits on the shift of \<open>slot_count\<close>, which is one of an \<open>int\<close>.\<close>

definition alloc_radix_tree :: "bool \<Rightarrow> bool \<Rightarrow> nat \<Rightarrow> nat \<Rightarrow> 'v radix_tree option option" where
  "alloc_radix_tree mem mem' bits key_bits =
     do { _ \<leftarrow> c_assert (bits < key_bits);
          _ \<leftarrow> c_assert (key_bits \<le> 64);
          if \<not> mem then Some None
          else if bits = 0 \<or> 31 \<le> bits then None
          else let t = \<lparr>rt_root = Null, bits_per_level = bits, level_count = (key_bits + bits - 1) div bits\<rparr> in
            if \<not> mem' then Some None
            else Some (Some (t\<lparr>rt_root := alloc_radix_tree_node t\<rparr>)) }"

fun node_fields :: "'v rnode \<Rightarrow> (int \<times> 'v rnode list) option" where
  "node_fields (Node c s) = Some (c, s)"
| "node_fields _ = None"

definition get_index :: "'v radix_tree \<Rightarrow> u64 \<Rightarrow> nat \<Rightarrow> nat" where
  "get_index t key level =
     (let shift = (level_count t - level - 1) * bits_per_level t in
      unat (drop_bit shift key AND level_mask t))"

text \<open>The loop over the slots below \<open>i\<close>, downwards, to one that is used.\<close>

primrec scan_down :: "'v rnode list \<Rightarrow> nat \<Rightarrow> nat option option" where
  "scan_down s 0 = Some None"
| "scan_down s (Suc i) = do { x \<leftarrow> read_at s i; if x \<noteq> Null then Some (Some i) else scan_down s i }"

text \<open>The first argument of the loops over the levels is the number of levels that remain.\<close>

primrec last_loop :: "'v radix_tree \<Rightarrow> nat \<Rightarrow> 'v rnode \<Rightarrow> 'v rnode option" where
  "last_loop t 0 node = Some node"
| "last_loop t (Suc n) node =
     do { (c, s) \<leftarrow> node_fields node;
          r \<leftarrow> scan_down s (slot_count t);
          case r of None \<Rightarrow> Some Null | Some i \<Rightarrow> do { x \<leftarrow> read_at s i; last_loop t n x } }"

definition radix_tree_last :: "'v radix_tree \<Rightarrow> 'v rnode \<Rightarrow> nat \<Rightarrow> 'v rnode option" where
  "radix_tree_last t node level = last_loop t (level_count t - level) node"

text \<open>The \<open>do\<close> loop that walks up: it leaves the node and every ancestor with a single used slot.\<close>

fun skip_single :: "'v rnode list \<Rightarrow> nat \<Rightarrow> 'v rnode list \<times> nat" where
  "skip_single [] level = ([], level)"
| "skip_single (node # ps) level =
     (if node_count node = 1 then skip_single ps (level - 1) else (node # ps, level))"

lemma skip_single_length: "length (fst (skip_single ps level)) \<le> length ps"
  by (induction ps level rule: skip_single.induct) auto

function radix_tree_previous :: "'v radix_tree \<Rightarrow> 'v rnode list \<Rightarrow> u64 \<Rightarrow> nat \<Rightarrow> 'v rnode option" where
  "radix_tree_previous t [] key level = Some Null"
| "radix_tree_previous t (node # ps) key level =
     do { (c, s) \<leftarrow> node_fields node;
          r \<leftarrow> scan_down s (get_index t key level);
          case r of
            Some i \<Rightarrow> do { x \<leftarrow> read_at s i; radix_tree_last t x (level + 1) }
          | None \<Rightarrow> radix_tree_previous t (fst (skip_single ps (level - 1))) key (snd (skip_single ps (level - 1))) }"
  by pat_completeness auto
termination
  by (relation "measure (\<lambda>(t, ps, key, level). length ps)") (auto simp: less_Suc_eq_le skip_single_length)

primrec insert_loop ::
  "'v radix_tree \<Rightarrow> (nat \<Rightarrow> bool) \<Rightarrow> u64 \<Rightarrow> 'v \<Rightarrow> nat \<Rightarrow> nat \<Rightarrow> 'v rnode \<Rightarrow> (int \<times> 'v rnode) option"
where
  "insert_loop t mem key v 0 i node =
     do { (c, s) \<leftarrow> node_fields node;
          s' \<leftarrow> write_at s (get_index t key i) (Value v);
          Some (0, Node (c + 1) s') }"
| "insert_loop t mem key v (Suc n) i node =
     do { (c, s) \<leftarrow> node_fields node;
          x \<leftarrow> read_at s (get_index t key i);
          if x = Null then
            (if \<not> mem i then Some (- ENOMEM, node)
             else do { (r, x') \<leftarrow> insert_loop t mem key v n (i + 1) (alloc_radix_tree_node t);
                       s' \<leftarrow> write_at s (get_index t key i) x';
                       Some (r, Node (c + 1) s') })
          else do { (r, x') \<leftarrow> insert_loop t mem key v n (i + 1) x;
                    s' \<leftarrow> write_at s (get_index t key i) x';
                    Some (r, Node c s') } }"

text \<open>\<open>mem i\<close>: the allocation of a node below level \<open>i\<close> succeeds. A value is never \<open>NULL\<close>: the assertion of the
  source holds by the type.\<close>

definition radix_tree_insert ::
  "(nat \<Rightarrow> bool) \<Rightarrow> 'v radix_tree \<Rightarrow> u64 \<Rightarrow> 'v \<Rightarrow> (int \<times> 'v radix_tree) option"
where
  "radix_tree_insert mem t key v =
     do { (r, node) \<leftarrow> insert_loop t mem key v (level_count t - 1) 0 (rt_root t);
          Some (r, t\<lparr>rt_root := node\<rparr>) }"

text \<open>The root of the tree in which the ancestors \<open>ps\<close> of \<open>node\<close> see its update.\<close>

fun rebuild :: "'v radix_tree \<Rightarrow> 'v rnode list \<Rightarrow> u64 \<Rightarrow> nat \<Rightarrow> 'v rnode \<Rightarrow> 'v rnode option" where
  "rebuild t [] key level node = Some node"
| "rebuild t (p # ps) key level node =
     do { (c, s) \<leftarrow> node_fields p;
          s' \<leftarrow> write_at s (get_index t key level) node;
          rebuild t ps key (level - 1) (Node c s') }"

fun free_slot :: "'v radix_tree \<Rightarrow> 'v rnode list \<Rightarrow> u64 \<Rightarrow> nat \<Rightarrow> 'v rnode option" where
  "free_slot t [] key level = None"
| "free_slot t (node # ps) key level =
     do { (c, s) \<leftarrow> node_fields node;
          s' \<leftarrow> write_at s (get_index t key level) Null;
          if c - 1 = 0 \<and> ps \<noteq> [] then free_slot t ps key (level - 1)
          else rebuild t ps key (level - 1) (Node (c - 1) s') }"

primrec remove_loop ::
  "'v radix_tree \<Rightarrow> u64 \<Rightarrow> nat \<Rightarrow> nat \<Rightarrow> 'v rnode \<Rightarrow> 'v rnode list \<Rightarrow> 'v rnode option"
where
  "remove_loop t key 0 i node ps = free_slot t (node # ps) key i"
| "remove_loop t key (Suc n) i node ps =
     do { (c, s) \<leftarrow> node_fields node;
          x \<leftarrow> read_at s (get_index t key i);
          if x = Null then Some (rt_root t) else remove_loop t key n (i + 1) x (node # ps) }"

definition radix_tree_remove :: "'v radix_tree \<Rightarrow> u64 \<Rightarrow> 'v radix_tree option" where
  "radix_tree_remove t key =
     do { node \<leftarrow> remove_loop t key (level_count t - 1) 0 (rt_root t) [];
          Some (t\<lparr>rt_root := node\<rparr>) }"

primrec lookup_loop ::
  "'v radix_tree \<Rightarrow> u64 \<Rightarrow> bool \<Rightarrow> nat \<Rightarrow> nat \<Rightarrow> 'v rnode \<Rightarrow> 'v rnode list \<Rightarrow> 'v rnode option"
where
  "lookup_loop t key try_previous 0 i node ps = Some node"
| "lookup_loop t key try_previous (Suc n) i node ps =
     do { (c, s) \<leftarrow> node_fields node;
          x \<leftarrow> read_at s (get_index t key i);
          if x = Null then (if try_previous then radix_tree_previous t (node # ps) key i else Some Null)
          else lookup_loop t key try_previous n (i + 1) x (node # ps) }"

definition radix_tree_lookup_gen :: "'v radix_tree \<Rightarrow> u64 \<Rightarrow> bool \<Rightarrow> 'v rnode option" where
  "radix_tree_lookup_gen t key try_previous = lookup_loop t key try_previous (level_count t) 0 (rt_root t) []"

definition radix_tree_lookup :: "'v radix_tree \<Rightarrow> u64 \<Rightarrow> 'v rnode option" where
  "radix_tree_lookup t key = radix_tree_lookup_gen t key False"

definition radix_tree_lookup_prev :: "'v radix_tree \<Rightarrow> u64 \<Rightarrow> 'v rnode option" where
  "radix_tree_lookup_prev t key = radix_tree_lookup_gen t key True"

section \<open>The map a tree stands for\<close>

text \<open>A node with \<open>h\<close> levels below it maps the keys below \<open>2 ^ (b * h)\<close>.\<close>

fun rmap :: "nat \<Rightarrow> nat \<Rightarrow> 'v rnode \<Rightarrow> nat \<Rightarrow> 'v option" where
  "rmap b 0 (Value v) k = Some v"
| "rmap b (Suc h) (Node c s) k =
     (if k div 2 ^ (b * h) < length s then rmap b h (s ! (k div 2 ^ (b * h))) (k mod 2 ^ (b * h)) else None)"
| "rmap b _ _ k = None"

primrec shape :: "nat \<Rightarrow> nat \<Rightarrow> 'v rnode \<Rightarrow> bool" where
  "shape b 0 x = (case x of Value v \<Rightarrow> True | _ \<Rightarrow> False)"
| "shape b (Suc h) x =
     (case x of Node c s \<Rightarrow> length s = 2 ^ b \<and> (\<forall>y\<in>set s. y = Null \<or> shape b h y) | _ \<Rightarrow> False)"

definition used :: "'v rnode list \<Rightarrow> nat" where
  "used s = length (filter (\<lambda>x. x \<noteq> Null) s)"

fun live :: "'v rnode \<Rightarrow> bool" where
  "live (Node c s) = (c \<noteq> 0)"
| "live _ = True"

fun counted :: "'v rnode \<Rightarrow> bool" where
  "counted (Node c s) = (c = int (used s) \<and> (\<forall>y\<in>set s. counted y \<and> live y))"
| "counted _ = True"

definition rt_wf :: "'v radix_tree \<Rightarrow> bool" where
  "rt_wf t \<longleftrightarrow> 0 < level_count t \<and> bits_per_level t < 31 \<and> shape (bits_per_level t) (level_count t) (rt_root t)"

definition rt_inv :: "'v radix_tree \<Rightarrow> bool" where
  "rt_inv t \<longleftrightarrow> rt_wf t \<and> counted (rt_root t)"

definition rt_key :: "'v radix_tree \<Rightarrow> u64 \<Rightarrow> bool" where
  "rt_key t key \<longleftrightarrow> unat key < 2 ^ (bits_per_level t * level_count t)"

definition rt_map :: "'v radix_tree \<Rightarrow> nat \<Rightarrow> 'v option" where
  "rt_map t = rmap (bits_per_level t) (level_count t) (rt_root t)"

text \<open>The predecessor query on a map: the entry at the greatest key up to \<open>k\<close>.\<close>

primrec pred_at :: "(nat \<Rightarrow> 'v option) \<Rightarrow> nat \<Rightarrow> 'v option" where
  "pred_at m 0 = m 0"
| "pred_at m (Suc k) = (case m (Suc k) of Some v \<Rightarrow> Some v | None \<Rightarrow> pred_at m k)"

lemma pred_at_Some: "pred_at m k = Some v \<longleftrightarrow> (\<exists>j\<le>k. m j = Some v \<and> (\<forall>i. j < i \<longrightarrow> i \<le> k \<longrightarrow> m i = None))"
proof (induction k)
  case (Suc k)
  show ?case
  proof (cases "m (Suc k)")
    case None
    with Suc show ?thesis by (auto simp: le_Suc_eq)
  next
    case (Some w)
    then show ?thesis by (auto simp: le_Suc_eq dest: spec [of _ "Suc k"])
  qed
qed auto

lemma pred_at_None: "pred_at m k = None \<longleftrightarrow> (\<forall>j\<le>k. m j = None)"
  by (induction k) (auto simp: le_Suc_eq split: option.split)

section \<open>Digits of a key\<close>

definition part :: "nat \<Rightarrow> nat \<Rightarrow> u64 \<Rightarrow> nat" where
  "part b h key = unat key mod 2 ^ (b * h)"

lemma unat_and_mask: "unat ((x :: u64) AND (push_bit b 1 - 1)) = unat x mod 2 ^ b"
proof -
  have "x AND (push_bit b 1 - 1) = take_bit b x"
    by (simp add: take_bit_eq_mask mask_eq_exp_minus_1 push_bit_of_1)
  then have "unat (x AND (push_bit b 1 - 1)) = take_bit b (unat x)" by (simp only: unsigned_take_bit_eq)
  then show ?thesis by (simp add: take_bit_eq_mod)
qed

lemma get_index_digit:
  assumes "i + Suc n = level_count t"
  shows "get_index t key i = part (bits_per_level t) (Suc n) key div 2 ^ (bits_per_level t * n)"
proof -
  define b where "b = bits_per_level t"
  have n: "level_count t - i - 1 = n" using assms by simp
  have "get_index t key i = unat (drop_bit (n * b) key AND (push_bit b 1 - 1))"
    by (simp only: get_index_def Let_def n b_def level_mask_def)
  also have "\<dots> = unat key div 2 ^ (b * n) mod 2 ^ b"
    by (simp only: unat_and_mask unat_drop_bit_eq) (simp only: drop_bit_eq_div mult.commute [of n b])
  also have "\<dots> = (unat key mod (2 ^ (b * n) * 2 ^ b)) div 2 ^ (b * n)"
    by (simp add: mod_mult2_eq)
  finally show ?thesis by (simp add: part_def power_add mult.commute flip: b_def)
qed

lemma part_Suc_mod: "part b (Suc n) key mod 2 ^ (b * n) = part b n key"
  by (simp add: part_def power_add mod_mod_cancel)

lemma part_lt: "part b n key < 2 ^ (b * n)"
  by (simp add: part_def)

lemma get_index_lt:
  assumes "i + Suc n = level_count t"
  shows "get_index t key i < 2 ^ bits_per_level t"
  using part_lt [of "bits_per_level t" "Suc n" key]
  by (simp add: get_index_digit [OF assms] power_add less_mult_imp_div_less)

lemma rmap_part:
  assumes "i + Suc n = level_count t" "length s = 2 ^ bits_per_level t"
  shows "rmap (bits_per_level t) (Suc n) (Node c s) (part (bits_per_level t) (Suc n) key) =
    rmap (bits_per_level t) n (s ! get_index t key i) (part (bits_per_level t) n key)"
  using get_index_lt [OF assms(1), of key] assms(2) by (simp add: part_Suc_mod flip: get_index_digit [OF assms(1)])

lemma rmap_Null [simp]: "rmap b h Null k = None"
  by (cases h) auto

lemma shape_neq_Null: "shape b h x \<Longrightarrow> x \<noteq> Null"
  by (cases h) auto

lemma shape_Suc: "shape b (Suc h) x \<longleftrightarrow>
    (\<exists>c s. x = Node c s \<and> length s = 2 ^ b \<and> (\<forall>y\<in>set s. y = Null \<or> shape b h y))"
  by (auto split: rnode.split)

lemma shape_0: "shape b 0 x \<longleftrightarrow> (\<exists>v. x = Value v)"
  by (auto split: rnode.split)

declare shape.simps [simp del]

section \<open>Lookup\<close>

lemma lookup_loop_plain:
  assumes "i + n = level_count t" "shape (bits_per_level t) n node"
  shows "lookup_loop t key False n i node ps =
    Some (case rmap (bits_per_level t) n node (part (bits_per_level t) n key) of None \<Rightarrow> Null | Some v \<Rightarrow> Value v)"
  using assms
proof (induction n arbitrary: i node ps)
  case 0
  then show ?case by (auto simp: shape_0)
next
  case (Suc n)
  obtain c s where s: "node = Node c s" "length s = 2 ^ bits_per_level t"
    "\<And>y. y \<in> set s \<Longrightarrow> y = Null \<or> shape (bits_per_level t) n y"
    using Suc.prems(2) by (auto simp: shape_Suc)
  have lt: "get_index t key i < length s" using get_index_lt [OF Suc.prems(1)] s(2) by simp
  show ?case
  proof (cases "s ! get_index t key i = Null")
    case True
    then show ?thesis using lt rmap_part [OF Suc.prems(1) s(2), of c key] s(1) by simp
  next
    case False
    then have "shape (bits_per_level t) n (s ! get_index t key i)" using s(3) [OF nth_mem [OF lt]] by simp
    then show ?thesis
      using Suc.IH [of "i + 1"] Suc.prems(1) False lt rmap_part [OF Suc.prems(1) s(2), of c key] s(1) by simp
  qed
qed

section \<open>Insertion\<close>

lemma rmap_update:
  "i < length s \<Longrightarrow> rmap b (Suc h) (Node c' (s[i := x])) k =
    (if k div 2 ^ (b * h) = i then rmap b h x (k mod 2 ^ (b * h)) else rmap b (Suc h) (Node c s) k)"
  by simp

lemma rmap_step:
  "k div 2 ^ (b * h) = j \<Longrightarrow> j < length s \<Longrightarrow> rmap b (Suc h) (Node c s) k = rmap b h (s ! j) (k mod 2 ^ (b * h))"
  by auto

lemma eq_iff_div_mod: "k = p \<longleftrightarrow> k div w = p div w \<and> k mod w = p mod w" for k :: nat
  by (metis div_mult_mod_eq)

lemma part_unique:
  assumes "i + Suc n = level_count t"
  shows "k = part (bits_per_level t) (Suc n) key \<longleftrightarrow>
    k div 2 ^ (bits_per_level t * n) = get_index t key i \<and>
    k mod 2 ^ (bits_per_level t * n) = part (bits_per_level t) n key"
  using eq_iff_div_mod [of k "part (bits_per_level t) (Suc n) key" "2 ^ (bits_per_level t * n)"]
  by (simp only: get_index_digit [OF assms] part_Suc_mod)

lemma used_Cons: "used (y # s) = (if y = Null then 0 else 1) + used s"
  by (simp add: used_def)

lemma used_update:
  "i < length s \<Longrightarrow> int (used (s[i := x])) = int (used s) - (if s ! i = Null then 0 else 1) + (if x = Null then 0 else 1)"
proof (induction s arbitrary: i)
  case (Cons y s)
  show ?case
  proof (cases i)
    case (Suc k)
    then show ?thesis using Cons.IH [of k] Cons.prems by (simp add: used_Cons)
  qed (simp add: used_Cons)
qed simp

lemma alloc_node_facts:
  fixes t :: "'v radix_tree"
  shows "shape (bits_per_level t) (Suc n) (alloc_radix_tree_node t)"
    "rmap (bits_per_level t) (Suc n) (alloc_radix_tree_node t) = (\<lambda>_. None)"
    "counted (alloc_radix_tree_node t)"
  by (auto simp: alloc_radix_tree_node_def shape_Suc slot_count_def used_def)

lemma counted_insert:
  assumes "j < length s" "counted (Node c s)" "counted x'" "live x'" "x' \<noteq> Null"
  shows "counted (Node (if s ! j = Null then c + 1 else c) (s[j := x'])) \<and>
    live (Node (if s ! j = Null then c + 1 else c) (s[j := x']))"
proof -
  have "s ! j = Null \<or> 0 < used s"
    using assms(1) nth_mem [OF assms(1)] by (auto simp: used_def filter_empty_conv)
  with assms show ?thesis
    using used_update [OF assms(1), of x'] by (auto dest!: subsetD [OF set_update_subset_insert])
qed

lemma insert_loop_Suc:
  assumes "node = Node c s" "get_index t key i < length s" "\<And>j. mem j"
    and "x = (if s ! get_index t key i = Null then alloc_radix_tree_node t else s ! get_index t key i)"
    and "insert_loop t mem key v n (i + 1) x = Some (0, x')"
  shows "insert_loop t mem key v (Suc n) i node =
    Some (0, Node (if s ! get_index t key i = Null then c + 1 else c) (s[get_index t key i := x']))"
  using assms by (auto simp: write_at_def split: if_splits)

lemma insert_loop_correct:
  assumes "i + Suc n = level_count t" "shape (bits_per_level t) (Suc n) node" "\<And>j. mem j"
  shows "\<exists>node'. insert_loop t mem key v n i node = Some (0, node') \<and> shape (bits_per_level t) (Suc n) node' \<and>
    rmap (bits_per_level t) (Suc n) node' =
      (rmap (bits_per_level t) (Suc n) node)(part (bits_per_level t) (Suc n) key \<mapsto> v) \<and>
    (counted node \<and> rmap (bits_per_level t) (Suc n) node (part (bits_per_level t) (Suc n) key) = None \<longrightarrow>
      counted node' \<and> live node')"
  using assms(1,2)
proof (induction n arbitrary: i node)
  case 0
  then obtain c s where s: "node = Node c s" "length s = 2 ^ bits_per_level t"
    "\<forall>y\<in>set s. y = Null \<or> shape (bits_per_level t) 0 y" by (auto simp: shape_Suc)
  define j where "j = get_index t key i"
  have lt: "j < length s" using get_index_lt [OF 0(1)] s(2) by (simp add: j_def)
  have "rmap (bits_per_level t) 0 (Value v) k = Some v" for k by simp
  moreover have "k = part (bits_per_level t) (Suc 0) key \<longleftrightarrow> k = j" for k
    using part_unique [OF 0(1), of k key] by (simp add: j_def part_def)
  moreover have "s ! j = Null" if "rmap (bits_per_level t) 0 (s ! j) (part (bits_per_level t) 0 key) = None"
    using that s(3) lt by (fastforce simp: shape_0)
  ultimately show ?case
    using s lt rmap_part [OF 0(1) s(2), of c key] used_update [OF lt, of "Value v"]
    by (fastforce simp: j_def [symmetric] shape_Suc shape_0 write_at_def dest!: subsetD [OF set_update_subset_insert])
next
  case (Suc n)
  then obtain c s where s: "node = Node c s" "length s = 2 ^ bits_per_level t"
    "\<forall>y\<in>set s. y = Null \<or> shape (bits_per_level t) (Suc n) y" by (auto simp: shape_Suc)
  define j where "j = get_index t key i"
  have lt: "j < length s" using get_index_lt [OF Suc.prems(1)] s(2) by (simp add: j_def)
  define x where "x = (if s ! j = Null then alloc_radix_tree_node t else s ! j)"
  have level: "i + 1 + Suc n = level_count t" using Suc.prems(1) by simp
  have "shape (bits_per_level t) (Suc n) x" using s(3) lt by (auto simp: x_def alloc_node_facts)
  then obtain x' where x': "insert_loop t mem key v n (i + 1) x = Some (0, x')" "shape (bits_per_level t) (Suc n) x'"
    "rmap (bits_per_level t) (Suc n) x' =
      (rmap (bits_per_level t) (Suc n) x)(part (bits_per_level t) (Suc n) key \<mapsto> v)"
    "counted x \<and> rmap (bits_per_level t) (Suc n) x (part (bits_per_level t) (Suc n) key) = None \<longrightarrow>
      counted x' \<and> live x'"
    using Suc.IH [of "i + 1" x] level by blast
  have xmap: "rmap (bits_per_level t) (Suc n) x = rmap (bits_per_level t) (Suc n) (s ! j)"
    by (auto simp: x_def alloc_node_facts)
  define node' where "node' = Node (if s ! j = Null then c + 1 else c) (s[j := x'])"
  have "insert_loop t mem key v (Suc n) i node = Some (0, node')"
    unfolding node'_def j_def
    by (rule insert_loop_Suc) (use s(1) lt x'(1) assms(3) in \<open>simp_all add: x_def flip: j_def\<close>)
  moreover have "shape (bits_per_level t) (Suc (Suc n)) node'"
    using s x'(2) by (auto simp: node'_def shape_Suc [of _ "Suc n"] dest!: subsetD [OF set_update_subset_insert])
  moreover have "rmap (bits_per_level t) (Suc (Suc n)) node' =
      (rmap (bits_per_level t) (Suc (Suc n)) node)(part (bits_per_level t) (Suc (Suc n)) key \<mapsto> v)"
  proof (rule ext)
    fix k
    show "rmap (bits_per_level t) (Suc (Suc n)) node' k =
      ((rmap (bits_per_level t) (Suc (Suc n)) node)(part (bits_per_level t) (Suc (Suc n)) key \<mapsto> v)) k"
      using part_unique [OF Suc.prems(1), of k key] lt
      by (cases "k div 2 ^ (bits_per_level t * Suc n) = j")
         (simp_all add: node'_def s(1) rmap_update [OF lt, of _ _ _ _ _ c] rmap_step x'(3) xmap j_def [symmetric]
          del: rmap.simps(2) mult_Suc_right)
  qed
  moreover have "counted node \<and>
      rmap (bits_per_level t) (Suc (Suc n)) node (part (bits_per_level t) (Suc (Suc n)) key) = None \<longrightarrow>
      counted node' \<and> live node'"
  proof (rule impI, elim conjE)
    assume c: "counted node"
      and "rmap (bits_per_level t) (Suc (Suc n)) node (part (bits_per_level t) (Suc (Suc n)) key) = None"
    then have "rmap (bits_per_level t) (Suc n) x (part (bits_per_level t) (Suc n) key) = None"
      using rmap_part [OF Suc.prems(1) s(2), of c key] by (simp only: s(1) xmap j_def)
    moreover have "counted x" using c s(1) lt by (auto simp: x_def alloc_node_facts)
    ultimately have "counted x'" "live x'" using x'(4) by simp_all
    then show "counted node' \<and> live node'"
      unfolding node'_def by (rule counted_insert [OF lt c [unfolded s(1)] _ _ shape_neq_Null [OF x'(2)]])
  qed
  ultimately show ?case by (intro exI conjI) (assumption+)
qed

section \<open>The predecessor query\<close>

text \<open>The entry of the slots below \<open>q\<close> with the greatest key.\<close>

definition below :: "nat \<Rightarrow> nat \<Rightarrow> 'v rnode list \<Rightarrow> nat \<Rightarrow> 'v option" where
  "below b h s q = (if q = 0 then None else pred_at (rmap b (Suc h) (Node 0 s)) (q * 2 ^ (b * h) - 1))"

abbreviation or_else_opt :: "'v option \<Rightarrow> 'v option \<Rightarrow> 'v option" where
  "or_else_opt x y \<equiv> (case x of Some v \<Rightarrow> Some v | None \<Rightarrow> y)"

abbreviation pointer :: "'v option \<Rightarrow> 'v rnode" where
  "pointer x \<equiv> (case x of Some v \<Rightarrow> Value v | None \<Rightarrow> Null)"

lemma pred_at_cong: "(\<And>x. x \<le> k \<Longrightarrow> m x = m' x) \<Longrightarrow> pred_at m k = pred_at m' k"
  by (induction k) (auto split: option.split)

lemma pred_at_block:
  "pred_at m (q * w + r) =
    or_else_opt (pred_at (\<lambda>x. m (q * w + x)) r) (if q * w = 0 then None else pred_at m (q * w - 1))"
proof (induction r)
  case 0
  show ?case by (cases "q * w") (auto split: option.split)
next
  case (Suc r)
  then show ?case by (auto split: option.split)
qed

lemma pred_at_node:
  assumes "q < length s" "r < 2 ^ (b * h)"
  shows "pred_at (rmap b (Suc h) (Node c s)) (q * 2 ^ (b * h) + r) =
    or_else_opt (pred_at (rmap b h (s ! q)) r) (below b h s q)"
proof -
  have "rmap b (Suc h) (Node c s) = rmap b (Suc h) (Node 0 s)" by (rule ext) simp
  moreover have "pred_at (\<lambda>x. rmap b (Suc h) (Node 0 s) (q * 2 ^ (b * h) + x)) r = pred_at (rmap b h (s ! q)) r"
    using assms by (intro pred_at_cong) simp
  ultimately show ?thesis by (simp only: pred_at_block) (simp add: below_def split: option.split)
qed

lemma below_Suc:
  assumes "q < length s"
  shows "below b h s (Suc q) = or_else_opt (pred_at (rmap b h (s ! q)) (2 ^ (b * h) - 1)) (below b h s q)"
proof -
  have "Suc q * 2 ^ (b * h) - 1 = q * 2 ^ (b * h) + (2 ^ (b * h) - 1)" by simp
  then have "below b h s (Suc q) = pred_at (rmap b (Suc h) (Node 0 s)) (q * 2 ^ (b * h) + (2 ^ (b * h) - 1))"
    by (simp only: below_def) simp
  also have "\<dots> = or_else_opt (pred_at (rmap b h (s ! q)) (2 ^ (b * h) - 1)) (below b h s q)"
    by (rule pred_at_node [OF assms]) simp
  finally show ?thesis .
qed

lemma pred_at_Null [simp]: "pred_at (rmap b h Null) k = None"
  by (simp add: pred_at_None)

definition last_ok :: "'v radix_tree \<Rightarrow> nat \<Rightarrow> 'v rnode \<Rightarrow> bool" where
  "last_ok t h x \<longleftrightarrow> (\<exists>v. pred_at (rmap (bits_per_level t) h x) (2 ^ (bits_per_level t * h) - 1) = Some v \<and>
     last_loop t h x = Some (Value v))"

lemma scan_down_below:
  assumes "q \<le> length s" "\<And>y. y \<in> set s \<Longrightarrow> y = Null \<or> last_ok t h y"
  shows "(scan_down s q = Some None \<and> below (bits_per_level t) h s q = None \<and> (\<forall>j<q. s ! j = Null)) \<or>
    (\<exists>j v. scan_down s q = Some (Some j) \<and> j < q \<and> s ! j \<noteq> Null \<and> below (bits_per_level t) h s q = Some v \<and>
       last_loop t h (s ! j) = Some (Value v))"
  using assms(1)
proof (induction q)
  case (Suc q)
  then have q: "q < length s" by simp
  show ?case
  proof (cases "s ! q = Null")
    case True
    then have "below (bits_per_level t) h s (Suc q) = below (bits_per_level t) h s q"
      by (simp add: below_Suc [OF q])
    then show ?thesis using Suc q True by (auto simp: less_Suc_eq)
  next
    case False
    then have "last_ok t h (s ! q)" using assms(2) [OF nth_mem [OF q]] by simp
    then show ?thesis using q False by (auto simp: last_ok_def below_Suc [OF q])
  qed
qed (simp add: below_def)

lemma live_used: "counted (Node c s) \<Longrightarrow> live (Node c s) \<Longrightarrow> \<exists>j<length s. s ! j \<noteq> Null"
  by (auto simp: used_def filter_empty_conv in_set_conv_nth)

lemma last_loop_correct: "shape (bits_per_level t) h x \<Longrightarrow> counted x \<Longrightarrow> live x \<Longrightarrow> last_ok t h x"
proof (induction h arbitrary: x)
  case 0
  then show ?case by (auto simp: shape_0 last_ok_def)
next
  case (Suc h)
  then obtain c s where s: "x = Node c s" "length s = 2 ^ bits_per_level t"
    "\<And>y. y \<in> set s \<Longrightarrow> y = Null \<or> last_ok t h y" by (fastforce simp: shape_Suc)
  have bel: "below (bits_per_level t) h s (2 ^ bits_per_level t) =
      pred_at (rmap (bits_per_level t) (Suc h) x) (2 ^ (bits_per_level t * Suc h) - 1)"
    unfolding below_def s(1) by (auto simp: power_add intro!: pred_at_cong)
  obtain j where "j < length s" "s ! j \<noteq> Null" using live_used Suc.prems(2,3) s(1) by blast
  then show ?case
    using scan_down_below [of "2 ^ bits_per_level t" s t h] s bel [unfolded s(1)]
    by (fastforce simp: last_ok_def slot_count_def simp del: rmap.simps)
qed

text \<open>The path of a node on level \<open>i\<close>: its ancestors, on the way of the key.\<close>

fun node_at :: "'v radix_tree \<Rightarrow> nat \<Rightarrow> 'v rnode \<Rightarrow> bool" where
  "node_at t i x \<longleftrightarrow> i < level_count t \<and> shape (bits_per_level t) (level_count t - i) x \<and> counted x"

fun path_ok :: "'v radix_tree \<Rightarrow> u64 \<Rightarrow> 'v rnode list \<Rightarrow> nat \<Rightarrow> bool" where
  "path_ok t key [] i \<longleftrightarrow> i = 0"
| "path_ok t key (p # ps) 0 \<longleftrightarrow> False"
| "path_ok t key (p # ps) (Suc i) \<longleftrightarrow> node_at t i p \<and> node_slots p ! get_index t key i \<noteq> Null \<and> path_ok t key ps i"

fun pred_up :: "'v radix_tree \<Rightarrow> u64 \<Rightarrow> 'v rnode list \<Rightarrow> nat \<Rightarrow> 'v option" where
  "pred_up t key [] i = None"
| "pred_up t key (p # ps) i =
     or_else_opt (below (bits_per_level t) (level_count t - i - 1) (node_slots p) (get_index t key i))
       (pred_up t key ps (i - 1))"

lemma node_atD:
  assumes "node_at t i x"
  shows "\<exists>c s. x = Node c s \<and> length s = 2 ^ bits_per_level t \<and> i + Suc (level_count t - i - 1) = level_count t \<and>
    counted (Node c s) \<and> (\<forall>y\<in>set s. y = Null \<or> last_ok t (level_count t - i - 1) y)"
proof -
  obtain n where n: "level_count t - i = Suc n" "i < level_count t" using assms by (cases "level_count t - i") auto
  with assms show ?thesis
    using last_loop_correct [of t n] by (fastforce simp: shape_Suc)
qed

declare node_at.simps [simp del]

lemma used_one: "used s = 1 \<Longrightarrow> j < length s \<Longrightarrow> s ! j \<noteq> Null \<Longrightarrow> k < j \<Longrightarrow> s ! k = Null"
  using used_update [of k s Null] used_update [of j "s[k := Null]" Null]
  by (auto split: if_splits)

lemma pred_up_single:
  assumes "node_at t i p" "node_slots p ! get_index t key i \<noteq> Null" "node_count p = 1"
  shows "pred_up t key (p # ps) i = pred_up t key ps (i - 1)"
proof -
  obtain c s where s: "p = Node c s" "length s = 2 ^ bits_per_level t" "i + Suc (level_count t - i - 1) = level_count t"
    "counted (Node c s)" "\<forall>y\<in>set s. y = Null \<or> last_ok t (level_count t - i - 1) y"
    using node_atD [OF assms(1)] by blast
  have lt: "get_index t key i < length s" using get_index_lt [OF s(3)] s(2) by simp
  have "used s = 1" using assms(3) s(1,4) by simp
  then have "s ! k = Null" if "k < get_index t key i" for k
    using used_one [OF _ lt] assms(2) s(1) that by simp
  then have "below (bits_per_level t) (level_count t - i - 1) s (get_index t key i) = None"
    using scan_down_below [of "get_index t key i" s t "level_count t - i - 1"] lt s(5) by fastforce
  then show ?thesis by (simp add: s(1))
qed

lemma skip_single_correct:
  assumes "path_ok t key ps i" "skip_single ps (i - 1) = (ps', l)"
  shows "pred_up t key ps (i - 1) = pred_up t key ps' l \<and>
    (ps' = [] \<or> (\<exists>x xs. ps' = x # xs \<and> node_at t l x \<and> path_ok t key xs l))"
  using assms
proof (induction t key ps i rule: path_ok.induct)
  case (3 t key p ps i)
  then show ?case
    using pred_up_single [of t i p key ps] by (cases "node_count p = 1") auto
qed auto

lemma radix_tree_previous_correct:
  assumes "\<And>x xs. ps = x # xs \<Longrightarrow> node_at t i x \<and> path_ok t key xs i"
  shows "radix_tree_previous t ps key i = Some (pointer (pred_up t key ps i))"
  using assms
proof (induction t ps key i rule: radix_tree_previous.induct)
  case (2 t node ps key i)
  then have node: "node_at t i node" "path_ok t key ps i" by auto
  then obtain c s where s: "node = Node c s" "length s = 2 ^ bits_per_level t"
    "i + Suc (level_count t - i - 1) = level_count t" "\<forall>y\<in>set s. y = Null \<or> last_ok t (level_count t - i - 1) y"
    using node_atD [OF node(1)] by blast
  define q where "q = get_index t key i"
  have q: "q < length s" using get_index_lt [OF s(3)] s(2) by (simp add: q_def)
  obtain ps' l where sk: "skip_single ps (i - 1) = (ps', l)" by force
  have ih: "radix_tree_previous t ps' key l = Some (pointer (pred_up t key ps' l))" if "scan_down s q = Some None"
    using 2(1) [of "(c, s)" c s None] that s(1) skip_single_correct [OF node(2) sk] sk by (auto simp: q_def)
  show ?case
    using scan_down_below [of q s t "level_count t - i - 1"] q s(1,4) ih skip_single_correct [OF node(2) sk] sk
    by (auto simp: radix_tree_last_def simp flip: q_def)
qed simp

lemma lookup_loop_prev:
  assumes "i + n = level_count t" "shape (bits_per_level t) n node" "counted node" "path_ok t key ps i"
  shows "lookup_loop t key True n i node ps =
    Some (pointer (or_else_opt (pred_at (rmap (bits_per_level t) n node) (part (bits_per_level t) n key))
      (pred_up t key ps (i - 1))))"
  using assms
proof (induction n arbitrary: i node ps)
  case 0
  then show ?case by (auto simp: shape_0 part_def)
next
  case (Suc n)
  have "level_count t - i = Suc n" using Suc.prems(1) by simp
  then have node: "node_at t i node" using Suc.prems by (simp add: node_at.simps)
  obtain c s where s: "node = Node c s" "length s = 2 ^ bits_per_level t"
    "\<And>y. y \<in> set s \<Longrightarrow> y = Null \<or> shape (bits_per_level t) n y \<and> counted y"
    using Suc.prems(2,3) by (fastforce simp: shape_Suc)
  define q where "q = get_index t key i"
  have q: "q < length s" using get_index_lt [OF Suc.prems(1)] s(2) by (simp add: q_def)
  have n: "level_count t - Suc i = n" using Suc.prems(1) by simp
  have "part (bits_per_level t) (Suc n) key = q * 2 ^ (bits_per_level t * n) + part (bits_per_level t) n key"
    using div_mult_mod_eq [of "part (bits_per_level t) (Suc n) key" "2 ^ (bits_per_level t * n)"]
    by (simp only: part_Suc_mod q_def get_index_digit [OF Suc.prems(1)])
  then have p: "pred_at (rmap (bits_per_level t) (Suc n) node) (part (bits_per_level t) (Suc n) key) =
      or_else_opt (pred_at (rmap (bits_per_level t) n (s ! q)) (part (bits_per_level t) n key))
        (below (bits_per_level t) n s q)"
    using pred_at_node [OF q part_lt] by (simp only: s(1))
  show ?case
  proof (cases "s ! q = Null")
    case True
    then show ?thesis
      using radix_tree_previous_correct [of "node # ps" t i key] node Suc.prems(4) q p s(1)
      by (simp add: n del: rmap.simps flip: q_def split: option.split)
  next
    case False
    then have "shape (bits_per_level t) n (s ! q)" "counted (s ! q)" using s(3) [OF nth_mem [OF q]] by auto
    then have "lookup_loop t key True n (Suc i) (s ! q) (node # ps) =
      Some (pointer (or_else_opt (pred_at (rmap (bits_per_level t) n (s ! q)) (part (bits_per_level t) n key))
        (pred_up t key (node # ps) i)))"
      using Suc.IH [of "Suc i" "s ! q" "node # ps", unfolded diff_Suc_1] Suc.prems(1,4) node False s(1) by (simp flip: q_def)
    then show ?thesis using q p s(1) False by (simp add: n del: rmap.simps flip: q_def split: option.split)
  qed
qed

section \<open>Removal\<close>

text \<open>What \<open>radix_tree_remove\<close> leaves of a node, read from the root down.\<close>

primrec removed :: "'v radix_tree \<Rightarrow> u64 \<Rightarrow> nat \<Rightarrow> nat \<Rightarrow> 'v rnode \<Rightarrow> 'v rnode" where
  "removed t key 0 i node =
     Node (node_count node - 1) ((node_slots node)[get_index t key i := Null])"
| "removed t key (Suc n) i node =
     (let x' = removed t key n (i + 1) (node_slots node ! get_index t key i) in
      if node_count x' = 0 then Node (node_count node - 1) ((node_slots node)[get_index t key i := Null])
      else Node (node_count node) ((node_slots node)[get_index t key i := x']))"

definition finish :: "'v radix_tree \<Rightarrow> u64 \<Rightarrow> 'v rnode list \<Rightarrow> nat \<Rightarrow> 'v rnode \<Rightarrow> 'v rnode option" where
  "finish t key ps i x =
     (if node_count x = 0 \<and> ps \<noteq> [] then free_slot t ps key (i - 1) else rebuild t ps key (i - 1) x)"

lemma remove_loop_removed:
  assumes "i + Suc n = level_count t" "shape (bits_per_level t) (Suc n) node" "counted node"
    and "rmap (bits_per_level t) (Suc n) node (part (bits_per_level t) (Suc n) key) \<noteq> None"
  shows "remove_loop t key n i node ps = finish t key ps i (removed t key n i node)"
  using assms
proof (induction n arbitrary: i node ps)
  case 0
  then show ?case using get_index_lt [OF 0(1), of key] by (auto simp: shape_Suc write_at_def finish_def)
next
  case (Suc n)
  then obtain c s where s: "node = Node c s" "length s = 2 ^ bits_per_level t" "counted (Node c s)"
    "\<forall>y\<in>set s. y = Null \<or> shape (bits_per_level t) (Suc n) y" by (auto simp: shape_Suc)
  define q where "q = get_index t key i"
  have q: "q < length s" using get_index_lt [OF Suc.prems(1)] s(2) by (simp add: q_def)
  have m: "rmap (bits_per_level t) (Suc n) (s ! q) (part (bits_per_level t) (Suc n) key) \<noteq> None"
    using Suc.prems(4) rmap_part [OF Suc.prems(1) s(2), of c key] by (simp only: s(1) q_def) simp
  then have nn: "s ! q \<noteq> Null" by auto
  then have sub: "shape (bits_per_level t) (Suc n) (s ! q)" "counted (s ! q)" using s(3,4) q by auto
  have c: "c \<noteq> 0" using s(3) q nn by (auto simp: used_def filter_empty_conv)
  have "remove_loop t key n (Suc i) (s ! q) (node # ps) =
      finish t key (node # ps) (Suc i) (removed t key n (Suc i) (s ! q))"
    using Suc.IH [OF _ sub m, of "Suc i"] Suc.prems(1) by simp
  then show ?case
    using q c nn by (simp add: s(1) finish_def write_at_def Let_def flip: q_def)
qed

lemma counted_empty: "shape b (Suc n) x \<Longrightarrow> counted x \<Longrightarrow> node_count x = 0 \<Longrightarrow> rmap b (Suc n) x = (\<lambda>_. None)"
  by (rule ext) (auto simp: shape_Suc used_def filter_empty_conv all_set_conv_all_nth)

lemma removed_correct:
  assumes "i + Suc n = level_count t" "shape (bits_per_level t) (Suc n) node" "counted node"
    and "rmap (bits_per_level t) (Suc n) node (part (bits_per_level t) (Suc n) key) \<noteq> None"
  shows "shape (bits_per_level t) (Suc n) (removed t key n i node) \<and> counted (removed t key n i node) \<and>
    rmap (bits_per_level t) (Suc n) (removed t key n i node) =
      (rmap (bits_per_level t) (Suc n) node)(part (bits_per_level t) (Suc n) key := None)"
  using assms
proof (induction n arbitrary: i node)
  case 0
  then obtain c s where s: "node = Node c s" "length s = 2 ^ bits_per_level t" "counted (Node c s)"
    "\<forall>y\<in>set s. y = Null \<or> shape (bits_per_level t) 0 y" by (auto simp: shape_Suc)
  define q where "q = get_index t key i"
  have q: "q < length s" using get_index_lt [OF 0(1)] s(2) by (simp add: q_def)
  have "s ! q \<noteq> Null" using 0(4) rmap_part [OF 0(1) s(2), of c key] by (auto simp: s(1) q_def simp del: rmap.simps)
  moreover have "k = part (bits_per_level t) (Suc 0) key \<longleftrightarrow> k = q" for k
    using part_unique [OF 0(1), of k key] by (simp add: q_def part_def)
  ultimately show ?case
    using s q used_update [OF q, of Null]
    by (auto simp: q_def [symmetric] shape_Suc dest!: subsetD [OF set_update_subset_insert])
next
  case (Suc n)
  then obtain c s where s: "node = Node c s" "length s = 2 ^ bits_per_level t" "counted (Node c s)"
    "\<forall>y\<in>set s. y = Null \<or> shape (bits_per_level t) (Suc n) y" by (auto simp: shape_Suc)
  define q where "q = get_index t key i"
  have q: "q < length s" using get_index_lt [OF Suc.prems(1)] s(2) by (simp add: q_def)
  have m: "rmap (bits_per_level t) (Suc n) (s ! q) (part (bits_per_level t) (Suc n) key) \<noteq> None"
    using Suc.prems(4) rmap_part [OF Suc.prems(1) s(2), of c key] by (simp only: s(1) q_def) simp
  then have nn: "s ! q \<noteq> Null" by auto
  then have sub: "shape (bits_per_level t) (Suc n) (s ! q)" "counted (s ! q)" using s(3,4) q by auto
  have level: "Suc i + Suc n = level_count t" using Suc.prems(1) by simp
  define x' where "x' = removed t key n (Suc i) (s ! q)"
  have x': "shape (bits_per_level t) (Suc n) x'" "counted x'"
    "rmap (bits_per_level t) (Suc n) x' =
      (rmap (bits_per_level t) (Suc n) (s ! q))(part (bits_per_level t) (Suc n) key := None)"
    using Suc.IH [OF level sub m] unfolding x'_def by blast+
  define y where "y = (if node_count x' = 0 then Null else x')"
  have y: "rmap (bits_per_level t) (Suc n) y = rmap (bits_per_level t) (Suc n) x'" "counted y" "live y"
    "y = Null \<or> shape (bits_per_level t) (Suc n) y" "y = Null \<longleftrightarrow> node_count x' = 0"
    using x' counted_empty [OF x'(1,2)] shape_neq_Null [OF x'(1)]
    by (auto simp: y_def fun_eq_iff simp del: rmap.simps(2)) (auto simp: shape_Suc)
  define c' where "c' = (if node_count x' = 0 then c - 1 else c)"
  have r: "removed t key (Suc n) i node = Node c' (s[q := y])"
    by (simp add: s(1) Let_def y_def c'_def flip: q_def x'_def)
  have "shape (bits_per_level t) (Suc (Suc n)) (Node c' (s[q := y]))"
    using s(2,4) y(4) by (auto simp: shape_Suc [of _ "Suc n"] dest!: subsetD [OF set_update_subset_insert])
  moreover have "counted (Node c' (s[q := y]))"
    using s(3) y(2,3,5) nn used_update [OF q, of y]
    by (auto simp: c'_def dest!: subsetD [OF set_update_subset_insert])
  moreover have "rmap (bits_per_level t) (Suc (Suc n)) (Node c' (s[q := y])) k =
      ((rmap (bits_per_level t) (Suc (Suc n)) node)(part (bits_per_level t) (Suc (Suc n)) key := None)) k" for k
    using part_unique [OF Suc.prems(1), of k key] q
    by (cases "k div 2 ^ (bits_per_level t * Suc n) = q")
       (simp_all add: s(1) rmap_update [OF q, of _ _ _ _ _ c] rmap_step x'(3) y(1) q_def [symmetric]
        del: rmap.simps(2) mult_Suc_right)
  ultimately show ?case unfolding r by blast
qed

section \<open>The operations on a whole tree\<close>

lemma part_whole: "rt_key t key \<Longrightarrow> part (bits_per_level t) (level_count t) key = unat key"
  by (simp add: rt_key_def part_def)

lemma rt_levels: "rt_inv t \<Longrightarrow> \<exists>n. level_count t = Suc n"
  by (cases "level_count t") (auto simp: rt_inv_def rt_wf_def)

lemma alloc_radix_tree_inv:
  assumes "0 < bits" "bits < 31" "bits < key_bits" "key_bits \<le> 64"
  shows "\<exists>t :: 'v radix_tree. alloc_radix_tree True True bits key_bits = Some (Some t) \<and> rt_inv t \<and> rt_map t = (\<lambda>_. None) \<and>
    bits_per_level t = bits \<and> key_bits \<le> bits_per_level t * level_count t"
proof -
  define l where "l = (key_bits + bits - 1) div bits"
  define t :: "'v radix_tree" where
    "t = \<lparr>rt_root = Null, bits_per_level = bits, level_count = l\<rparr>"
  have "key_bits \<le> bits * l" unfolding l_def
    using assms(1) dividend_less_div_times [of bits "key_bits + bits - 1"] by (simp add: algebra_simps)
  moreover have "0 < l" using assms by (simp add: l_def div_greater_zero_iff)
  then obtain n where "l = Suc n" by (cases l) auto
  moreover have "alloc_radix_tree True True bits key_bits = Some (Some (t\<lparr>rt_root := alloc_radix_tree_node t\<rparr>))"
    using assms by (simp add: alloc_radix_tree_def c_assert_def Let_def t_def l_def)
  moreover have "bits_per_level t = bits" "level_count t = l" by (simp_all add: t_def)
  ultimately show ?thesis
    using assms alloc_node_facts(1,2) [of t n] alloc_node_facts(3) [of t]
    by (auto simp: rt_inv_def rt_wf_def rt_map_def simp del: rmap.simps)
qed

lemma lookup_correct:
  "rt_wf t \<Longrightarrow> rt_key t key \<Longrightarrow> radix_tree_lookup t key = Some (pointer (rt_map t (unat key)))"
  using lookup_loop_plain [of 0 "level_count t" t "rt_root t" key "[]"]
  by (auto simp: radix_tree_lookup_def radix_tree_lookup_gen_def rt_wf_def rt_map_def part_whole split: option.splits)

lemma lookup_prev_correct:
  "rt_inv t \<Longrightarrow> rt_key t key \<Longrightarrow> radix_tree_lookup_prev t key = Some (pointer (pred_at (rt_map t) (unat key)))"
  using lookup_loop_prev [of 0 "level_count t" t "rt_root t" key "[]"]
  by (auto simp: radix_tree_lookup_prev_def radix_tree_lookup_gen_def rt_inv_def rt_wf_def rt_map_def part_whole
      split: option.splits)

lemma insert_correct:
  assumes "rt_wf t" "rt_key t key" "\<And>i. mem i"
  shows "\<exists>t'. radix_tree_insert mem t key v = Some (0, t') \<and> rt_wf t' \<and> rt_map t' = (rt_map t)(unat key \<mapsto> v) \<and>
    bits_per_level t' = bits_per_level t \<and> level_count t' = level_count t \<and>
    (rt_inv t \<longrightarrow> rt_map t (unat key) = None \<longrightarrow> rt_inv t')"
proof -
  obtain n where n: "level_count t = Suc n" using assms(1) by (cases "level_count t") (auto simp: rt_wf_def)
  then have pre: "0 + Suc n = level_count t" "shape (bits_per_level t) (Suc n) (rt_root t)"
    using assms(1) by (simp_all add: rt_wf_def)
  obtain node' where node': "insert_loop t mem key v n 0 (rt_root t) = Some (0, node')"
    "shape (bits_per_level t) (Suc n) node'"
    "rmap (bits_per_level t) (Suc n) node' =
      (rmap (bits_per_level t) (Suc n) (rt_root t))(part (bits_per_level t) (Suc n) key \<mapsto> v)"
    "counted (rt_root t) \<and> rmap (bits_per_level t) (Suc n) (rt_root t) (part (bits_per_level t) (Suc n) key) = None
      \<longrightarrow> counted node' \<and> live node'"
    using insert_loop_correct [where mem = mem, OF pre assms(3), of key v] by (elim exE conjE) (rule that; assumption)
  have "radix_tree_insert mem t key v = Some (0, t\<lparr>rt_root := node'\<rparr>)"
    using node'(1) n by (simp add: radix_tree_insert_def)
  then show ?thesis
    using node'(2-4) assms(1) part_whole [OF assms(2)] n
    by (auto simp: rt_inv_def rt_wf_def rt_map_def simp del: rmap.simps)
qed

lemma remove_correct:
  assumes "rt_inv t" "rt_key t key" "rt_map t (unat key) \<noteq> None"
  shows "\<exists>t'. radix_tree_remove t key = Some t' \<and> rt_inv t' \<and> rt_map t' = (rt_map t)(unat key := None) \<and>
    bits_per_level t' = bits_per_level t \<and> level_count t' = level_count t"
proof -
  obtain n where n: "level_count t = Suc n" using rt_levels [OF assms(1)] by blast
  then have pre: "0 + Suc n = level_count t" "shape (bits_per_level t) (Suc n) (rt_root t)" "counted (rt_root t)"
    "rmap (bits_per_level t) (Suc n) (rt_root t) (part (bits_per_level t) (Suc n) key) \<noteq> None"
    using assms part_whole [OF assms(2)] by (auto simp: rt_inv_def rt_wf_def rt_map_def simp del: rmap.simps)
  have "radix_tree_remove t key = Some (t\<lparr>rt_root := removed t key n 0 (rt_root t)\<rparr>)"
    using remove_loop_removed [OF pre, of "[]"] n by (simp add: radix_tree_remove_def finish_def)
  then show ?thesis
    using removed_correct [OF pre] assms(1) part_whole [OF assms(2)] n
    by (auto simp: rt_inv_def rt_wf_def rt_map_def simp del: rmap.simps)
qed

section \<open>The map from code addresses to compilation units\<close>

definition init_cu_mapping :: "bool \<Rightarrow> bool \<Rightarrow> 'v radix_tree option" where
  "init_cu_mapping mem mem' = do { t \<leftarrow> alloc_radix_tree mem mem' 6 64; t }"

definition add_cu_mapping :: "(nat \<Rightarrow> bool) \<Rightarrow> 'v radix_tree \<Rightarrow> u64 \<Rightarrow> 'v \<Rightarrow> (int \<times> 'v radix_tree) option" where
  "add_cu_mapping mem cu_map addr cu = radix_tree_insert mem cu_map addr cu"

definition remove_cu_mapping :: "'v radix_tree \<Rightarrow> u64 \<Rightarrow> 'v radix_tree option" where
  "remove_cu_mapping cu_map addr = radix_tree_remove cu_map addr"

definition jit_lookup_cu :: "'v radix_tree \<Rightarrow> u64 \<Rightarrow> 'v rnode option" where
  "jit_lookup_cu cu_map addr = radix_tree_lookup_prev cu_map addr"

text \<open>The code of the compiled methods over time: a method is added with the address and the length of its code,
  which does not overlap the code of a method that is there, and removed by its address. \<open>code_run\<close> is the list of
  the methods that are there after a sequence of such events, if every event is legal.\<close>

datatype 'v code_event = Add_code u64 nat 'v | Remove_code u64

type_synonym 'v region = "nat \<times> nat \<times> 'v"

fun apart :: "nat \<Rightarrow> nat \<Rightarrow> 'v region \<Rightarrow> bool" where
  "apart a n (a', n', c) = (a + n \<le> a' \<or> a' + n' \<le> a)"

fun code_step :: "'v code_event \<Rightarrow> 'v region list \<Rightarrow> 'v region list option" where
  "code_step (Add_code a n c) rs =
     (if 0 < n \<and> list_all (apart (unat a) n) rs then Some ((unat a, n, c) # rs) else None)"
| "code_step (Remove_code a) rs =
     (if unat a \<in> fst ` set rs then Some (filter (\<lambda>r. fst r \<noteq> unat a) rs) else None)"

fun code_run :: "'v code_event list \<Rightarrow> 'v region list \<Rightarrow> 'v region list option" where
  "code_run [] rs = Some rs"
| "code_run (e # es) rs = do { rs' \<leftarrow> code_step e rs; code_run es rs' }"

fun apply_events ::
  "('t \<Rightarrow> u64 \<Rightarrow> 'v \<Rightarrow> 't option) \<Rightarrow> ('t \<Rightarrow> u64 \<Rightarrow> 't option) \<Rightarrow> 'v code_event list \<Rightarrow> 't \<Rightarrow> 't option"
where
  "apply_events add remove [] t = Some t"
| "apply_events add remove (Add_code a n c # es) t = do { t' \<leftarrow> add t a c; apply_events add remove es t' }"
| "apply_events add remove (Remove_code a # es) t = do { t' \<leftarrow> remove t a; apply_events add remove es t' }"

definition starts :: "'v region list \<Rightarrow> nat \<Rightarrow> 'v option" where
  "starts rs = map_of (map (\<lambda>(a, n, c). (a, c)) rs)"

fun regions_ok :: "'v region list \<Rightarrow> bool" where
  "regions_ok [] = True"
| "regions_ok ((a, n, c) # rs) = (0 < n \<and> list_all (apart a n) rs \<and> regions_ok rs)"

lemma regions_ok_filter: "regions_ok rs \<Longrightarrow> regions_ok (filter P rs)"
  by (induction rs rule: regions_ok.induct) (auto simp: list_all_iff)

lemma code_step_ok: "regions_ok rs \<Longrightarrow> code_step e rs = Some rs' \<Longrightarrow> regions_ok rs'"
  by (cases e) (auto simp: regions_ok_filter split: if_splits)

lemma regions_start_unique:
  "regions_ok rs \<Longrightarrow> (a, n, c) \<in> set rs \<Longrightarrow> 0 < n \<and> starts rs a = Some c"
  by (induction rs rule: regions_ok.induct) (auto simp: starts_def list_all_iff dest: bspec)

lemma starts_simps [simp]:
  "starts [] x = None" "starts ((a, n, c) # rs) x = (if x = a then Some c else starts rs x)"
  by (auto simp: starts_def)

lemma starts_apart:
  "regions_ok rs \<Longrightarrow> list_all (apart a n) rs \<Longrightarrow> a \<le> b \<Longrightarrow> b < a + n \<Longrightarrow> starts rs b = None"
  by (induction rs rule: regions_ok.induct) auto

lemma regions_apart:
  "regions_ok rs \<Longrightarrow> (a, n, c) \<in> set rs \<Longrightarrow> a < b \<Longrightarrow> b < a + n \<Longrightarrow> starts rs b = None"
proof (induction rs rule: regions_ok.induct)
  case (2 a' n' c' rs)
  show ?case
  proof (cases "(a, n, c) = (a', n', c')")
    case True
    then show ?thesis using 2 starts_apart [of rs a n b] by auto
  next
    case False
    then have "apart a' n' (a, n, c)" using 2 by (auto simp: list_all_iff)
    then show ?thesis using 2 False by auto
  qed
qed simp

lemma starts_remove: "starts (filter (\<lambda>r. fst r \<noteq> a) rs) = (starts rs)(a := None)"
  by (rule ext) (induction rs, auto simp: starts_def)

text \<open>The interface: a map on 64-bit keys with a predecessor query, whose updates may not overwrite an entry or
  remove an absent one.\<close>

locale pred_map =
  fixes inv :: "'t \<Rightarrow> bool"
    and contents :: "'t \<Rightarrow> nat \<Rightarrow> 'v option"
    and add :: "'t \<Rightarrow> u64 \<Rightarrow> 'v \<Rightarrow> 't option"
    and remove :: "'t \<Rightarrow> u64 \<Rightarrow> 't option"
    and prev :: "'t \<Rightarrow> u64 \<Rightarrow> 'v option option"
  assumes add: "inv t \<Longrightarrow> contents t (unat k) = None \<Longrightarrow>
      \<exists>t'. add t k v = Some t' \<and> inv t' \<and> contents t' = (contents t)(unat k \<mapsto> v)"
    and remove: "inv t \<Longrightarrow> contents t (unat k) \<noteq> None \<Longrightarrow>
      \<exists>t'. remove t k = Some t' \<and> inv t' \<and> contents t' = (contents t)(unat k := None)"
    and prev: "inv t \<Longrightarrow> prev t k = Some (pred_at (contents t) (unat k))"
begin

definition tracks :: "'t \<Rightarrow> 'v region list \<Rightarrow> bool" where
  "tracks t rs \<longleftrightarrow> inv t \<and> contents t = starts rs \<and> regions_ok rs"

lemma apply_event_tracks:
  assumes "tracks t rs" "code_step e rs = Some rs'"
  shows "\<exists>t'. apply_events add remove [e] t = Some t' \<and> tracks t' rs'"
proof (cases e)
  case (Add_code a n c)
  then have "contents t (unat a) = None" "rs' = (unat a, n, c) # rs"
    using assms starts_apart [of rs "unat a" n "unat a"] by (auto simp: tracks_def split: if_splits)
  then show ?thesis
    using add [of t a c] assms code_step_ok [OF _ assms(2)] Add_code
    by (auto simp: tracks_def fun_eq_iff)
next
  case (Remove_code a)
  then obtain n c where "(unat a, n, c) \<in> set rs" and rs': "rs' = filter (\<lambda>r. fst r \<noteq> unat a) rs"
    using assms(2) by (auto split: if_splits)
  then have "contents t (unat a) \<noteq> None"
    using assms(1) regions_start_unique by (fastforce simp: tracks_def)
  then show ?thesis
    using remove [of t a] assms code_step_ok [OF _ assms(2)] Remove_code rs'
    by (auto simp: tracks_def starts_remove)
qed

lemma apply_events_tracks:
  "tracks t rs \<Longrightarrow> code_run es rs = Some rs' \<Longrightarrow> \<exists>t'. apply_events add remove es t = Some t' \<and> tracks t' rs'"
proof (induction es arbitrary: t rs)
  case (Cons e es)
  then obtain rs1 where rs1: "code_step e rs = Some rs1" "code_run es rs1 = Some rs'"
    by (auto simp: bind_eq_Some_conv)
  then obtain t1 where "apply_events add remove [e] t = Some t1" "tracks t1 rs1"
    using apply_event_tracks Cons.prems(1) by blast
  then show ?case using Cons.IH [OF _ rs1(2)] by (cases e) (auto simp: bind_eq_Some_conv)
qed auto

lemma attribution:
  assumes "tracks t rs" "(a, n, c) \<in> set rs" "a \<le> unat pc" "unat pc < a + n"
  shows "prev t pc = Some (Some c)"
proof -
  have "pred_at (starts rs) (unat pc) = Some c"
    unfolding pred_at_Some
    using assms(1,3,4) regions_apart [OF _ assms(2)] regions_start_unique [OF _ assms(2)]
    by (intro exI [of _ a]) (auto simp: tracks_def)
  then show ?thesis using prev assms(1) by (simp add: tracks_def)
qed

end

text \<open>The tree of the compilation units is such a map.\<close>

definition cu_inv :: "'v radix_tree \<Rightarrow> bool" where
  "cu_inv t \<longleftrightarrow> rt_inv t \<and> 64 \<le> bits_per_level t * level_count t"

definition cu_add :: "'v radix_tree \<Rightarrow> u64 \<Rightarrow> 'v \<Rightarrow> 'v radix_tree option" where
  "cu_add t a c = (case add_cu_mapping (\<lambda>_. True) t a c of Some (r, t') \<Rightarrow> if r = 0 then Some t' else None | None \<Rightarrow> None)"

fun value_of :: "'v rnode \<Rightarrow> 'v option" where
  "value_of (Value v) = Some v"
| "value_of _ = None"

lemma cu_inv_key: "cu_inv t \<Longrightarrow> rt_key t k"
proof -
  assume "cu_inv t"
  then have "(2 :: nat) ^ 64 \<le> 2 ^ (bits_per_level t * level_count t)" by (simp only: cu_inv_def power_increasing)
  then show ?thesis using unat_lt_pow [of k] by (simp add: rt_key_def)
qed

interpretation cu: pred_map cu_inv rt_map cu_add remove_cu_mapping
  "\<lambda>t a. map_option value_of (jit_lookup_cu t a)"
proof unfold_locales
  fix t :: "'v radix_tree" and k :: u64 and v :: 'v
  assume inv: "cu_inv t"
  note key = cu_inv_key [OF inv, of k]
  show "map_option value_of (jit_lookup_cu t k) = Some (pred_at (rt_map t) (unat k))"
    using lookup_prev_correct [of t k] inv key
    by (auto simp: jit_lookup_cu_def cu_inv_def split: option.split)
  show "\<exists>t'. cu_add t k v = Some t' \<and> cu_inv t' \<and> rt_map t' = (rt_map t)(unat k \<mapsto> v)"
    if "rt_map t (unat k) = None"
    using insert_correct [of t k "\<lambda>_. True" v] inv key that
    by (auto simp: cu_add_def add_cu_mapping_def cu_inv_def rt_inv_def)
  show "\<exists>t'. remove_cu_mapping t k = Some t' \<and> cu_inv t' \<and> rt_map t' = (rt_map t)(unat k := None)"
    if "rt_map t (unat k) \<noteq> None"
    using remove_correct [of t k] inv key that by (auto simp: remove_cu_mapping_def cu_inv_def)
qed

lemma init_cu_mapping_tracks:
  "\<exists>t :: 'v radix_tree. init_cu_mapping True True = Some t \<and> cu.tracks t []"
proof -
  obtain t :: "'v radix_tree" where t: "alloc_radix_tree True True 6 64 = Some (Some t)" "rt_inv t"
      "rt_map t = (\<lambda>_. None)" "64 \<le> bits_per_level t * level_count t"
    using alloc_radix_tree_inv [of 6 64] by force
  then show ?thesis
    by (intro exI [of _ t]) (auto simp: init_cu_mapping_def cu.tracks_def cu_inv_def)
qed

section \<open>Properties\<close>

text \<open>C16: Both queries of a well-formed tree answer for the map the tree stands for: \<open>radix_tree_lookup\<close> gives the
  value of the key or \<open>NULL\<close>, and \<open>radix_tree_lookup_prev\<close>, with its walk up the parents that skips the nodes with a
  single used slot, gives the value of the greatest key that is not above the one asked for.\<close>

theorem radix_tree_queries_correct:
  assumes "rt_inv t" "rt_key t key"
  shows "radix_tree_lookup t key = Some (pointer (rt_map t (unat key))) \<and>
    radix_tree_lookup_prev t key = Some (pointer (pred_at (rt_map t) (unat key)))"
  using assms lookup_correct lookup_prev_correct by (auto simp: rt_inv_def)

definition example_tree :: "nat radix_tree" where
  "example_tree = \<lparr>rt_root = Node 2 [Node 1 [Null, Value 7, Null, Null], Null, Node 1 [Value 8, Null, Null, Null], Null],
     bits_per_level = 2, level_count = 2\<rparr>"

theorem radix_tree_queries_correct_witness:
  "radix_tree_lookup example_tree 6 = Some Null \<and> radix_tree_lookup_prev example_tree 6 = Some (Value 7)"
proof -
  have "rt_inv example_tree" "rt_key example_tree 6" by code_simp+
  moreover have "rt_map example_tree 6 = None" "pred_at (rt_map example_tree) 6 = Some 7" by code_simp+
  ultimately show ?thesis using radix_tree_queries_correct [of example_tree 6] by simp
qed

text \<open>C9: The updates of the tree keep its invariant and update the map: inserting a key that is absent adds
  exactly that entry, with the nodes on the way allocated and counted; removing a key that is present deletes
  exactly that entry, and frees the nodes that become empty up to the root.\<close>

theorem radix_tree_updates_correct:
  assumes "rt_inv t" "rt_key t key" "\<And>i. mem i"
  shows "(rt_map t (unat key) = None \<longrightarrow>
      (\<exists>t'. radix_tree_insert mem t key v = Some (0, t') \<and> rt_inv t' \<and> rt_map t' = (rt_map t)(unat key \<mapsto> v))) \<and>
    (rt_map t (unat key) \<noteq> None \<longrightarrow>
      (\<exists>t'. radix_tree_remove t key = Some t' \<and> rt_inv t' \<and> rt_map t' = (rt_map t)(unat key := None)))"
  using assms insert_correct [of t key mem v] remove_correct [of t key] unfolding rt_inv_def by blast

theorem radix_tree_updates_correct_witness:
  "(\<exists>t'. radix_tree_insert (\<lambda>_. True) example_tree 6 9 = Some (0, t') \<and> rt_map t' 6 = Some 9) \<and>
   (\<exists>t'. radix_tree_remove example_tree 8 = Some t' \<and> rt_map t' 8 = None \<and> rt_map t' 1 = Some 7)"
proof -
  have "rt_inv example_tree" "rt_key example_tree 6" "rt_key example_tree 8" by code_simp+
  moreover have "rt_map example_tree 6 = None" "rt_map example_tree 8 = Some 8" "rt_map example_tree 1 = Some 7"
    by code_simp+
  ultimately show ?thesis
    using radix_tree_updates_correct [of example_tree 6 "\<lambda>_. True" 9]
      radix_tree_updates_correct [of example_tree 8 "\<lambda>_. True"] by auto
qed

text \<open>C7: The attribution of native addresses: start from the initial map and add and remove the code of
  compiled methods in any order, as long as the code of the methods that are there at the same time does not
  overlap. Then no update fails, and \<open>jit_lookup_cu\<close> of an address inside the code of a method that is there is
  that method.\<close>

theorem jit_lookup_cu_attribution:
  fixes c :: 'v
  assumes "code_run es [] = Some rs" "(a, n, c) \<in> set rs" "a \<le> unat pc" "unat pc < a + n"
  shows "\<exists>t0 t. init_cu_mapping True True = Some t0 \<and> apply_events cu_add remove_cu_mapping es t0 = Some t \<and>
    jit_lookup_cu t pc = Some (Value c)"
proof -
  obtain t0 :: "'v radix_tree" where t0: "init_cu_mapping True True = Some t0" "cu.tracks t0 []"
    using init_cu_mapping_tracks by blast
  then obtain t where t: "apply_events cu_add remove_cu_mapping es t0 = Some t" "cu.tracks t rs"
    using cu.apply_events_tracks assms(1) by blast
  obtain x where "jit_lookup_cu t pc = Some x" "value_of x = Some c"
    using cu.attribution [OF t(2) assms(2-4)] by auto
  then show ?thesis using t0(1) t(1) by (cases x) auto
qed

theorem jit_lookup_cu_attribution_witness:
  "\<exists>t0 t. init_cu_mapping True True = Some t0 \<and>
     apply_events cu_add remove_cu_mapping
       [Add_code 0x1000 64 (1 :: nat), Add_code 0x1040 32 2, Remove_code 0x1000, Add_code 0x1000 16 3] t0 = Some t \<and>
     jit_lookup_cu t 0x1004 = Some (Value 3)"
proof -
  have "code_run [Add_code 0x1000 64 (1 :: nat), Add_code 0x1040 32 2, Remove_code 0x1000, Add_code 0x1000 16 3] [] =
      Some [(0x1000, 16, 3), (0x1040, 32, 2)]" by simp
  then show ?thesis by (rule jit_lookup_cu_attribution [where a = "0x1000" and n = 16]) simp_all
qed

text \<open>The counts are exact only if no key is inserted twice and no absent key is removed: \<open>radix_tree_insert\<close>
  counts a slot again when it overwrites it, and \<open>radix_tree_remove\<close> counts down without a look at the slot. Then a
  removal can drop the entry of another key, and an empty node can stay and hide the entries before it.\<close>

lemma radix_tree_remove_absent_drops:
  "radix_tree_lookup example_tree 1 = Some (Value 7) \<and>
   do { t \<leftarrow> radix_tree_remove example_tree 2; radix_tree_lookup t 1 } = Some Null"
  by code_simp

lemma radix_tree_insert_twice_hides:
  "do { (r, t) \<leftarrow> radix_tree_insert (\<lambda>_. True) example_tree 6 9;
        (r, t) \<leftarrow> radix_tree_insert (\<lambda>_. True) t 6 10;
        t \<leftarrow> radix_tree_remove t 6;
        t \<leftarrow> radix_tree_remove t 8;
        x \<leftarrow> radix_tree_lookup t 1;
        y \<leftarrow> radix_tree_lookup_prev t 12;
        Some (x, y) } = Some (Value 7, Null)"
  by code_simp

end
