(* ===== verification/Hash_Map.thy ===== *)
theory Hash_Map
  imports Jato_Prelude
begin

text \<open>
  The chained hash table of \<open>lib/hash-map.c\<close> (\<open>include/lib/hash-map.h\<close>). The table is the list of its buckets and a
  bucket is the list of its entries in the order of the linked list, newest first. The two function pointers of
  \<open>struct key_operations\<close> that the table relies on are the fields of a record; \<open>final_process\<close> is modelled by the
  values that are handed to it.

  Shown, for key operations whose \<open>equals\<close> is an equivalence that \<open>hash\<close> respects (the locale \<open>key_contract\<close>,
  interpreted on \<open>pointer_key\<close> and \<open>string_key\<close>): the table refines a finite map, through every resize.
\<close>

section \<open>The table\<close>

record 'k key_operations =
  key_hash :: "'k \<Rightarrow> u64"
  key_equals :: "'k \<Rightarrow> 'k \<Rightarrow> bool"
  has_final_process :: bool

record ('k, 'v) hash_map_entry =
  ent_hash :: u64
  ent_key :: 'k
  ent_value :: 'v

record ('k, 'v) hash_map =
  key_ops :: "'k key_operations"
  map_size :: nat
  resize_at :: nat
  map_table :: "('k, 'v) hash_map_entry list list"
  table_size :: nat

definition DEFAULT_CAPACITY :: nat where
  "DEFAULT_CAPACITY = 16"

text \<open>\<open>n * 0.75\<close>, computed in \<open>double\<close> and truncated; exact for every size below \<open>2 ^ 52\<close>.\<close>

definition three_quarters :: "nat \<Rightarrow> nat" where
  "three_quarters n = 3 * n div 4"

definition alloc_hash_map_with_size ::
  "bool \<Rightarrow> bool \<Rightarrow> nat \<Rightarrow> 'k key_operations \<Rightarrow> ('k, 'v) hash_map option"
where
  "alloc_hash_map_with_size mem mem' initial_size ops =
     (if \<not> mem then None
      else if \<not> mem' then None
      else Some \<lparr>key_ops = ops, map_size = 0, resize_at = three_quarters initial_size,
                map_table = replicate initial_size [], table_size = initial_size\<rparr>)"

definition alloc_hash_map :: "bool \<Rightarrow> bool \<Rightarrow> 'k key_operations \<Rightarrow> ('k, 'v) hash_map option" where
  "alloc_hash_map mem mem' ops = alloc_hash_map_with_size mem mem' DEFAULT_CAPACITY ops"

definition get_hash :: "('k, 'v) hash_map \<Rightarrow> 'k \<Rightarrow> u64" where
  "get_hash m key = key_hash (key_ops m) key"

definition get_index :: "('k, 'v) hash_map \<Rightarrow> u64 \<Rightarrow> nat option" where
  "get_index m h = (if table_size m = 0 then None else Some (unat h mod table_size m))"

text \<open>The position in a bucket of the first entry of the key.\<close>

primrec bucket_find ::
  "'k key_operations \<Rightarrow> u64 \<Rightarrow> 'k \<Rightarrow> ('k, 'v) hash_map_entry list \<Rightarrow> nat option"
where
  "bucket_find ops h key [] = None"
| "bucket_find ops h key (e # es) =
     (if h = ent_hash e \<and> key_equals ops (ent_key e) key then Some 0
      else map_option Suc (bucket_find ops h key es))"

text \<open>The entry is given by the number of its bucket and its position there.\<close>

definition hash_map_lookup_entry :: "('k, 'v) hash_map \<Rightarrow> 'k \<Rightarrow> (nat \<times> nat) option option" where
  "hash_map_lookup_entry m key =
     (let h = get_hash m key in
      do { i \<leftarrow> get_index m h;
           bucket \<leftarrow> read_at (map_table m) i;
           Some (map_option (Pair i) (bucket_find (key_ops m) h key bucket)) })"

text \<open>\<open>list_add\<close>: the entry becomes the first of its bucket.\<close>

definition list_add_at ::
  "('k, 'v) hash_map_entry list list \<Rightarrow> nat \<Rightarrow> ('k, 'v) hash_map_entry \<Rightarrow> ('k, 'v) hash_map_entry list list option"
where
  "list_add_at table i e = do { bucket \<leftarrow> read_at table i; write_at table i (e # bucket) }"

primrec move_entries ::
  "('k, 'v) hash_map \<Rightarrow> ('k, 'v) hash_map_entry list \<Rightarrow> ('k, 'v) hash_map_entry list list \<Rightarrow>
   ('k, 'v) hash_map_entry list list option"
where
  "move_entries m [] new_table = Some new_table"
| "move_entries m (e # es) new_table =
     (let e = e\<lparr>ent_hash := get_hash m (ent_key e)\<rparr> in
      do { i \<leftarrow> get_index m (ent_hash e);
           new_table \<leftarrow> list_add_at new_table i e;
           move_entries m es new_table })"

primrec move_buckets ::
  "('k, 'v) hash_map \<Rightarrow> ('k, 'v) hash_map_entry list list \<Rightarrow> ('k, 'v) hash_map_entry list list \<Rightarrow>
   ('k, 'v) hash_map_entry list list option"
where
  "move_buckets m [] new_table = Some new_table"
| "move_buckets m (b # bs) new_table =
     do { new_table \<leftarrow> move_entries m b new_table; move_buckets m bs new_table }"

text \<open>The sizes go through \<open>unsigned int\<close>.\<close>

definition try_to_expand :: "bool \<Rightarrow> ('k, 'v) hash_map \<Rightarrow> ('k, 'v) hash_map option" where
  "try_to_expand mem m =
     (let old_table_size = table_size m mod 2 ^ 32;
          new_table_size = (old_table_size * 2 + 1) mod 2 ^ 32 in
      if \<not> mem then Some m
      else let m' = m\<lparr>table_size := new_table_size, resize_at := three_quarters new_table_size\<rparr> in
        do { new_table \<leftarrow> move_buckets m' (take old_table_size (map_table m)) (replicate new_table_size []);
             Some (m'\<lparr>map_table := new_table\<rparr>) })"

definition hash_map_put ::
  "bool \<Rightarrow> bool \<Rightarrow> ('k, 'v) hash_map \<Rightarrow> 'k \<Rightarrow> 'v \<Rightarrow> (int \<times> ('k, 'v) hash_map) option"
where
  "hash_map_put mem mem' m key value =
     do { ent \<leftarrow> hash_map_lookup_entry m key;
          case ent of
            Some (i, j) \<Rightarrow>
              do { bucket \<leftarrow> read_at (map_table m) i;
                   e \<leftarrow> read_at bucket j;
                   Some (0, m\<lparr>map_table := (map_table m)[i := bucket[j := e\<lparr>ent_value := value\<rparr>]]\<rparr>) }
          | None \<Rightarrow>
              do { m \<leftarrow> (if map_size m + 1 \<ge> resize_at m then try_to_expand mem m else Some m);
                   if \<not> mem' then Some (- ENOMEM, m)
                   else do {
                     let e = \<lparr>ent_hash = get_hash m key, ent_key = key, ent_value = value\<rparr>;
                     i \<leftarrow> get_index m (ent_hash e);
                     table \<leftarrow> list_add_at (map_table m) i e;
                     Some (0, m\<lparr>map_table := table, map_size := map_size m + 1\<rparr>) } } }"

definition hash_map_get :: "('k, 'v) hash_map \<Rightarrow> 'k \<Rightarrow> (int + 'v) option" where
  "hash_map_get m key =
     do { ent \<leftarrow> hash_map_lookup_entry m key;
          case ent of
            None \<Rightarrow> Some (Inl (- 1))
          | Some (i, j) \<Rightarrow>
              do { bucket \<leftarrow> read_at (map_table m) i; e \<leftarrow> read_at bucket j; Some (Inr (ent_value e)) } }"

text \<open>The last component is what \<open>final_process\<close> is called on.\<close>

definition hash_map_remove :: "('k, 'v) hash_map \<Rightarrow> 'k \<Rightarrow> (int \<times> ('k, 'v) hash_map \<times> 'v list) option" where
  "hash_map_remove m key =
     do { ent \<leftarrow> hash_map_lookup_entry m key;
          case ent of
            None \<Rightarrow> Some (- 1, m, [])
          | Some (i, j) \<Rightarrow>
              do { bucket \<leftarrow> read_at (map_table m) i;
                   e \<leftarrow> read_at bucket j;
                   Some (0, m\<lparr>map_table := (map_table m)[i := take j bucket @ drop (Suc j) bucket],
                             map_size := map_size m - 1\<rparr>,
                         if has_final_process (key_ops m) then [ent_value e] else []) } }"

definition hash_map_contains :: "('k, 'v) hash_map \<Rightarrow> 'k \<Rightarrow> bool option" where
  "hash_map_contains m key = map_option (\<lambda>ent. ent \<noteq> None) (hash_map_lookup_entry m key)"

definition hash_map_size :: "('k, 'v) hash_map \<Rightarrow> int" where
  "hash_map_size m = sint (of_nat (map_size m) :: i32)"

definition hash_map_is_empty :: "('k, 'v) hash_map \<Rightarrow> bool" where
  "hash_map_is_empty m = (map_size m = 0)"

text \<open>What \<open>free_hash_map\<close> hands to \<open>final_process\<close>, in its order.\<close>

definition free_hash_map :: "('k, 'v) hash_map \<Rightarrow> 'v list option" where
  "free_hash_map m =
     (if length (map_table m) < table_size m then None
      else Some (if has_final_process (key_ops m) then map ent_value (concat (take (table_size m) (map_table m))) else []))"

section \<open>Keys\<close>

text \<open>A C string is a list of bytes that is read up to its first zero; \<open>char\<close> is signed.\<close>

fun string_hash_from :: "u64 \<Rightarrow> u8 list \<Rightarrow> u64" where
  "string_hash_from h [] = h"
| "string_hash_from h (c # cs) = (if c = 0 then h else string_hash_from (31 * h + word_of_int (sint c)) cs)"

definition string_hash :: "u8 list \<Rightarrow> u64" where
  "string_hash s = string_hash_from 0 s"

definition ptr_hash :: "u64 \<Rightarrow> u64" where
  "ptr_hash key = key"

definition ptr_equals :: "u64 \<Rightarrow> u64 \<Rightarrow> bool" where
  "ptr_equals p1 p2 = (p1 = p2)"

definition string_equals :: "u8 list \<Rightarrow> u8 list \<Rightarrow> bool" where
  "string_equals s1 s2 = (takeWhile (\<lambda>c. c \<noteq> 0) s1 = takeWhile (\<lambda>c. c \<noteq> 0) s2)"

definition pointer_key :: "u64 key_operations" where
  "pointer_key = \<lparr>key_hash = ptr_hash, key_equals = ptr_equals, has_final_process = False\<rparr>"

definition string_key :: "u8 list key_operations" where
  "string_key = \<lparr>key_hash = string_hash, key_equals = string_equals, has_final_process = False\<rparr>"

section \<open>The invariant\<close>

text \<open>Every entry is in the bucket of its hash, and no two entries have equal keys.\<close>

definition apart_keys :: "'k key_operations \<Rightarrow> ('k, 'v) hash_map_entry list \<Rightarrow> bool" where
  "apart_keys ops es = sorted_wrt (\<lambda>a b. \<not> key_equals ops (ent_key a) (ent_key b)) es"

definition buckets_ok :: "'k key_operations \<Rightarrow> ('k, 'v) hash_map_entry list list \<Rightarrow> bool" where
  "buckets_ok ops table = list_all (\<lambda>i. list_all (\<lambda>e. ent_hash e = key_hash ops (ent_key e) \<and>
     unat (ent_hash e) mod length table = i) (table ! i)) [0..<length table]"

definition hash_map_ok :: "('k, 'v) hash_map \<Rightarrow> bool" where
  "hash_map_ok m \<longleftrightarrow> 0 < table_size m \<and> table_size m < 2 ^ 32 \<and> length (map_table m) = table_size m \<and>
     buckets_ok (key_ops m) (map_table m) \<and> apart_keys (key_ops m) (concat (map_table m)) \<and>
     map_size m = length (concat (map_table m))"

definition hash_map_contents :: "('k, 'v) hash_map \<Rightarrow> 'k \<Rightarrow> 'v option" where
  "hash_map_contents m k = map_option ent_value (find (\<lambda>e. key_equals (key_ops m) (ent_key e) k) (concat (map_table m)))"

lemma buckets_okI:
  "(\<And>i e. i < length table \<Longrightarrow> e \<in> set (table ! i) \<Longrightarrow>
     ent_hash e = key_hash ops (ent_key e) \<and> unat (ent_hash e) mod length table = i) \<Longrightarrow> buckets_ok ops table"
  unfolding buckets_ok_def list_all_iff by (metis atLeastLessThan_iff set_upt)

lemma buckets_okD:
  "buckets_ok ops table \<Longrightarrow> i < length table \<Longrightarrow> e \<in> set (table ! i) \<Longrightarrow>
     ent_hash e = key_hash ops (ent_key e) \<and> unat (ent_hash e) mod length table = i"
  unfolding buckets_ok_def list_all_iff by (metis atLeastLessThan_iff set_upt zero_le)

lemma concat_update: "i < length xss \<Longrightarrow> concat (xss[i := ys]) = concat (take i xss) @ ys @ concat (drop (Suc i) xss)"
  by (simp add: upd_conv_take_nth_drop)

lemma concat_split: "i < length xss \<Longrightarrow> concat xss = concat (take i xss) @ xss ! i @ concat (drop (Suc i) xss)"
  using concat_update [of i xss "xss ! i"] by simp

lemma in_concat_bucket: "e \<in> set (concat xss) \<longleftrightarrow> (\<exists>i<length xss. e \<in> set (xss ! i))"
  by (auto simp: in_set_conv_nth [of _ xss] intro: nth_mem)

lemma concat_entry:
  assumes "i < length xss" "j < length (xss ! i)"
  shows "\<exists>us vs. concat xss = us @ xss ! i ! j # vs \<and> (\<forall>y. concat (xss[i := (xss ! i)[j := y]]) = us @ y # vs) \<and>
    concat (xss[i := take j (xss ! i) @ drop (Suc j) (xss ! i)]) = us @ vs"
proof (intro exI conjI allI)
  let ?us = "concat (take i xss) @ take j (xss ! i)" and ?vs = "drop (Suc j) (xss ! i) @ concat (drop (Suc i) xss)"
  show "concat xss = ?us @ xss ! i ! j # ?vs"
    by (subst concat_split [OF assms(1)], subst (1) id_take_nth_drop [OF assms(2)]) simp
  show "concat (xss[i := (xss ! i)[j := y]]) = ?us @ y # ?vs" for y
    using assms by (simp add: concat_update upd_conv_take_nth_drop [OF assms(2)])
  show "concat (xss[i := take j (xss ! i) @ drop (Suc j) (xss ! i)]) = ?us @ ?vs"
    using assms(1) by (simp add: concat_update)
qed

lemma buckets_ok_update:
  assumes "buckets_ok ops table" "i < length table"
    and "\<And>y. y \<in> set b \<Longrightarrow> \<exists>x\<in>set (table ! i). ent_hash y = ent_hash x \<and> ent_key y = ent_key x"
  shows "buckets_ok ops (table[i := b])"
proof (rule buckets_okI)
  fix k y assume "k < length (table[i := b])" "y \<in> set (table[i := b] ! k)"
  then show "ent_hash y = key_hash ops (ent_key y) \<and> unat (ent_hash y) mod length (table[i := b]) = k"
    using buckets_okD [OF assms(1), of k] assms(2,3) by (cases "k = i") fastforce+
qed

locale key_contract =
  fixes ops :: "'k key_operations"
  assumes equals_refl: "key_equals ops k k"
    and equals_sym: "key_equals ops k l \<Longrightarrow> key_equals ops l k"
    and equals_trans: "key_equals ops k l \<Longrightarrow> key_equals ops l n \<Longrightarrow> key_equals ops k n"
    and equals_hash: "key_equals ops k l \<Longrightarrow> key_hash ops k = key_hash ops l"
begin

lemma apart_keys_append: "apart_keys ops (xs @ ys) \<longleftrightarrow> apart_keys ops xs \<and> apart_keys ops ys \<and>
    (\<forall>x\<in>set xs. \<forall>y\<in>set ys. \<not> key_equals ops (ent_key x) (ent_key y))"
  by (auto simp: apart_keys_def sorted_wrt_append)

lemma apart_keys_swap: "apart_keys ops (xs @ y # ys) \<longleftrightarrow> apart_keys ops (y # xs @ ys)"
  by (simp add: apart_keys_def sorted_wrt_append ball_Un) (meson equals_sym)

lemma find_unique:
  assumes "apart_keys ops es"
  shows "find (\<lambda>e. key_equals ops (ent_key e) k) es = Some e \<longleftrightarrow> e \<in> set es \<and> key_equals ops (ent_key e) k"
  using assms
proof (induction es)
  case (Cons a es)
  have "\<not> key_equals ops (ent_key b) k" if "key_equals ops (ent_key a) k" "b \<in> set es" for b
    using Cons.prems that equals_trans [OF that(1) equals_sym] by (auto simp: apart_keys_def)
  then show ?case using Cons by (auto simp: apart_keys_def)
qed simp

lemma contents_iff:
  assumes "hash_map_ok m" "key_ops m = ops"
  shows "hash_map_contents m k = Some v \<longleftrightarrow>
    (\<exists>e\<in>set (concat (map_table m)). key_equals ops (ent_key e) k \<and> ent_value e = v)"
  using assms find_unique [of "concat (map_table m)" k]
  by (auto simp: hash_map_contents_def hash_map_ok_def)

lemma contents_None:
  assumes "key_ops m = ops"
  shows "hash_map_contents m k = None \<longleftrightarrow> (\<forall>e\<in>set (concat (map_table m)). \<not> key_equals ops (ent_key e) k)"
  using assms by (simp only: hash_map_contents_def option.map_disc_iff find_None_iff) blast

lemma bucket_find_Some:
  "bucket_find ops' h key es = Some j \<Longrightarrow>
   j < length es \<and> h = ent_hash (es ! j) \<and> key_equals ops' (ent_key (es ! j)) key"
  by (induction es arbitrary: j) (auto split: if_splits)

lemma bucket_find_None:
  "bucket_find ops' h key es = None \<longleftrightarrow> (\<forall>e\<in>set es. \<not> (h = ent_hash e \<and> key_equals ops' (ent_key e) key))"
  by (induction es) auto

lemma lookup_entry_correct:
  assumes "hash_map_ok m" "key_ops m = ops"
  shows "(hash_map_lookup_entry m key = Some None \<and> hash_map_contents m key = None) \<or>
    (\<exists>i j. hash_map_lookup_entry m key = Some (Some (i, j)) \<and> i < length (map_table m) \<and>
       j < length (map_table m ! i) \<and> key_equals ops (ent_key (map_table m ! i ! j)) key)"
proof -
  have ok: "length (map_table m) = table_size m" "0 < table_size m" "buckets_ok ops (map_table m)"
    using assms unfolding hash_map_ok_def by blast+
  define h where "h = get_hash m key"
  define i where "i = unat h mod table_size m"
  have i: "i < length (map_table m)" "get_index m h = Some i"
    using ok by (simp_all add: i_def get_index_def)
  show ?thesis
  proof (cases "bucket_find ops h key (map_table m ! i)")
    case None
    have "\<not> key_equals ops (ent_key e) key" if e: "e \<in> set (concat (map_table m))" for e
    proof
      assume eq: "key_equals ops (ent_key e) key"
      obtain i' where i': "i' < length (map_table m)" "e \<in> set (map_table m ! i')" using e unfolding in_concat_bucket by blast
      have "ent_hash e = h" "i' = i"
        using ok(1) buckets_okD [OF ok(3) i'] equals_hash [OF eq] assms(2) by (auto simp: h_def get_hash_def i_def)
      then show False using None i' eq by (auto simp: bucket_find_None)
    qed
    then have "hash_map_contents m key = None" unfolding contents_None [OF assms(2)] by blast
    then show ?thesis using None i assms(2) by (simp add: hash_map_lookup_entry_def flip: h_def)
  next
    case (Some j)
    then show ?thesis using bucket_find_Some [OF Some] i assms(2)
      by (simp add: hash_map_lookup_entry_def flip: h_def)
  qed
qed

text \<open>Adding an entry whose key is not there.\<close>

lemma list_add_ok:
  assumes "0 < length table" "buckets_ok ops table" "apart_keys ops (concat table)"
    and "\<forall>x\<in>set (concat table). \<not> key_equals ops (ent_key x) (ent_key e)" "ent_hash e = key_hash ops (ent_key e)"
    and "i = unat (ent_hash e) mod length table"
  shows "\<exists>table'. list_add_at table i e = Some table' \<and> length table' = length table \<and> buckets_ok ops table' \<and>
    apart_keys ops (concat table') \<and> set (concat table') = insert e (set (concat table)) \<and>
    length (concat table') = Suc (length (concat table))"
proof -
  have i: "i < length table" using assms(1,6) by simp
  define table' where "table' = table[i := e # table ! i]"
  have "list_add_at table i e = Some table'"
    using i by (simp add: list_add_at_def write_at_def table'_def)
  moreover have "buckets_ok ops table'"
  proof (rule buckets_okI)
    fix j x assume j: "j < length table'" "x \<in> set (table' ! j)"
    then show "ent_hash x = key_hash ops (ent_key x) \<and> unat (ent_hash x) mod length table' = j"
      using assms(5,6) i buckets_okD [OF assms(2), of j x] by (cases "j = i") (auto simp: table'_def)
  qed
  moreover have "length table' = length table" by (simp add: table'_def)
  moreover have split: "concat table' = concat (take i table) @ e # table ! i @ concat (drop (Suc i) table)"
    using concat_update [OF i, of "e # table ! i"] by (simp add: table'_def)
  moreover have "apart_keys ops (concat table')"
  proof -
    have "\<forall>x\<in>set (concat table). \<not> key_equals ops (ent_key e) (ent_key x)" using assms(4) equals_sym by blast
    then have "apart_keys ops (e # concat table)" using assms(3) by (simp add: apart_keys_def)
    then show ?thesis unfolding split apart_keys_swap concat_split [OF i, symmetric] .
  qed
  moreover have "set (concat table') = insert e (set (concat table))"
    unfolding split concat_split [OF i] by (simp only: set_append list.set) blast
  moreover have "length (concat table') = Suc (length (concat table))"
    unfolding split concat_split [OF i] by (simp only: length_append list.size)
  ultimately show ?thesis by blast
qed

lemma entry_rehash: "ent_hash e = h \<Longrightarrow> e\<lparr>ent_hash := h\<rparr> = e" for e :: "('k, 'v) hash_map_entry"
  by (cases e) simp

lemma move_entries_ok:
  assumes "key_ops m = ops" "table_size m = length table" "0 < length table"
    and "buckets_ok ops table" "apart_keys ops (concat table @ es)"
    and "\<forall>e\<in>set es. ent_hash e = key_hash ops (ent_key e)"
  shows "\<exists>table'. move_entries m es table = Some table' \<and> length table' = length table \<and> buckets_ok ops table' \<and>
    apart_keys ops (concat table') \<and> set (concat table') = set (concat table) \<union> set es \<and>
    length (concat table') = length (concat table) + length es"
  using assms(2-)
proof (induction es arbitrary: table)
  case Nil
  then show ?case by simp
next
  case (Cons e es)
  define i where "i = unat (ent_hash e) mod length table"
  have ap: "apart_keys ops (concat table)" "apart_keys ops es"
    "\<forall>x\<in>set (concat table). \<not> key_equals ops (ent_key x) (ent_key e)"
    "\<forall>x\<in>set (concat table). \<forall>y\<in>set es. \<not> key_equals ops (ent_key x) (ent_key y)"
    "\<forall>y\<in>set es. \<not> key_equals ops (ent_key e) (ent_key y)"
    using Cons.prems(4) unfolding apart_keys_append by (simp_all only: apart_keys_def sorted_wrt.simps list.set) blast+
  have he: "ent_hash e = key_hash ops (ent_key e)" using Cons.prems(5) by simp
  obtain t1 where t1: "list_add_at table i e = Some t1" "length t1 = length table" "buckets_ok ops t1"
    "apart_keys ops (concat t1)" "set (concat t1) = insert e (set (concat table))"
    "length (concat t1) = Suc (length (concat table))"
    using list_add_ok [OF Cons.prems(2,3) ap(1,3) he i_def] by blast
  have "apart_keys ops (concat t1 @ es)"
    unfolding apart_keys_append t1(5) using t1(4) ap(2,4,5) by blast
  then obtain t2 where t2: "move_entries m es t1 = Some t2" "length t2 = length t1" "buckets_ok ops t2"
    "apart_keys ops (concat t2)" "set (concat t2) = set (concat t1) \<union> set es"
    "length (concat t2) = length (concat t1) + length es"
    using Cons.IH [of t1] Cons.prems t1(2,3) by auto
  have "move_entries m (e # es) table = Some t2"
    using t1(1) t2(1) Cons.prems(1,2) entry_rehash [OF he]
    by (simp add: get_index_def get_hash_def assms(1) i_def)
  moreover have "set (concat t2) = set (concat table) \<union> set (e # es)"
    unfolding t2(5) t1(5) by simp
  ultimately show ?case using t1(2,6) t2(2-4,6) by (intro exI [of _ t2]) (simp only: list.size, simp)
qed

lemma move_buckets_concat: "move_buckets m bs table = move_entries m (concat bs) table"
proof -
  have "move_entries m (xs @ ys) t = do { t \<leftarrow> move_entries m xs t; move_entries m ys t }" for xs ys t
    by (induction xs arbitrary: t) (simp_all add: Let_def)
  then show ?thesis by (induction bs arbitrary: table) simp_all
qed

lemma expand_ok:
  assumes "hash_map_ok m" "key_ops m = ops"
  shows "\<exists>m'. try_to_expand mem m = Some m' \<and> hash_map_ok m' \<and> key_ops m' = ops \<and>
    set (concat (map_table m')) = set (concat (map_table m))"
proof (cases mem)
  case True
  define n where "n = (table_size m * 2 + 1) mod 2 ^ 32"
  define m' where "m' = m\<lparr>table_size := n, resize_at := three_quarters n\<rparr>"
  have ok: "length (map_table m) = table_size m" "table_size m < 2 ^ 32" "buckets_ok ops (map_table m)"
    "apart_keys ops (concat (map_table m))" "map_size m = length (concat (map_table m))"
    using assms unfolding hash_map_ok_def by blast+
  have "odd n" unfolding n_def odd_iff_mod_2_eq_one by (subst mod_mod_cancel) (simp, presburger)
  then have n: "0 < n" "n < 2 ^ 32" by (auto simp: n_def odd_pos)
  have "buckets_ok ops (replicate n [])" by (rule buckets_okI) simp
  moreover have "\<forall>e\<in>set (concat (map_table m)). ent_hash e = key_hash ops (ent_key e)"
    using buckets_okD [OF ok(3)] unfolding Ball_def in_concat_bucket by blast
  ultimately obtain t where t: "move_entries m' (concat (map_table m)) (replicate n []) = Some t" "length t = n"
    "buckets_ok ops t" "apart_keys ops (concat t)" "set (concat t) = set (concat (map_table m))"
    "length (concat t) = length (concat (map_table m))"
    using move_entries_ok [of m' "replicate n []" "concat (map_table m)"] ok(4) n(1) assms(2) by (auto simp: m'_def)
  have "try_to_expand mem m = Some (m'\<lparr>map_table := t\<rparr>)"
    using t(1) True ok(1,2) by (simp add: try_to_expand_def Let_def move_buckets_concat m'_def n_def)
  then show ?thesis
    using t n ok(5) assms(2) by (intro exI [of _ "m'\<lparr>map_table := t\<rparr>"]) (simp add: hash_map_ok_def m'_def)
qed (use assms in \<open>simp add: try_to_expand_def\<close>)

lemma contents_same:
  assumes "hash_map_ok m" "hash_map_ok m'" "key_ops m = ops" "key_ops m' = ops"
    and "set (concat (map_table m')) = set (concat (map_table m))"
  shows "hash_map_contents m' = hash_map_contents m"
proof (rule ext)
  fix k
  have "hash_map_contents m' k = Some v \<longleftrightarrow> hash_map_contents m k = Some v" for v
    unfolding contents_iff [OF assms(1,3)] contents_iff [OF assms(2,4)] assms(5) ..
  then show "hash_map_contents m' k = hash_map_contents m k"
    by (cases "hash_map_contents m k") (auto simp: option.expand)
qed

lemma add_ok:
  assumes "hash_map_ok m" "key_ops m = ops" "hash_map_contents m key = None"
  shows "\<exists>i table. get_index m (get_hash m key) = Some i \<and>
    list_add_at (map_table m) i \<lparr>ent_hash = get_hash m key, ent_key = key, ent_value = v\<rparr> = Some table \<and>
    hash_map_ok (m\<lparr>map_table := table, map_size := map_size m + 1\<rparr>) \<and>
    hash_map_contents (m\<lparr>map_table := table, map_size := map_size m + 1\<rparr>) =
      (\<lambda>k. if key_equals ops key k then Some v else hash_map_contents m k)"
proof -
  define e where "e = \<lparr>ent_hash = get_hash m key, ent_key = key, ent_value = v\<rparr>"
  have ok: "length (map_table m) = table_size m" "0 < table_size m" "buckets_ok ops (map_table m)"
    "apart_keys ops (concat (map_table m))" "map_size m = length (concat (map_table m))" "table_size m < 2 ^ 32"
    using assms unfolding hash_map_ok_def by blast+
  define i where "i = unat (get_hash m key) mod table_size m"
  have "\<forall>x\<in>set (concat (map_table m)). \<not> key_equals ops (ent_key x) (ent_key e)"
    using assms(3) unfolding contents_None [OF assms(2)] by (simp add: e_def)
  then obtain t where t: "list_add_at (map_table m) i e = Some t" "length t = length (map_table m)" "buckets_ok ops t"
    "apart_keys ops (concat t)" "set (concat t) = insert e (set (concat (map_table m)))"
    "length (concat t) = Suc (length (concat (map_table m)))"
    using list_add_ok [of "map_table m" e i] ok assms(2) by (auto simp: e_def i_def get_hash_def)
  define m' where "m' = m\<lparr>map_table := t, map_size := map_size m + 1\<rparr>"
  have ok': "hash_map_ok m'" "key_ops m' = ops" using t ok assms(2) by (auto simp: hash_map_ok_def m'_def)
  have "hash_map_contents m' k = (if key_equals ops key k then Some v else hash_map_contents m k)" for k
  proof (cases "key_equals ops key k")
    case True
    then have "hash_map_contents m' k = Some v"
      unfolding contents_iff [OF ok'] using t(5) by (simp add: m'_def e_def)
    then show ?thesis using True by simp
  next
    case False
    then have "hash_map_contents m' k = Some w \<longleftrightarrow> hash_map_contents m k = Some w" for w
      unfolding contents_iff [OF ok'] contents_iff [OF assms(1,2)] using t(5) by (simp add: m'_def e_def)
    then show ?thesis using False by (cases "hash_map_contents m k") (auto simp: option.expand)
  qed
  then show ?thesis
    using t(1) ok(2) ok'(1) by (auto simp: get_index_def i_def e_def m'_def)
qed

lemma replace_ok:
  assumes "hash_map_ok m" "key_ops m = ops" "i < length (map_table m)" "j < length (map_table m ! i)"
    and "key_equals ops (ent_key (map_table m ! i ! j)) key"
    and "m' = m\<lparr>map_table := (map_table m)[i := (map_table m ! i)[j := (map_table m ! i ! j)\<lparr>ent_value := v\<rparr>]]\<rparr>"
  shows "hash_map_ok m' \<and> key_ops m' = ops \<and>
    hash_map_contents m' = (\<lambda>k. if key_equals ops key k then Some v else hash_map_contents m k) \<and>
    hash_map_contents m key \<noteq> None"
proof -
  define e where "e = map_table m ! i ! j"
  have ok: "length (map_table m) = table_size m" "0 < table_size m" "buckets_ok ops (map_table m)"
    "apart_keys ops (concat (map_table m))" "map_size m = length (concat (map_table m))" "table_size m < 2 ^ 32"
    using assms(1,2) unfolding hash_map_ok_def by blast+
  obtain us vs where sp: "concat (map_table m) = us @ e # vs"
      "concat (map_table m') = us @ e\<lparr>ent_value := v\<rparr> # vs"
    using concat_entry [OF assms(3,4)] by (auto simp: e_def assms(6))
  have e: "e \<in> set (map_table m ! i)" using assms(4) by (simp add: e_def)
  have "buckets_ok ops (map_table m')" unfolding assms(6)
    by (simp, rule buckets_ok_update [OF ok(3) assms(3)])
       (use e in \<open>auto simp: e_def dest!: subsetD [OF set_update_subset_insert]\<close>)
  moreover have "apart_keys ops (concat (map_table m'))"
    using ok(4) unfolding sp by (simp add: apart_keys_def sorted_wrt_append)
  ultimately have ok': "hash_map_ok m'" "key_ops m' = ops"
    using ok assms(2) sp by (simp_all add: hash_map_ok_def) (simp_all add: assms(6))
  have eq: "key_equals ops (ent_key e) k \<longleftrightarrow> key_equals ops key k" for k
    using assms(5) equals_trans equals_sym unfolding e_def by blast
  have "hash_map_contents m' k = (if key_equals ops key k then Some v else hash_map_contents m k)" for k
  proof (cases "key_equals ops key k")
    case True
    then have "hash_map_contents m' k = Some v"
      unfolding contents_iff [OF ok'] sp using eq by simp
    then show ?thesis using True by simp
  next
    case False
    then have "hash_map_contents m' k = Some w \<longleftrightarrow> hash_map_contents m k = Some w" for w
      unfolding contents_iff [OF ok'] contents_iff [OF assms(1,2)] sp using eq by simp
    then show ?thesis using False by (cases "hash_map_contents m k") (auto simp: option.expand)
  qed
  moreover have "hash_map_contents m key \<noteq> None"
    unfolding contents_None [OF assms(2)] sp using eq equals_refl by simp
  ultimately show ?thesis using ok' by auto
qed

lemma delete_ok:
  assumes "hash_map_ok m" "key_ops m = ops" "i < length (map_table m)" "j < length (map_table m ! i)"
    and "key_equals ops (ent_key (map_table m ! i ! j)) key"
    and "m' = m\<lparr>map_table := (map_table m)[i := take j (map_table m ! i) @ drop (Suc j) (map_table m ! i)],
        map_size := map_size m - 1\<rparr>"
  shows "hash_map_ok m' \<and> key_ops m' = ops \<and>
    hash_map_contents m' = (\<lambda>k. if key_equals ops key k then None else hash_map_contents m k) \<and>
    hash_map_contents m key = Some (ent_value (map_table m ! i ! j))"
proof -
  define e where "e = map_table m ! i ! j"
  have ok: "length (map_table m) = table_size m" "0 < table_size m" "buckets_ok ops (map_table m)"
    "apart_keys ops (concat (map_table m))" "map_size m = length (concat (map_table m))" "table_size m < 2 ^ 32"
    using assms(1,2) unfolding hash_map_ok_def by blast+
  obtain us vs where sp: "concat (map_table m) = us @ e # vs" "concat (map_table m') = us @ vs"
    using concat_entry [OF assms(3,4)] by (auto simp: e_def assms(6))
  have "buckets_ok ops (map_table m')" unfolding assms(6)
    by (simp, rule buckets_ok_update [OF ok(3) assms(3)]) (auto dest: in_set_takeD in_set_dropD)
  moreover have ap: "apart_keys ops (e # us @ vs)"
    using ok(4) unfolding sp apart_keys_swap .
  ultimately have ok': "hash_map_ok m'" "key_ops m' = ops"
    using ok assms(2) sp by (simp_all add: hash_map_ok_def apart_keys_def) (simp_all add: assms(6))
  have eq: "key_equals ops (ent_key e) k \<longleftrightarrow> key_equals ops key k" for k
    using assms(5) equals_trans equals_sym unfolding e_def by blast
  have none: "\<not> key_equals ops (ent_key x) k" if "key_equals ops key k" "x \<in> set (us @ vs)" for x k
    using ap that eq [of k] equals_trans [of "ent_key e" k "ent_key x"] equals_sym [of "ent_key x" k]
    by (auto simp: apart_keys_def)
  have "hash_map_contents m' k = (if key_equals ops key k then None else hash_map_contents m k)" for k
  proof (cases "key_equals ops key k")
    case True
    then have "hash_map_contents m' k = None"
      unfolding contents_None [OF ok'(2)] sp using none by blast
    then show ?thesis using True by simp
  next
    case False
    then have "hash_map_contents m' k = Some w \<longleftrightarrow> hash_map_contents m k = Some w" for w
      unfolding contents_iff [OF ok'] contents_iff [OF assms(1,2)] sp using eq by simp
    then show ?thesis using False by (cases "hash_map_contents m k") (auto simp: option.expand)
  qed
  moreover have "hash_map_contents m key = Some (ent_value e)"
    unfolding contents_iff [OF assms(1,2)] sp using eq equals_refl by simp
  ultimately show ?thesis using ok' by (auto simp: e_def)
qed

lemma put_ok:
  assumes "hash_map_ok m" "key_ops m = ops"
  shows "\<exists>r m'. hash_map_put mem mem' m key v = Some (r, m') \<and> hash_map_ok m' \<and> key_ops m' = ops \<and>
    (if mem' \<or> hash_map_contents m key \<noteq> None
     then r = 0 \<and> hash_map_contents m' = (\<lambda>k. if key_equals ops key k then Some v else hash_map_contents m k)
     else r = - ENOMEM \<and> hash_map_contents m' = hash_map_contents m)"
proof -
  consider (new) "hash_map_lookup_entry m key = Some None" "hash_map_contents m key = None"
    | (old) i j where "hash_map_lookup_entry m key = Some (Some (i, j))" "i < length (map_table m)"
        "j < length (map_table m ! i)" "key_equals ops (ent_key (map_table m ! i ! j)) key"
    using lookup_entry_correct [OF assms, of key] by (elim disjE exE conjE) (assumption | rule that)+
  then show ?thesis
  proof cases
    case old
    define m' where
      "m' = m\<lparr>map_table := (map_table m)[i := (map_table m ! i)[j := (map_table m ! i ! j)\<lparr>ent_value := v\<rparr>]]\<rparr>"
    have "hash_map_put mem mem' m key v = Some (0, m')" using old by (simp add: hash_map_put_def m'_def)
    then show ?thesis using replace_ok [OF assms old(2-4) m'_def] by simp
  next
    case new
    obtain m1 where m1: "(if map_size m + 1 \<ge> resize_at m then try_to_expand mem m else Some m) = Some m1"
      "hash_map_ok m1" "key_ops m1 = ops" "set (concat (map_table m1)) = set (concat (map_table m))"
      using expand_ok [OF assms, of mem] assms by (cases "map_size m + 1 \<ge> resize_at m") auto
    have same: "hash_map_contents m1 = hash_map_contents m" by (rule contents_same [OF assms(1) m1(2) assms(2) m1(3,4)])
    have "hash_map_contents m1 key = None" using same new(2) by simp
    then obtain i table where add: "get_index m1 (get_hash m1 key) = Some i"
      "list_add_at (map_table m1) i \<lparr>ent_hash = get_hash m1 key, ent_key = key, ent_value = v\<rparr> = Some table"
      "hash_map_ok (m1\<lparr>map_table := table, map_size := map_size m1 + 1\<rparr>)"
      "hash_map_contents (m1\<lparr>map_table := table, map_size := map_size m1 + 1\<rparr>) =
        (\<lambda>k. if key_equals ops key k then Some v else hash_map_contents m1 k)"
      using add_ok [OF m1(2,3), of key v] by blast
    show ?thesis
    proof (cases mem')
      case True
      then have "hash_map_put mem mem' m key v = Some (0, m1\<lparr>map_table := table, map_size := map_size m1 + 1\<rparr>)"
        using new(1) m1(1) add(1,2) by (simp add: hash_map_put_def)
      then show ?thesis using True add(3) add(4) [unfolded same] m1(3) by simp
    next
      case False
      then have "hash_map_put mem mem' m key v = Some (- ENOMEM, m1)"
        using new(1) m1(1) by (simp add: hash_map_put_def)
      then show ?thesis using False m1 same new(2) by simp
    qed
  qed
qed

lemma get_ok:
  assumes "hash_map_ok m" "key_ops m = ops"
  shows "hash_map_get m key = Some (case hash_map_contents m key of None \<Rightarrow> Inl (- 1) | Some v \<Rightarrow> Inr v) \<and>
    hash_map_contains m key = Some (hash_map_contents m key \<noteq> None)"
  using lookup_entry_correct [OF assms, of key] delete_ok [OF assms]
  by (auto simp: hash_map_get_def hash_map_contains_def)

lemma remove_ok:
  assumes "hash_map_ok m" "key_ops m = ops"
  shows "case hash_map_contents m key of
      None \<Rightarrow> hash_map_remove m key = Some (- 1, m, [])
    | Some v \<Rightarrow> (\<exists>m'. hash_map_remove m key = Some (0, m', if has_final_process ops then [v] else []) \<and>
        hash_map_ok m' \<and> key_ops m' = ops \<and>
        hash_map_contents m' = (\<lambda>k. if key_equals ops key k then None else hash_map_contents m k))"
proof -
  consider (new) "hash_map_lookup_entry m key = Some None" "hash_map_contents m key = None"
    | (old) i j where "hash_map_lookup_entry m key = Some (Some (i, j))" "i < length (map_table m)"
        "j < length (map_table m ! i)" "key_equals ops (ent_key (map_table m ! i ! j)) key"
    using lookup_entry_correct [OF assms, of key] by (elim disjE exE conjE) (assumption | rule that)+
  then show ?thesis
  proof cases
    case new
    then show ?thesis by (simp add: hash_map_remove_def)
  next
    case old
    show ?thesis
      using delete_ok [OF assms old(2-4) refl] old assms(2) by (simp add: hash_map_remove_def)
  qed
qed

end

interpretation pk: key_contract pointer_key
  by unfold_locales (auto simp: pointer_key_def ptr_equals_def)

lemma string_hash_from_takeWhile: "string_hash_from h s = string_hash_from h (takeWhile (\<lambda>c. c \<noteq> 0) s)"
  by (induction s arbitrary: h) auto

lemma string_hash_respects: "string_equals s1 s2 \<Longrightarrow> string_hash s1 = string_hash s2"
  unfolding string_hash_def string_equals_def
  by (subst (1 2) string_hash_from_takeWhile) simp

interpretation sk: key_contract string_key
  by unfold_locales
    (simp_all add: string_key_def string_hash_respects, simp_all add: string_equals_def)

lemma alloc_hash_map_ok:
  "0 < n \<Longrightarrow> n < 2 ^ 32 \<Longrightarrow> \<exists>m. alloc_hash_map_with_size True True n ops = Some m \<and> hash_map_ok m \<and> key_ops m = ops \<and>
     hash_map_contents m = (\<lambda>_. None)"
  by (auto simp: alloc_hash_map_with_size_def hash_map_ok_def hash_map_contents_def buckets_ok_def apart_keys_def
      list_all_iff fun_eq_iff concat_replicate_trivial)

section \<open>Properties\<close>

text \<open>C10: For keys that meet the contract, \<open>hash_map_put\<close> updates exactly the entry of the key, in place or as a
  new entry, also when the table is resized on the way or the new table cannot be allocated; when the entry cannot
  be allocated it returns \<open>-ENOMEM\<close> and the contents stay. The table remains well-formed.\<close>

theorem hash_map_put_correct:
  assumes "key_contract (key_ops m)" "hash_map_ok m"
  shows "\<exists>r m'. hash_map_put mem mem' m key v = Some (r, m') \<and> hash_map_ok m' \<and> key_ops m' = key_ops m \<and>
    (if mem' \<or> hash_map_contents m key \<noteq> None
     then r = 0 \<and>
       hash_map_contents m' = (\<lambda>k. if key_equals (key_ops m) key k then Some v else hash_map_contents m k)
     else r = - ENOMEM \<and> hash_map_contents m' = hash_map_contents m)"
  by (rule key_contract.put_ok [OF assms refl])

text \<open>C17: \<open>hash_map_get\<close> and \<open>hash_map_contains\<close> answer for the contents of the table, and
  \<open>hash_map_remove\<close> deletes exactly the entry of the key and hands its value to \<open>final_process\<close>, or returns -1 when
  there is none.\<close>

theorem hash_map_get_remove_correct:
  assumes "key_contract (key_ops m)" "hash_map_ok m"
  shows "hash_map_get m key = Some (case hash_map_contents m key of None \<Rightarrow> Inl (- 1) | Some v \<Rightarrow> Inr v) \<and>
    hash_map_contains m key = Some (hash_map_contents m key \<noteq> None) \<and>
    (case hash_map_contents m key of
       None \<Rightarrow> hash_map_remove m key = Some (- 1, m, [])
     | Some v \<Rightarrow> (\<exists>m'. hash_map_remove m key = Some (0, m', if has_final_process (key_ops m) then [v] else []) \<and>
         hash_map_ok m' \<and> key_ops m' = key_ops m \<and>
         hash_map_contents m' = (\<lambda>k. if key_equals (key_ops m) key k then None else hash_map_contents m k)))"
  using key_contract.get_ok [OF assms refl] key_contract.remove_ok [OF assms refl] by blast

definition example_map :: "(u8 list, nat) hash_map" where
  "example_map = \<lparr>key_ops = string_key, map_size = 1, resize_at = 2,
     map_table = [[\<lparr>ent_hash = 3105, ent_key = [97, 98], ent_value = 5\<rparr>], [], []], table_size = 3\<rparr>"

lemma example_map_ok: "key_contract (key_ops example_map)" "hash_map_ok example_map"
proof -
  show "key_contract (key_ops example_map)" using sk.key_contract_axioms by (simp add: example_map_def)
  have "string_hash [97, 98] = 3105" by code_simp
  then show "hash_map_ok example_map"
    by (simp add: hash_map_ok_def example_map_def buckets_ok_def apart_keys_def string_key_def upt_rec)
qed

theorem hash_map_put_correct_witness:
  "\<exists>m'. hash_map_put True True example_map [99] 6 = Some (0, m') \<and> hash_map_contents m' [99] = Some 6 \<and>
     hash_map_contents m' [97, 98] = Some 5"
proof -
  have "hash_map_contents example_map [97, 98] = Some 5" by code_simp
  then show ?thesis
    using hash_map_put_correct [OF example_map_ok, of True True "[99]" 6]
    by (auto simp: example_map_def string_key_def string_equals_def)
qed

theorem hash_map_get_remove_correct_witness:
  "hash_map_get example_map [97, 98, 0, 7] = Some (Inr 5) \<and>
   (\<exists>m'. hash_map_remove example_map [97, 98] = Some (0, m', []) \<and> hash_map_contents m' [97, 98] = None)"
proof -
  have "hash_map_contents example_map [97, 98] = Some 5" "hash_map_contents example_map [97, 98, 0, 7] = Some 5"
    by code_simp+
  then show ?thesis
    using hash_map_get_remove_correct [OF example_map_ok, of "[97, 98]"]
      hash_map_get_remove_correct [OF example_map_ok, of "[97, 98, 0, 7]"]
    by (auto simp: example_map_def string_key_def string_equals_def)
qed

end
