(* ===== verification/Vm_Types.thy ===== *)
theory Vm_Types
  imports Jato_Prelude
begin

text \<open>
  The types of the virtual machine and the parser of field and method descriptors: \<open>vm/types.c\<close> and
  \<open>include/vm/types.h\<close>, with the tables between \<open>enum vm_type\<close> and the type codes of \<open>newarray\<close>.

  A C string is its list of characters without the terminating NUL; a pointer into it is the rest of the list, and
  \<open>peek\<close> reads the NUL at its end. The parser returns \<^const>\<open>None\<close> where the source returns -1.

  Shown: the parser accepts exactly the descriptors of a grammar (\<open>jtype\<close>), with what it returns for each; the
  number of slots of the arguments; the tables are inverse to each other.
\<close>

section \<open>Types\<close>

datatype vm_type = J_VOID | J_REFERENCE | J_BYTE | J_SHORT | J_INT | J_LONG | J_CHAR | J_FLOAT | J_DOUBLE
  | J_BOOLEAN | J_RETURN_ADDRESS

record vm_type_info =
  vm_type :: vm_type
  class_name :: string

definition vm_type_is_pair :: "vm_type \<Rightarrow> bool" where
  "vm_type_is_pair t = (t = J_LONG \<or> t = J_DOUBLE)"

definition vm_type_is_int64 :: "vm_type \<Rightarrow> bool" where
  "vm_type_is_int64 t = (t = J_LONG \<or> t = J_REFERENCE)"

definition vm_type_is_float :: "vm_type \<Rightarrow> bool" where
  "vm_type_is_float t = (t = J_FLOAT \<or> t = J_DOUBLE)"

definition vm_type_slot_size :: "vm_type \<Rightarrow> nat" where
  "vm_type_slot_size t = (if t = J_DOUBLE \<or> t = J_LONG then 2 else 1)"

definition vmtype_get_size :: "vm_type \<Rightarrow> nat" where
  "vmtype_get_size t = (if t = J_DOUBLE \<or> t = J_LONG then 8 else 8)"

definition get_arg_size :: "vm_type \<Rightarrow> nat" where
  "get_arg_size t = vmtype_get_size t div 8"

fun mimic_stack_type :: "vm_type \<Rightarrow> vm_type" where
  "mimic_stack_type J_BOOLEAN = J_INT"
| "mimic_stack_type J_BYTE = J_INT"
| "mimic_stack_type J_CHAR = J_INT"
| "mimic_stack_type J_SHORT = J_INT"
| "mimic_stack_type t = t"

fun peek :: "string \<Rightarrow> char" where
  "peek [] = CHR 0x00"
| "peek (c # s) = c"

definition str_to_type :: "string \<Rightarrow> vm_type" where
  "str_to_type s =
     (if peek s = CHR ''V'' then J_VOID
      else if peek s = CHR ''B'' then J_BYTE
      else if peek s = CHR ''C'' then J_CHAR
      else if peek s = CHR ''D'' then J_DOUBLE
      else if peek s = CHR ''F'' then J_FLOAT
      else if peek s = CHR ''I'' then J_INT
      else if peek s = CHR ''J'' then J_LONG
      else if peek s = CHR ''S'' then J_SHORT
      else if peek s = CHR ''Z'' then J_BOOLEAN
      else J_REFERENCE)"

text \<open>The loop runs past the end of a string without a closing parenthesis.\<close>

fun get_method_return_type :: "string \<Rightarrow> vm_type option" where
  "get_method_return_type [] = None"
| "get_method_return_type (c # s) = (if c \<noteq> CHR '')'' then get_method_return_type s else Some (str_to_type s))"

fun vm_type_size :: "vm_type \<Rightarrow> nat" where
  "vm_type_size J_VOID = 0"
| "vm_type_size J_REFERENCE = 8"
| "vm_type_size J_BYTE = 1"
| "vm_type_size J_SHORT = 2"
| "vm_type_size J_INT = 4"
| "vm_type_size J_LONG = 8"
| "vm_type_size J_CHAR = 2"
| "vm_type_size J_FLOAT = 4"
| "vm_type_size J_DOUBLE = 8"
| "vm_type_size J_BOOLEAN = 1"
| "vm_type_size J_RETURN_ADDRESS = 8"

definition is_array :: "string \<Rightarrow> bool" where
  "is_array name = (peek name = CHR ''['')"

definition is_primitive_array :: "string \<Rightarrow> bool" where
  "is_primitive_array name =
     (if peek name \<noteq> CHR ''['' then False
      else peek (dropWhile (\<lambda>c. c = CHR ''['') name) \<noteq> CHR ''L'')"

text \<open>The type codes of \<open>newarray\<close>, \<open>enum\<close> in \<open>include/vm/vm.h\<close>. The entries 0 to 3 of the first table are zero,
  which is \<open>J_VOID\<close>, and so are those of the second table that it does not name.\<close>

definition T_BOOLEAN :: int where "T_BOOLEAN = 4"
definition T_CHAR :: int where "T_CHAR = 5"
definition T_FLOAT :: int where "T_FLOAT = 6"
definition T_DOUBLE :: int where "T_DOUBLE = 7"
definition T_BYTE :: int where "T_BYTE = 8"
definition T_SHORT :: int where "T_SHORT = 9"
definition T_INT :: int where "T_INT = 10"
definition T_LONG :: int where "T_LONG = 11"

definition bytecode_type_to_vmtype_map :: "vm_type list" where
  "bytecode_type_to_vmtype_map =
     [J_VOID, J_VOID, J_VOID, J_VOID, J_BOOLEAN, J_CHAR, J_FLOAT, J_DOUBLE, J_BYTE, J_SHORT, J_INT, J_LONG]"

definition bytecode_type_to_vmtype :: "int \<Rightarrow> vm_type option" where
  "bytecode_type_to_vmtype t =
     do { _ \<leftarrow> c_assert (0 \<le> t);
          _ \<leftarrow> c_assert (nat t < length bytecode_type_to_vmtype_map);
          read_at bytecode_type_to_vmtype_map (nat t) }"

fun vmtype_to_bytecode_type :: "vm_type \<Rightarrow> int option" where
  "vmtype_to_bytecode_type J_BOOLEAN = Some T_BOOLEAN"
| "vmtype_to_bytecode_type J_CHAR = Some T_CHAR"
| "vmtype_to_bytecode_type J_FLOAT = Some T_FLOAT"
| "vmtype_to_bytecode_type J_DOUBLE = Some T_DOUBLE"
| "vmtype_to_bytecode_type J_BYTE = Some T_BYTE"
| "vmtype_to_bytecode_type J_SHORT = Some T_SHORT"
| "vmtype_to_bytecode_type J_INT = Some T_INT"
| "vmtype_to_bytecode_type J_LONG = Some T_LONG"
| "vmtype_to_bytecode_type J_VOID = Some 0"
| "vmtype_to_bytecode_type J_REFERENCE = Some 0"
| "vmtype_to_bytecode_type J_RETURN_ADDRESS = None"

fun get_vm_type_name :: "vm_type \<Rightarrow> string" where
  "get_vm_type_name J_VOID = ''J_VOID''"
| "get_vm_type_name J_REFERENCE = ''J_REFERENCE''"
| "get_vm_type_name J_BYTE = ''J_BYTE''"
| "get_vm_type_name J_SHORT = ''J_SHORT''"
| "get_vm_type_name J_INT = ''J_INT''"
| "get_vm_type_name J_LONG = ''J_LONG''"
| "get_vm_type_name J_CHAR = ''J_CHAR''"
| "get_vm_type_name J_FLOAT = ''J_FLOAT''"
| "get_vm_type_name J_DOUBLE = ''J_DOUBLE''"
| "get_vm_type_name J_BOOLEAN = ''J_BOOLEAN''"
| "get_vm_type_name J_RETURN_ADDRESS = ''J_RETURN_ADDRESS''"

section \<open>Descriptors\<close>

text \<open>The loop of \<open>parse_class_name\<close>: its test comes after the first step.\<close>

fun parse_class_name :: "string \<Rightarrow> string option" where
  "parse_class_name [] = None"
| "parse_class_name (c # s) = (if peek s \<noteq> CHR '';'' then parse_class_name s else Some (tl s))"

definition prim_chars :: string where
  "prim_chars = ''VBCDFIJSZ''"

fun parse_array_element_type :: "string \<Rightarrow> string option" where
  "parse_array_element_type [] = None"
| "parse_array_element_type (c # s) =
     (if c = CHR ''['' then parse_array_element_type s
      else if c = CHR ''L'' then parse_class_name s
      else if c \<in> set prim_chars then Some s
      else None)"

text \<open>\<open>strndup (start, end - start)\<close> of two pointers into the string.\<close>

definition between :: "string \<Rightarrow> string \<Rightarrow> string" where
  "between start rest = take (length start - length rest) start"

fun parse_type :: "string \<Rightarrow> (vm_type_info \<times> string) option" where
  "parse_type [] = None"
| "parse_type (c # s) =
     (if c = CHR ''['' then
        do { rest \<leftarrow> parse_array_element_type s;
             Some (\<lparr>vm_type = J_REFERENCE, class_name = between (c # s) rest\<rparr>, rest) }
      else if c = CHR ''L'' then
        do { rest \<leftarrow> parse_class_name s;
             Some (\<lparr>vm_type = J_REFERENCE, class_name = butlast (between s rest)\<rparr>, rest) }
      else if c \<in> set prim_chars then
        Some (\<lparr>vm_type = str_to_type [c], class_name = [c]\<rparr>, s)
      else None)"

lemma parse_class_name_less: "parse_class_name s = Some r \<Longrightarrow> length r < length s"
  by (induction s rule: parse_class_name.induct) (auto split: if_splits)

lemma parse_array_element_type_less: "parse_array_element_type s = Some r \<Longrightarrow> length r < length s"
  by (induction s rule: parse_array_element_type.induct)
     (auto split: if_splits dest: parse_class_name_less)

lemma parse_type_less: "parse_type s = Some (i, r) \<Longrightarrow> length r < length s"
  by (cases s) (auto split: if_splits simp: bind_eq_Some_conv
      dest: parse_class_name_less parse_array_element_type_less)

text \<open>What \<open>parse_method_type\<close> writes into the method: the arguments so far and the return type. \<open>mem k\<close> says
  whether the allocation of argument \<open>k\<close> succeeds.\<close>

record method_type =
  mt_args :: "vm_type_info list"
  mt_return_type :: "vm_type_info option"

function parse_args ::
  "(nat \<Rightarrow> bool) \<Rightarrow> string \<Rightarrow> vm_type_info list \<Rightarrow> int \<times> vm_type_info list \<times> string"
where
  "parse_args mem s args =
     (if peek s = CHR '')'' then (0, args, s)
      else if \<not> mem (length args) then (- ENOMEM, args, s)
      else case parse_type s of
        None \<Rightarrow> (- 1, args, s)
      | Some (info, rest) \<Rightarrow> parse_args mem rest (args @ [info]))"
  by pat_completeness auto
termination
  by (relation "measure (\<lambda>(mem, s, args). length s)") (auto dest: parse_type_less)

declare parse_args.simps [simp del]

definition parse_method_type :: "(nat \<Rightarrow> bool) \<Rightarrow> string \<Rightarrow> int \<times> method_type" where
  "parse_method_type mem s =
     (if peek s \<noteq> CHR ''('' then (- 1, \<lparr>mt_args = [], mt_return_type = None\<rparr>)
      else case parse_args mem (tl s) [] of
        (r, args, rest) \<Rightarrow>
          if r \<noteq> 0 then (r, \<lparr>mt_args = args, mt_return_type = None\<rparr>)
          else case parse_type (tl rest) of
            None \<Rightarrow> (- 1, \<lparr>mt_args = args, mt_return_type = None\<rparr>)
          | Some (info, rest') \<Rightarrow>
              (if peek rest' \<noteq> CHR 0x00 then - 1 else 0, \<lparr>mt_args = args, mt_return_type = Some info\<rparr>))"

definition parse_field_type :: "string \<Rightarrow> vm_type_info option" where
  "parse_field_type s = map_option fst (parse_type s)"

definition count_arguments :: "vm_type_info list \<Rightarrow> nat" where
  "count_arguments args =
     fold (\<lambda>arg count. if vm_type arg = J_LONG \<or> vm_type arg = J_DOUBLE then count + 2 else count + 1) args 0"

definition vm_method_arg_slots :: "vm_type_info list \<Rightarrow> nat" where
  "vm_method_arg_slots args =
     fold (\<lambda>arg count. if vm_type_is_pair (vm_type arg) then count + 1 + 1 else count + 1) args 0"

definition count_java_arguments :: "vm_type_info list \<Rightarrow> nat" where
  "count_java_arguments args = fold (\<lambda>arg count. count + 1) args 0"

section \<open>The grammar of descriptors\<close>

datatype jtype = Prim char | Class string | Arr jtype

fun descriptor :: "jtype \<Rightarrow> string" where
  "descriptor (Prim c) = [c]"
| "descriptor (Class n) = CHR ''L'' # n @ [CHR '';'']"
| "descriptor (Arr t) = CHR ''['' # descriptor t"

text \<open>The field types of the class file format: a primitive type other than void, a class name without semicolon, an
  array of a field type. A method type has field types as arguments, and a field type or void as its return type.\<close>

fun field_type :: "jtype \<Rightarrow> bool" where
  "field_type (Prim c) = (c \<in> set ''BCDFIJSZ'')"
| "field_type (Class n) = (n \<noteq> [] \<and> CHR '';'' \<notin> set n)"
| "field_type (Arr t) = field_type t"

definition method_descriptor :: "jtype list \<Rightarrow> jtype \<Rightarrow> string" where
  "method_descriptor ts t = CHR ''('' # concat (map descriptor ts) @ CHR '')'' # descriptor t"

text \<open>What the parser takes beyond them: void, also as an element of an array, and a class name whose first
  character is a semicolon, which \<open>parse_class_name\<close> does not look at.\<close>

fun lenient_type :: "jtype \<Rightarrow> bool" where
  "lenient_type (Prim c) = (c = CHR ''V'')"
| "lenient_type (Class n) = (\<exists>m. n = CHR '';'' # m \<and> CHR '';'' \<notin> set m)"
| "lenient_type (Arr t) = lenient_type t"

fun jtype_accepted :: "jtype \<Rightarrow> bool" where
  "jtype_accepted (Prim c) = (c \<in> set prim_chars)"
| "jtype_accepted (Class n) = (n \<noteq> [] \<and> CHR '';'' \<notin> set (tl n))"
| "jtype_accepted (Arr t) = jtype_accepted t"

fun jtype_info :: "jtype \<Rightarrow> vm_type_info" where
  "jtype_info (Prim c) = \<lparr>vm_type = str_to_type [c], class_name = [c]\<rparr>"
| "jtype_info (Class n) = \<lparr>vm_type = J_REFERENCE, class_name = n\<rparr>"
| "jtype_info (Arr t) = \<lparr>vm_type = J_REFERENCE, class_name = descriptor (Arr t)\<rparr>"

lemma jtype_accepted_iff: "jtype_accepted t \<longleftrightarrow> field_type t \<or> lenient_type t"
proof (induction t)
  case (Class n)
  show ?case by (cases n) auto
qed (auto simp: prim_chars_def)

lemma peek_append_class: "n \<noteq> [] \<Longrightarrow> peek (n @ s) = hd n"
  by (cases n) auto

lemma parse_class_name_iff:
  "parse_class_name s = Some r \<longleftrightarrow> (\<exists>n. n \<noteq> [] \<and> CHR '';'' \<notin> set (tl n) \<and> s = n @ CHR '';'' # r)"
proof (induction s rule: parse_class_name.induct)
  case (2 c s)
  show ?case
  proof (cases "peek s = CHR '';''")
    case True
    then obtain s' where s': "s = CHR '';'' # s'" by (cases s) auto
    have "(\<exists>n. n \<noteq> [] \<and> CHR '';'' \<notin> set (tl n) \<and> c # s = n @ CHR '';'' # r) \<longleftrightarrow> s' = r"
    proof
      assume "\<exists>n. n \<noteq> [] \<and> CHR '';'' \<notin> set (tl n) \<and> c # s = n @ CHR '';'' # r"
      then obtain n where n: "n \<noteq> []" "CHR '';'' \<notin> set (tl n)" "c # s = n @ CHR '';'' # r" by blast
      then have "tl n = []" using s' by (cases n; cases "tl n") auto
      then show "s' = r" using n s' by (cases n) auto
    qed (use s' in \<open>auto intro!: exI [of _ "[c]"]\<close>)
    with True s' show ?thesis by auto
  next
    case False
    have "(\<exists>n. n \<noteq> [] \<and> CHR '';'' \<notin> set (tl n) \<and> c # s = n @ CHR '';'' # r) \<longleftrightarrow>
        (\<exists>n. n \<noteq> [] \<and> CHR '';'' \<notin> set (tl n) \<and> s = n @ CHR '';'' # r)"
    proof
      assume "\<exists>n. n \<noteq> [] \<and> CHR '';'' \<notin> set (tl n) \<and> c # s = n @ CHR '';'' # r"
      then obtain n where "CHR '';'' \<notin> set n" "s = n @ CHR '';'' # r" by (metis append_eq_Cons_conv list.sel(3))
      with False show "\<exists>n. n \<noteq> [] \<and> CHR '';'' \<notin> set (tl n) \<and> s = n @ CHR '';'' # r"
        by (cases n) auto
    next
      assume "\<exists>n. n \<noteq> [] \<and> CHR '';'' \<notin> set (tl n) \<and> s = n @ CHR '';'' # r"
      then obtain n where n: "n \<noteq> []" "CHR '';'' \<notin> set (tl n)" "s = n @ CHR '';'' # r" by blast
      moreover have "CHR '';'' \<notin> set n" using n False by (cases n) auto
      ultimately show "\<exists>n. n \<noteq> [] \<and> CHR '';'' \<notin> set (tl n) \<and> c # s = n @ CHR '';'' # r"
        by (intro exI [of _ "c # n"]) auto
    qed
    with False 2 show ?thesis by simp
  qed
qed simp

lemma parse_array_element_type_iff:
  "parse_array_element_type s = Some r \<longleftrightarrow> (\<exists>t. jtype_accepted t \<and> s = descriptor t @ r)"
proof (induction s rule: parse_array_element_type.induct)
  case 1
  have "descriptor t \<noteq> []" for t by (cases t) auto
  then show ?case by auto
next
  case (2 c s)
  have cls: "(\<exists>t. jtype_accepted t \<and> c # s = descriptor t @ r) \<longleftrightarrow>
      (c \<in> set prim_chars \<and> s = r) \<or>
      (c = CHR ''L'' \<and> (\<exists>n. n \<noteq> [] \<and> CHR '';'' \<notin> set (tl n) \<and> s = n @ CHR '';'' # r)) \<or>
      (c = CHR ''['' \<and> (\<exists>t. jtype_accepted t \<and> s = descriptor t @ r))" (is "?l \<longleftrightarrow> ?r")
  proof
    assume ?l
    then obtain t where "jtype_accepted t" "c # s = descriptor t @ r" by blast
    then show ?r by (cases t) auto
  next
    assume ?r
    then show ?l by (elim disjE conjE exE) (force intro: exI [of _ "Prim c"] exI [of _ "Class n" for n] exI [of _ "Arr t" for t])+
  qed
  show ?case
    unfolding cls using 2 parse_class_name_iff [of s r] by (auto simp: prim_chars_def)
qed

lemma between_append: "between (xs @ r) r = xs"
  by (simp add: between_def)

lemma descriptor_cases: "jtype_accepted t \<Longrightarrow> \<exists>c s. descriptor t = c # s \<and> (c = CHR ''['' \<or> c = CHR ''L'' \<or> c \<in> set prim_chars)"
  by (cases t) auto

lemma parse_type_complete: "jtype_accepted t \<Longrightarrow> parse_type (descriptor t @ r) = Some (jtype_info t, r)"
proof (cases t)
  case (Class n)
  assume "jtype_accepted t"
  then have "parse_class_name (n @ CHR '';'' # r) = Some r"
    using Class parse_class_name_iff [of "n @ CHR '';'' # r" r] by auto
  moreover have "between (n @ CHR '';'' # r) r = n @ [CHR '';'']" using between_append [of "n @ [CHR '';'']" r] by simp
  ultimately show ?thesis using Class by simp
next
  case (Arr t')
  assume "jtype_accepted t"
  then have "parse_array_element_type (descriptor t' @ r) = Some r"
    using Arr parse_array_element_type_iff [of "descriptor t' @ r" r] by auto
  moreover have "between (CHR ''['' # descriptor t' @ r) r = CHR ''['' # descriptor t'"
    using between_append [of "CHR ''['' # descriptor t'" r] by simp
  ultimately show ?thesis using Arr by simp
qed (auto simp: prim_chars_def)

lemma parse_type_iff:
  "parse_type s = Some (i, r) \<longleftrightarrow> (\<exists>t. jtype_accepted t \<and> s = descriptor t @ r \<and> i = jtype_info t)"
proof
  assume p: "parse_type s = Some (i, r)"
  have "\<exists>t. jtype_accepted t \<and> s = descriptor t @ r"
  proof (cases s)
    case (Cons c s')
    then consider "c = CHR ''[''" "parse_array_element_type s' = Some r" | "c = CHR ''L''" "parse_class_name s' = Some r"
      | "c \<in> set prim_chars" "s' = r"
      using p by (auto simp: bind_eq_Some_conv split: if_splits)
    then show ?thesis
    proof cases
      case 1
      then obtain t where "jtype_accepted t" "s' = descriptor t @ r" unfolding parse_array_element_type_iff by blast
      then show ?thesis using Cons 1 by (intro exI [of _ "Arr t"]) simp
    next
      case 2
      then obtain n where "n \<noteq> []" "CHR '';'' \<notin> set (tl n)" "s' = n @ CHR '';'' # r"
        unfolding parse_class_name_iff by blast
      then show ?thesis using Cons 2 by (intro exI [of _ "Class n"]) simp
    next
      case 3
      then show ?thesis using Cons by (intro exI [of _ "Prim c"]) simp
    qed
  qed (use p in simp)
  then obtain t where t: "jtype_accepted t" "s = descriptor t @ r" by blast
  then show "\<exists>t. jtype_accepted t \<and> s = descriptor t @ r \<and> i = jtype_info t"
    using p parse_type_complete [OF t(1), of r] by auto
qed (elim exE conjE, simp only: parse_type_complete)

lemma parse_args_complete:
  "\<forall>t\<in>set ts. jtype_accepted t \<Longrightarrow> peek r = CHR '')'' \<Longrightarrow>
   parse_args (\<lambda>_. True) (concat (map descriptor ts) @ r) args = (0, args @ map jtype_info ts, r)"
proof (induction ts arbitrary: args)
  case Nil
  then show ?case by (simp add: parse_args.simps [of _ r])
next
  case (Cons t ts)
  have t: "jtype_accepted t" using Cons.prems(1) by simp
  obtain c s where "descriptor t = c # s" "c = CHR ''['' \<or> c = CHR ''L'' \<or> c \<in> set prim_chars"
    using descriptor_cases [OF t] by blast
  then have "peek (descriptor t @ concat (map descriptor ts) @ r) \<noteq> CHR '')''" by (auto simp: prim_chars_def)
  then show ?case
    using Cons parse_type_complete [of t "concat (map descriptor ts) @ r"]
    by (subst parse_args.simps) simp
qed

lemma parse_args_sound:
  "parse_args mem s args = (0, args', r) \<Longrightarrow>
   peek r = CHR '')'' \<and> (\<exists>ts. (\<forall>t\<in>set ts. jtype_accepted t) \<and> s = concat (map descriptor ts) @ r \<and> args' = args @ map jtype_info ts)"
proof (induction mem s args rule: parse_args.induct)
  case (1 mem s args)
  show ?case
  proof (cases "peek s = CHR '')''")
    case True
    then show ?thesis using 1(2) by (auto simp: parse_args.simps [of mem s] intro!: exI [of _ "[]"])
  next
    case False
    then obtain i rest where p: "parse_type s = Some (i, rest)" "mem (length args)"
        "parse_args mem rest (args @ [i]) = (0, args', r)"
      using 1(2) by (auto simp: parse_args.simps [of mem s] ENOMEM_def split: if_splits option.splits)
    obtain t where t: "jtype_accepted t" "s = descriptor t @ rest" "i = jtype_info t" using p(1) parse_type_iff by blast
    obtain ts where "\<forall>t\<in>set ts. jtype_accepted t" "rest = concat (map descriptor ts) @ r"
        "args' = args @ [i] @ map jtype_info ts" "peek r = CHR '')''"
      using 1(1) [OF False _ p(1) refl p(3)] p(2) by auto
    then show ?thesis using t by (intro conjI exI [of _ "t # ts"]) auto
  qed
qed

lemma parse_method_type_complete:
  assumes "\<forall>t\<in>set ts. jtype_accepted t" "jtype_accepted t"
  shows "parse_method_type (\<lambda>_. True) (CHR ''('' # concat (map descriptor ts) @ CHR '')'' # descriptor t) =
    (0, \<lparr>mt_args = map jtype_info ts, mt_return_type = Some (jtype_info t)\<rparr>)"
  using parse_args_complete [OF assms(1), of "CHR '')'' # descriptor t" "[]"] parse_type_complete [OF assms(2), of "[]"]
  by (simp add: parse_method_type_def)

lemma parse_method_type_sound:
  assumes "parse_method_type mem s = (0, mt)" "CHR 0x00 \<notin> set s"
  shows "\<exists>ts t. (\<forall>t\<in>set ts. jtype_accepted t) \<and> jtype_accepted t \<and>
    s = CHR ''('' # concat (map descriptor ts) @ CHR '')'' # descriptor t \<and>
    mt = \<lparr>mt_args = map jtype_info ts, mt_return_type = Some (jtype_info t)\<rparr>"
proof -
  obtain r args rest where a: "parse_args mem (tl s) [] = (r, args, rest)" by (cases "parse_args mem (tl s) []")
  obtain info rest' where p: "peek s = CHR ''(''" "r = 0" "parse_type (tl rest) = Some (info, rest')"
      "peek rest' = CHR 0x00" "mt = \<lparr>mt_args = args, mt_return_type = Some info\<rparr>"
    using assms(1) a by (auto simp: parse_method_type_def split: if_splits option.splits)
  obtain ts where ts: "\<forall>t\<in>set ts. jtype_accepted t" "tl s = concat (map descriptor ts) @ rest" "args = map jtype_info ts"
      "peek rest = CHR '')''"
    using parse_args_sound [of mem "tl s" "[]" args rest] a p(2) by auto
  obtain t where t: "jtype_accepted t" "tl rest = descriptor t @ rest'" "info = jtype_info t"
    using p(3) unfolding parse_type_iff by blast
  have s: "s = CHR ''('' # tl s" "rest = CHR '')'' # tl rest" using p(1) ts(4) by (cases s; cases rest; simp)+
  have "rest' = []"
  proof (cases rest')
    case (Cons c x)
    then have "CHR 0x00 \<in> set s" using p(4) t(2) ts(2) s by (metis Un_iff list.set_intros set_append peek.simps(2))
    then show ?thesis using assms(2) by simp
  qed
  then show ?thesis using ts t s p(5) by (intro exI [of _ ts] exI [of _ t]) (metis append_Nil2)
qed

lemma slots_sum:
  "fold (\<lambda>arg count. if vm_type_is_pair (vm_type arg) then count + 1 + 1 else count + 1) args n =
     n + sum_list (map (\<lambda>arg. vm_type_slot_size (vm_type arg)) args)"
  by (induction args arbitrary: n) (auto simp: vm_type_is_pair_def vm_type_slot_size_def)

section \<open>Properties\<close>

text \<open>C12: \<open>parse_method_type\<close> on a C string. Every method descriptor of the class file format, a parenthesised sequence
  of field types followed by a field type or void, is accepted, and the arguments and the return type are those of the
  descriptor, in their order. Conversely a string that is accepted has this shape with nothing behind it, but the
  parser is more lenient in the types: it also takes void as an argument and as the element of an array, and a class
  name that begins with a semicolon.\<close>

theorem parse_method_type_exact:
  assumes "CHR 0x00 \<notin> set s"
  shows "(\<forall>ts t. s = method_descriptor ts t \<and> (\<forall>x\<in>set ts. field_type x) \<and> (field_type t \<or> t = Prim (CHR ''V'')) \<longrightarrow>
      parse_method_type (\<lambda>_. True) s = (0, \<lparr>mt_args = map jtype_info ts, mt_return_type = Some (jtype_info t)\<rparr>)) \<and>
    (parse_method_type (\<lambda>_. True) s = (0, \<lparr>mt_args = args, mt_return_type = Some ret\<rparr>) \<longleftrightarrow>
      (\<exists>ts t. s = method_descriptor ts t \<and> args = map jtype_info ts \<and> ret = jtype_info t \<and>
         (\<forall>x\<in>insert t (set ts). field_type x \<or> lenient_type x)))"
proof (intro conjI allI impI)
  fix ts t assume d: "s = method_descriptor ts t \<and> (\<forall>x\<in>set ts. field_type x) \<and> (field_type t \<or> t = Prim (CHR ''V''))"
  then have "\<forall>x\<in>set ts. jtype_accepted x" "jtype_accepted t" by (auto simp: jtype_accepted_iff)
  then show "parse_method_type (\<lambda>_. True) s = (0, \<lparr>mt_args = map jtype_info ts, mt_return_type = Some (jtype_info t)\<rparr>)"
    using d by (simp add: method_descriptor_def parse_method_type_complete)
next
  have "parse_method_type (\<lambda>_. True) s = (0, \<lparr>mt_args = args, mt_return_type = Some ret\<rparr>) \<longleftrightarrow>
    (\<exists>ts t. (\<forall>t\<in>set ts. jtype_accepted t) \<and> jtype_accepted t \<and> s = method_descriptor ts t \<and>
       args = map jtype_info ts \<and> ret = jtype_info t)" (is "?l = ?r")
  proof
    assume ?l
    from parse_method_type_sound [OF this assms] show ?r
      unfolding method_descriptor_def by (elim exE conjE) (simp only: method_type.ext_inject option.inject, blast)
  qed (elim exE conjE, simp only: method_descriptor_def parse_method_type_complete)
  then show "parse_method_type (\<lambda>_. True) s = (0, \<lparr>mt_args = args, mt_return_type = Some ret\<rparr>) \<longleftrightarrow>
      (\<exists>ts t. s = method_descriptor ts t \<and> args = map jtype_info ts \<and> ret = jtype_info t \<and>
         (\<forall>x\<in>insert t (set ts). field_type x \<or> lenient_type x))"
    unfolding jtype_accepted_iff by blast
qed

theorem parse_method_type_exact_witness:
  "parse_method_type (\<lambda>_. True) ''(I[[JLa/B;)V'' =
     (0, \<lparr>mt_args = [\<lparr>vm_type = J_INT, class_name = ''I''\<rparr>, \<lparr>vm_type = J_REFERENCE, class_name = ''[[J''\<rparr>,
        \<lparr>vm_type = J_REFERENCE, class_name = ''a/B''\<rparr>],
      mt_return_type = Some \<lparr>vm_type = J_VOID, class_name = ''V''\<rparr>\<rparr>)"
proof -
  let ?ts = "[Prim (CHR ''I''), Arr (Arr (Prim (CHR ''J''))), Class ''a/B'']"
  have "''(I[[JLa/B;)V'' = method_descriptor ?ts (Prim (CHR ''V''))" by (simp add: method_descriptor_def)
  moreover have "CHR 0x00 \<notin> set ''(I[[JLa/B;)V''" by simp
  moreover have "\<forall>x\<in>set ?ts. field_type x" by simp
  ultimately have "parse_method_type (\<lambda>_. True) ''(I[[JLa/B;)V'' =
      (0, \<lparr>mt_args = map jtype_info ?ts, mt_return_type = Some (jtype_info (Prim (CHR ''V'')))\<rparr>)"
    using parse_method_type_exact [of "''(I[[JLa/B;)V''"] by blast
  then show ?thesis by (simp add: str_to_type_def)
qed

text \<open>C23: The argument slots of a method: after a successful parse \<open>vm_method_arg_slots\<close> and \<open>count_arguments\<close> both
  give the sum of the slot sizes of the declared argument types, two for \<open>long\<close> and \<open>double\<close> and one for every other,
  and \<open>count_java_arguments\<close> gives the number of the arguments.\<close>

theorem method_arg_slots_correct:
  assumes "\<forall>t\<in>set ts. jtype_accepted t" "jtype_accepted t"
    and "parse_method_type (\<lambda>_. True) (CHR ''('' # concat (map descriptor ts) @ CHR '')'' # descriptor t) = (r, mt)"
  shows "r = 0 \<and> count_java_arguments (mt_args mt) = length ts \<and>
    vm_method_arg_slots (mt_args mt) = sum_list (map (\<lambda>t. if t = Prim (CHR ''J'') \<or> t = Prim (CHR ''D'') then 2 else 1) ts) \<and>
    count_arguments (mt_args mt) = vm_method_arg_slots (mt_args mt)"
proof -
  have mt: "r = 0" "mt_args mt = map jtype_info ts" using assms(3) parse_method_type_complete [OF assms(1,2)] by auto
  have "vm_type_slot_size (vm_type (jtype_info t)) = (if t = Prim (CHR ''J'') \<or> t = Prim (CHR ''D'') then 2 else 1)" for t
    by (cases t) (auto simp: vm_type_slot_size_def str_to_type_def)
  then have "vm_method_arg_slots (mt_args mt) =
      sum_list (map (\<lambda>t. if t = Prim (CHR ''J'') \<or> t = Prim (CHR ''D'') then 2 else 1) ts)"
    unfolding mt(2) vm_method_arg_slots_def slots_sum by (simp add: o_def)
  moreover have "fold (\<lambda>arg count. count + 1) as n = n + length as" for as :: "vm_type_info list" and n
    by (induction as arbitrary: n) auto
  moreover have "count_arguments as = vm_method_arg_slots as" for as
    unfolding count_arguments_def vm_method_arg_slots_def vm_type_is_pair_def by (rule fold_cong) auto
  ultimately show ?thesis using mt by (simp add: count_java_arguments_def)
qed

theorem method_arg_slots_correct_witness:
  "vm_method_arg_slots (mt_args (snd (parse_method_type (\<lambda>_. True) ''(IJ)D''))) = 3"
  using method_arg_slots_correct [of "[Prim (CHR ''I''), Prim (CHR ''J'')]" "Prim (CHR ''D'')"
      "fst (parse_method_type (\<lambda>_. True) ''(IJ)D'')" "snd (parse_method_type (\<lambda>_. True) ''(IJ)D'')"]
  by (simp add: prim_chars_def)

text \<open>The two tables between the types of the virtual machine and the type codes of \<open>newarray\<close> are inverse to
  each other on the eight primitive types, and the codes are exactly those from 4 to 11.\<close>

theorem newarray_type_tables:
  "(\<exists>t. bytecode_type_to_vmtype c = Some t \<and> t \<noteq> J_VOID \<and> vmtype_to_bytecode_type t = Some c) \<longleftrightarrow> 4 \<le> c \<and> c \<le> 11"
proof -
  have "c \<in> {4..11} \<Longrightarrow> \<exists>t. bytecode_type_to_vmtype c = Some t \<and> t \<noteq> J_VOID \<and> vmtype_to_bytecode_type t = Some c"
    by (subgoal_tac "c = 4 \<or> c = 5 \<or> c = 6 \<or> c = 7 \<or> c = 8 \<or> c = 9 \<or> c = 10 \<or> c = 11")
       (auto simp: bytecode_type_to_vmtype_def bytecode_type_to_vmtype_map_def c_assert_def T_BOOLEAN_def T_CHAR_def
          T_FLOAT_def T_DOUBLE_def T_BYTE_def T_SHORT_def T_INT_def T_LONG_def)
  moreover have "vmtype_to_bytecode_type t = Some c \<Longrightarrow> c = 0 \<or> (4 \<le> c \<and> c \<le> 11)" for t
    by (cases t) (auto simp: T_BOOLEAN_def T_CHAR_def T_FLOAT_def T_DOUBLE_def T_BYTE_def T_SHORT_def T_INT_def T_LONG_def)
  moreover have "bytecode_type_to_vmtype 0 = Some J_VOID" by code_simp
  ultimately show ?thesis by fastforce
qed

end
