(* ===== verification/Utf8.thy ===== *)
theory Utf8
  imports Jato_Prelude
begin

text \<open>
  Modified UTF-8, \<open>vm/utf8.c\<close>: the check and the count of the characters of a byte array, its conversion to the
  \<open>char\<close> array of a \<open>java.lang.String\<close>, and the translation of class names between dots and slashes.

  Indices are natural numbers; the source computes them in \<open>unsigned int\<close>, where \<open>i + 2\<close> does not wrap for arrays
  of less than \<open>2 ^ 32 - 1\<close> bytes. The allocation of the \<open>char\<close> array by the object allocator is the argument
  \<open>mem\<close>.

  Shown: the check accepts exactly the byte arrays that are the encoding of a sequence of 16-bit characters with
  encodings of one to three bytes, the count is the length of that sequence, the conversion never leaves its two
  arrays and gives that sequence, and it inverts the standard encoding.
\<close>

section \<open>The source\<close>

text \<open>The loop of \<open>utf8_char_count\<close> from the index \<open>i\<close>; \<^const>\<open>Inl\<close> is the error result 1, \<^const>\<open>Inr\<close> the count.\<close>

function count_from :: "u8 list \<Rightarrow> nat \<Rightarrow> nat \<Rightarrow> nat \<Rightarrow> (int + nat) option" where
  "count_from bytes n i result =
     (if i < n then
        do { b \<leftarrow> read_at bytes i;
             let result = result + 1 in
             if b AND 0x80 = 0 then count_from bytes n (i + 1) result
             else if b AND 0xe0 = 0xc0 then
               (if i + 1 \<ge> n then Some (Inl 1)
                else do { c \<leftarrow> read_at bytes (i + 1);
                          if c AND 0xc0 \<noteq> 0x80 then Some (Inl 1) else count_from bytes n (i + 1 + 1) result })
             else if b AND 0xf0 = 0xe0 then
               (if i + 2 \<ge> n then Some (Inl 1)
                else do { c \<leftarrow> read_at bytes (i + 1);
                          if c AND 0xc0 \<noteq> 0x80 then Some (Inl 1)
                          else do { d \<leftarrow> read_at bytes (i + 2);
                                    if d AND 0xc0 \<noteq> 0x80 then Some (Inl 1)
                                    else count_from bytes n (i + 2 + 1) result } })
             else Some (Inl 1) }
      else Some (Inr result))"
  by pat_completeness auto
termination
  by (relation "measure (\<lambda>(bytes, n, i, result). n - i)") auto

declare count_from.simps [simp del]

definition utf8_char_count :: "u8 list \<Rightarrow> nat \<Rightarrow> (int + nat) option" where
  "utf8_char_count bytes n = count_from bytes n 0 0"

text \<open>The loop of \<open>utf8_to_char_array\<close>. A byte that starts no sequence is skipped.\<close>

function convert_from :: "u8 list \<Rightarrow> nat \<Rightarrow> nat \<Rightarrow> nat \<Rightarrow> u16 list \<Rightarrow> u16 list option" where
  "convert_from bytes n i j chars =
     (if i < n then
        do { b \<leftarrow> read_at bytes i;
             if b AND 0x80 = 0 then
               do { chars \<leftarrow> write_at chars j (ucast b); convert_from bytes n (i + 1) (j + 1) chars }
             else if b AND 0xe0 = 0xc0 then
               do { c \<leftarrow> read_at bytes (i + 1);
                    let ch = push_bit 6 (ucast (b AND 0x1f)) + ucast (c AND 0x3f) in
                    do { chars \<leftarrow> write_at chars j ch; convert_from bytes n (i + 1 + 1) (j + 1) chars } }
             else if b AND 0xf0 = 0xe0 then
               do { c \<leftarrow> read_at bytes (i + 1);
                    d \<leftarrow> read_at bytes (i + 2);
                    let ch = push_bit 12 (ucast (b AND 0xf)) + push_bit 6 (ucast (c AND 0x3f)) + ucast (d AND 0x3f) in
                    do { chars \<leftarrow> write_at chars j ch; convert_from bytes n (i + 2 + 1) (j + 1) chars } }
             else convert_from bytes n (i + 1) j chars }
      else Some chars)"
  by pat_completeness auto
termination
  by (relation "measure (\<lambda>(bytes, n, i, j, chars). n - i)") auto

declare convert_from.simps [simp del]

text \<open>The inner option is the returned pointer.\<close>

definition utf8_to_char_array :: "bool \<Rightarrow> u8 list \<Rightarrow> nat \<Rightarrow> u16 list option option" where
  "utf8_to_char_array mem bytes n =
     do { r \<leftarrow> utf8_char_count bytes n;
          case r of
            Inl _ \<Rightarrow> Some None
          | Inr utf16_count \<Rightarrow>
              if \<not> mem then Some None
              else map_option Some (convert_from bytes n 0 0 (replicate utf16_count 0)) }"

definition dots_to_slash :: "string \<Rightarrow> string" where
  "dots_to_slash utf = map (\<lambda>c. if c = CHR ''.'' then CHR ''/'' else c) utf"

definition slash_to_dots :: "string \<Rightarrow> string" where
  "slash_to_dots utf = map (\<lambda>c. if c = CHR ''/'' then CHR ''.'' else c) utf"

section \<open>The encodings of a sequence of characters\<close>

text \<open>The reading of the next character of a byte sequence, and of all of it.\<close>

fun next_char :: "u8 list \<Rightarrow> (u16 \<times> u8 list) option" where
  "next_char (b # bs) =
     (if b AND 0x80 = 0 then Some (ucast b, bs)
      else if b AND 0xe0 = 0xc0 then
        (case bs of
           c # bs' \<Rightarrow> if c AND 0xc0 = 0x80 then Some (push_bit 6 (ucast (b AND 0x1f)) + ucast (c AND 0x3f), bs') else None
         | [] \<Rightarrow> None)
      else if b AND 0xf0 = 0xe0 then
        (case bs of
           c # d # bs' \<Rightarrow>
             if c AND 0xc0 = 0x80 \<and> d AND 0xc0 = 0x80
             then Some (push_bit 12 (ucast (b AND 0xf)) + push_bit 6 (ucast (c AND 0x3f)) + ucast (d AND 0x3f), bs')
             else None
         | _ \<Rightarrow> None)
      else None)"
| "next_char [] = None"

lemma next_char_less: "next_char bs = Some (c, bs') \<Longrightarrow> length bs' < length bs"
  by (cases bs) (auto split: if_splits list.splits)

function chars_of :: "u8 list \<Rightarrow> u16 list option" where
  "chars_of bs =
     (if bs = [] then Some []
      else case next_char bs of None \<Rightarrow> None | Some (c, bs') \<Rightarrow> map_option (Cons c) (chars_of bs'))"
  by pat_completeness auto
termination
  by (relation "measure length") (auto dest: next_char_less)

declare chars_of.simps [simp del] next_char.simps [simp del]

text \<open>The encoding of one character in modified UTF-8: zero takes two bytes.\<close>

definition encode_char :: "u16 \<Rightarrow> u8 list" where
  "encode_char c =
     (if c \<noteq> 0 \<and> c < 0x80 then [ucast c]
      else if c < 0x800 then [0xc0 OR ucast (drop_bit 6 c), 0x80 OR ucast (c AND 0x3f)]
      else [0xe0 OR ucast (drop_bit 12 c), 0x80 OR ucast (drop_bit 6 c AND 0x3f), 0x80 OR ucast (c AND 0x3f)])"

section \<open>The loops read the sequence\<close>

lemma next_char_at:
  assumes "i < length xs"
  shows "next_char (drop i xs) =
    (let b = xs ! i in
     if b AND 0x80 = 0 then Some (ucast b, drop (i + 1) xs)
     else if b AND 0xe0 = 0xc0 then
       (if i + 1 < length xs \<and> xs ! (i + 1) AND 0xc0 = 0x80
        then Some (push_bit 6 (ucast (b AND 0x1f)) + ucast (xs ! (i + 1) AND 0x3f), drop (i + 2) xs) else None)
     else if b AND 0xf0 = 0xe0 then
       (if i + 2 < length xs \<and> xs ! (i + 1) AND 0xc0 = 0x80 \<and> xs ! (i + 2) AND 0xc0 = 0x80
        then Some (push_bit 12 (ucast (b AND 0xf)) + push_bit 6 (ucast (xs ! (i + 1) AND 0x3f)) +
          ucast (xs ! (i + 2) AND 0x3f), drop (i + 3) xs) else None)
     else None)"
proof -
  have 0: "drop i xs = xs ! i # drop (i + 1) xs" using assms by (simp add: Cons_nth_drop_Suc)
  consider (stop) "i + 1 = length xs" | (one) "i + 2 = length xs" | (more) "i + 2 < length xs" using assms by linarith
  then show ?thesis
  proof cases
    case stop
    then show ?thesis unfolding 0 by (simp add: next_char.simps Let_def)
  next
    case one
    then have "drop (i + 1) xs = [xs ! (i + 1)]" by (simp add: Cons_nth_drop_Suc [symmetric] del: Cons_nth_drop_Suc)
    then show ?thesis unfolding 0 using one by (simp add: next_char.simps Let_def)
  next
    case more
    then have "drop (i + 1) xs = xs ! (i + 1) # xs ! (i + 2) # drop (i + 3) xs"
      by (simp add: Cons_nth_drop_Suc numeral_eq_Suc)
    moreover have "drop (i + 2) xs = xs ! (i + 2) # drop (i + 3) xs"
      using more by (simp add: Cons_nth_drop_Suc numeral_eq_Suc)
    ultimately show ?thesis unfolding 0 using more by (simp add: next_char.simps Let_def)
  qed
qed

lemma count_from_correct:
  assumes "n \<le> length bytes"
  shows "count_from bytes n i result =
    Some (case chars_of (drop i (take n bytes)) of None \<Rightarrow> Inl 1 | Some cs \<Rightarrow> Inr (result + length cs))"
proof (induction "n - i" arbitrary: i result rule: less_induct)
  case less
  define xs where "xs = take n bytes"
  have len: "length xs = n" using assms by (simp add: xs_def)
  have rd: "read_at bytes k = Some (xs ! k)" if "k < n" for k using that assms by (simp add: xs_def)
  show ?case
  proof (cases "i < n")
    case True
    have ch: "chars_of (drop i xs) =
        (case next_char (drop i xs) of None \<Rightarrow> None | Some (c, bs') \<Rightarrow> map_option (Cons c) (chars_of bs'))"
      using True len by (subst chars_of.simps) simp
    have ih: "count_from bytes n k r =
        Some (case chars_of (drop k xs) of None \<Rightarrow> Inl 1 | Some cs \<Rightarrow> Inr (r + length cs))" if "i < k" for k r
      unfolding xs_def by (rule less) (use True that in simp)
    show ?thesis
      unfolding xs_def [symmetric] ch
      using True rd len
      by (subst count_from.simps) (auto simp: next_char_at Let_def ih numeral_eq_Suc split: option.split)
  next
    case False
    then show ?thesis by (subst count_from.simps, subst chars_of.simps) (simp add: assms)
  qed
qed

lemma convert_from_correct:
  assumes "n \<le> length bytes" "chars_of (drop i (take n bytes)) = Some cs" "length chars = j + length cs"
  shows "convert_from bytes n i j chars = Some (take j chars @ cs)"
  using assms(2,3)
proof (induction "n - i" arbitrary: i j chars cs rule: less_induct)
  case less
  define xs where "xs = take n bytes"
  have len: "length xs = n" using assms(1) by (simp add: xs_def)
  have rd: "read_at bytes k = Some (xs ! k)" if "k < n" for k using that assms(1) by (simp add: xs_def)
  show ?case
  proof (cases "i < n")
    case True
    obtain c bs cs' where nc: "next_char (drop i xs) = Some (c, bs)" "chars_of bs = Some cs'" "cs = c # cs'"
      using less(2) True len by (subst (asm) chars_of.simps) (auto simp: xs_def [symmetric] split: option.splits)
    have step: "convert_from bytes n k (Suc j) (chars[j := c]) = Some (take j chars @ cs)" if "i < k" "bs = drop k xs" for k
      using less(1) [of k cs' "chars[j := c]" "Suc j"] that nc True less(3)
      by (simp add: xs_def take_Suc_conv_app_nth)
    show ?thesis
      using nc(1) step True rd len less(3) nc(3)
      by (subst convert_from.simps)
         (auto simp: next_char_at Let_def write_at_def numeral_eq_Suc split: if_splits)
  next
    case False
    then show ?thesis using less(2,3) by (subst convert_from.simps) (simp add: chars_of.simps assms(1))
  qed
qed

section \<open>Encoding and decoding\<close>

lemma bits_below:
  fixes c :: "'a::len word"
  assumes "unat c < 2 ^ k" "bit c j"
  shows "j < k"
proof (rule ccontr)
  assume "\<not> j < k"
  then have "(2 :: nat) ^ k \<le> 2 ^ j" by simp
  then have "unat c < 2 ^ j" using assms(1) by linarith
  then have "\<not> bit (unat c) j" by (simp add: bit_iff_odd)
  then show False using assms(2) by (simp add: bit_unsigned_iff)
qed

lemma not_bit_above: "unat c < 2 ^ k \<Longrightarrow> k \<le> j \<Longrightarrow> \<not> bit c j" for c :: "'a::len word"
  using bits_below by (metis not_le)

lemma all_less_8: "(\<forall>n<8. P n) \<longleftrightarrow> P 0 \<and> P 1 \<and> P 2 \<and> P 3 \<and> P 4 \<and> P 5 \<and> P 6 \<and> P (7 :: nat)"
  by (simp add: numeral_eq_Suc All_less_Suc) blast

lemma u8_eq_iff: "(x :: u8) = y \<longleftrightarrow> (\<forall>n<8. bit x n = bit y n)"
  by (auto intro: word_eq_by_bits)

lemma all_less_16: "(\<forall>n<16. P n) \<longleftrightarrow> (\<forall>n<8. P n) \<and>
    P 8 \<and> P 9 \<and> P 10 \<and> P 11 \<and> P 12 \<and> P 13 \<and> P 14 \<and> P (15 :: nat)"
  by (simp add: numeral_eq_Suc All_less_Suc) blast

lemma u16_eq_iff: "(x :: u16) = y \<longleftrightarrow> (\<forall>n<16. bit x n = bit y n)"
  by (auto intro: word_eq_by_bits)

lemmas bits8 = u8_eq_iff all_less_8
lemmas bits16 = u16_eq_iff all_less_16 all_less_8

lemma disjoint_add: "x AND y = 0 \<Longrightarrow> x + y = x OR y" for x y :: "'a::len word"
  by (rule disjunctive_add) (metis bit_and_iff bit_0_eq bot_apply bot_bool_def)

lemma lead2:
  assumes "(c :: u16) < 0x800" "b = (0xc0 OR ucast (drop_bit 6 c) :: u8)"
  shows "b AND 0x80 \<noteq> 0" "b AND 0xe0 = 0xc0" "b AND 0x1f = ucast (drop_bit 6 c)"
proof -
  have c: "\<not> bit c 11" "\<not> bit c 12" "\<not> bit c 13"
    using assms(1) by (simp_all add: word_less_nat_alt not_bit_above [of c 11])
  show "b AND 0x80 \<noteq> 0" "b AND 0xe0 = 0xc0" "b AND 0x1f = ucast (drop_bit 6 c)"
    unfolding assms(2) bits8 using c by (simp_all add: bit_simps bit_numeral_rec)
qed

lemma lead3:
  fixes c :: u16
  assumes "b = (0xe0 OR ucast (drop_bit 12 c) :: u8)"
  shows "b AND 0x80 \<noteq> 0" "b AND 0xe0 \<noteq> 0xc0" "b AND 0xf0 = 0xe0" "b AND 0xf = ucast (drop_bit 12 c)"
proof -
  have c: "\<not> bit c 16" "\<not> bit c 17" "\<not> bit c 18" "\<not> bit c 19" using bit_imp_le_length [of c] by fastforce+
  show "b AND 0x80 \<noteq> 0" "b AND 0xe0 \<noteq> 0xc0" "b AND 0xf0 = 0xe0" "b AND 0xf = ucast (drop_bit 12 c)"
    unfolding assms bits8 using c by (simp_all add: bit_simps bit_numeral_rec)
qed

lemma follow:
  fixes c :: u16
  assumes "b = (0x80 OR ucast (c AND 0x3f) :: u8)"
  shows "b AND 0xc0 = 0x80" "b AND 0x3f = ucast (c AND 0x3f)"
  unfolding assms bits8 by (simp_all add: bit_simps bit_numeral_rec)

lemma join2:
  fixes c :: u16
  assumes "c < 0x800"
  shows "push_bit 6 (ucast (ucast (drop_bit 6 c) :: u8)) + ucast (ucast (c AND 0x3f) :: u8) = c"
proof -
  have c: "\<not> bit c 11" "\<not> bit c 12" "\<not> bit c 13" "\<not> bit c 14" "\<not> bit c 15"
    using assms by (simp_all add: word_less_nat_alt not_bit_above [of c 11])
  show ?thesis
    by (subst disjoint_add; unfold bits16) (use c in \<open>simp_all add: bit_simps bit_numeral_rec\<close>)
qed

lemma join3:
  fixes c :: u16
  shows "push_bit 12 (ucast (ucast (drop_bit 12 c) :: u8)) + push_bit 6 (ucast (ucast (drop_bit 6 c AND 0x3f) :: u8)) +
    ucast (ucast (c AND 0x3f) :: u8) = c"
proof -
  define x y z :: u16 where "x = push_bit 12 (ucast (ucast (drop_bit 12 c) :: u8))"
    and "y = push_bit 6 (ucast (ucast (drop_bit 6 c AND 0x3f) :: u8))" and "z = ucast (ucast (c AND 0x3f) :: u8)"
  have "x AND y = 0" "(x OR y) AND z = 0" "(x OR y) OR z = c"
    unfolding bits16 x_def y_def z_def by (simp_all add: bit_simps bit_numeral_rec)
  then show ?thesis using disjoint_add [of x y] disjoint_add [of "x OR y" z] by (simp add: x_def y_def z_def)
qed

lemma ascii:
  fixes c :: u16
  assumes "c < 0x80"
  shows "(ucast c :: u8) AND 0x80 = 0" "ucast (ucast c :: u8) = c"
proof -
  have c: "\<not> bit c n" if "7 \<le> n" for n
    using assms that by (simp add: word_less_nat_alt not_bit_above [of c 7])
  show "(ucast c :: u8) AND 0x80 = 0" unfolding bits8 using c by (simp add: bit_simps bit_numeral_rec)
  show "ucast (ucast c :: u8) = c" unfolding bits16 using c by (simp add: bit_simps bit_numeral_rec)
qed

lemma next_char_encode: "next_char (encode_char c @ bs) = Some (c, bs)"
  by (auto simp: encode_char_def next_char.simps ascii lead2 lead3 follow join2 join3)

lemma chars_of_encode: "chars_of (concat (map encode_char cs)) = Some cs"
proof (induction cs)
  case (Cons c cs)
  have "encode_char c \<noteq> []" by (simp add: encode_char_def)
  then show ?case using Cons by (subst chars_of.simps) (simp add: next_char_encode)
qed (simp add: chars_of.simps)

lemma utf8_to_char_array_eq:
  assumes "n \<le> length bytes"
  shows "utf8_to_char_array True bytes n = Some (chars_of (take n bytes))"
  using convert_from_correct [OF assms, of 0] assms
  by (auto simp: utf8_to_char_array_def utf8_char_count_def count_from_correct [OF assms] split: option.splits)

section \<open>Properties\<close>

text \<open>C25: On any byte array, \<open>utf8_char_count\<close> and the conversion \<open>utf8_to_char_array\<close> read inside of the bytes and
  write inside of the array that was allocated from the count; the array is returned exactly for the byte
  sequences that decode as a sequence of one-, two- and three-byte characters, and holds that sequence.\<close>

theorem utf8_to_char_array_correct:
  assumes "n \<le> length bytes"
  shows "utf8_char_count bytes n =
      Some (case chars_of (take n bytes) of None \<Rightarrow> Inl 1 | Some cs \<Rightarrow> Inr (length cs)) \<and>
    utf8_to_char_array True bytes n = Some (chars_of (take n bytes))"
  using utf8_to_char_array_eq [OF assms] by (simp add: utf8_char_count_def count_from_correct [OF assms] split: option.split)

theorem utf8_to_char_array_correct_witness:
  "utf8_char_count [0x41, 0xc3, 0xa9, 0xff] 3 = Some (Inr 2) \<and>
   utf8_to_char_array True [0x41, 0xc3, 0xa9, 0xff] 3 = Some (Some [0x41, 0xe9]) \<and>
   utf8_to_char_array True [0x41, 0xc3, 0xa9, 0xff] 4 = Some None"
proof -
  have "chars_of (take 3 [0x41, 0xc3, 0xa9, 0xff]) = Some [0x41, 0xe9]" by code_simp
  moreover have "chars_of (take 4 [0x41, 0xc3, 0xa9, 0xff]) = None" by code_simp
  ultimately show ?thesis
    using utf8_to_char_array_correct [of 3 "[0x41, 0xc3, 0xa9, 0xff]"]
      utf8_to_char_array_correct [of 4 "[0x41, 0xc3, 0xa9, 0xff]"] by simp
qed

text \<open>C26: The conversion inverts the encoding of modified UTF-8: for every sequence of 16-bit characters, zero and
  surrogates included, converting its encoding gives the sequence back.\<close>

theorem utf8_to_char_array_encode:
  "utf8_to_char_array True (concat (map encode_char cs)) (length (concat (map encode_char cs))) = Some (Some cs)"
  by (simp only: utf8_to_char_array_eq [OF order_refl] take_all [OF order_refl] chars_of_encode)

text \<open>A class name in the form of the class file survives the translation to dots and back, unless it has a dot
  itself, and the other way round.\<close>

theorem dots_slash_roundtrip:
  "(dots_to_slash (slash_to_dots s) = s \<longleftrightarrow> CHR ''.'' \<notin> set s) \<and>
   (slash_to_dots (dots_to_slash s) = s \<longleftrightarrow> CHR ''/'' \<notin> set s)"
  by (induction s) (auto simp: dots_to_slash_def slash_to_dots_def)

end
