(* ===== verification/Verifier.thy ===== *)
theory Verifier
  imports Bytecode Bitset
begin

text \<open>
  The first pass of the bytecode verifier and its entry point, \<open>vm/verifier.c\<close>: the sweep over the instructions of
  a method, the destinations of its jumps and its exception table, and \<open>vm_method_verify\<close>.

  The method is a record of what the verifier reads of \<open>struct vm_method\<close>: the code attribute, the tags of the
  constant pool, the access flags, and the methods of the direct superclass. The list of jump destinations is a
  list of offsets in its order; \<open>mem d\<close> says whether the allocation of the list node of destination \<open>d\<close> succeeds.
  Error codes are integers as in the source, and \<^const>\<open>None\<close> is an access outside of the code, of the tables or of
  the instruction map, or a signed overflow.

  Shown: what a successful first pass guarantees for the later passes of the compiler, which read the code without
  checks; and where the pass guarantees less than its comments say.
\<close>

section \<open>Methods and errors\<close>

record code_exception =
  ex_start_pc :: nat
  ex_end_pc :: nat
  ex_handler_pc :: nat

record super_method =
  sm_name :: string
  sm_type :: string
  sm_flags :: u16

record vrf_method =
  vm_code :: "u8 list"
  code_length :: nat
  max_locals :: nat
  exception_table :: "code_exception list"
  pool_tags :: "nat list"
  method_class_name :: string
  method_name :: string
  method_type :: string
  method_flags :: u16
  super_methods :: "super_method list option"

definition E_NOT_IMPLEMENTED :: int where "E_NOT_IMPLEMENTED = - 38"
definition E_TYPE_CHECKING :: int where "E_TYPE_CHECKING = - 1"
definition E_WRONG_LOCAL_INDEX :: int where "E_WRONG_LOCAL_INDEX = - 3"
definition E_WRONG_CONSTANT_POOL_INDEX :: int where "E_WRONG_CONSTANT_POOL_INDEX = - 4"
definition E_INVALID_BRANCH :: int where "E_INVALID_BRANCH = - 5"
definition E_FALLING_OFF :: int where "E_FALLING_OFF = - 6"
definition E_INVALID_EXCEPTION_HANDLER :: int where "E_INVALID_EXCEPTION_HANDLER = - 7"
definition E_OVERRIDES_FINAL :: int where "E_OVERRIDES_FINAL = - 8"

named_theorems vrf_codes \<open>the error codes of the verifier\<close>

declare E_NOT_IMPLEMENTED_def [vrf_codes] E_TYPE_CHECKING_def [vrf_codes] E_WRONG_LOCAL_INDEX_def [vrf_codes]
  E_WRONG_CONSTANT_POOL_INDEX_def [vrf_codes] E_INVALID_BRANCH_def [vrf_codes] E_FALLING_OFF_def [vrf_codes]
  E_INVALID_EXCEPTION_HANDLER_def [vrf_codes] E_OVERRIDES_FINAL_def [vrf_codes] E_MALFORMED_BC_def [vrf_codes]
  ENOMEM_def [vrf_codes]

definition TAG_INTEGER :: nat where "TAG_INTEGER = 3"
definition TAG_FLOAT :: nat where "TAG_FLOAT = 4"
definition TAG_LONG :: nat where "TAG_LONG = 5"
definition TAG_DOUBLE :: nat where "TAG_DOUBLE = 6"
definition TAG_CLASS :: nat where "TAG_CLASS = 7"
definition TAG_STRING :: nat where "TAG_STRING = 8"

definition verify_constant_tag :: "vrf_method \<Rightarrow> nat \<Rightarrow> nat \<Rightarrow> int" where
  "verify_constant_tag m tag index =
     (if index \<ge> length (pool_tags m) then E_WRONG_CONSTANT_POOL_INDEX
      else if pool_tags m ! index \<noteq> tag then E_TYPE_CHECKING
      else 0)"

section \<open>Jump destinations\<close>

definition valid_dest :: "int \<Rightarrow> nat \<Rightarrow> nat \<Rightarrow> int" where
  "valid_dest offset pc code_size =
     (if int pc + offset < 0 then E_INVALID_BRANCH
      else if int pc + offset \<ge> int code_size then E_INVALID_BRANCH
      else 0)"

fun add_jump_destination :: "(nat \<Rightarrow> bool) \<Rightarrow> nat list \<Rightarrow> nat \<Rightarrow> int \<times> nat list" where
  "add_jump_destination mem [] dest = (if mem dest then (0, [dest]) else (ENOMEM, []))"
| "add_jump_destination mem (cur # jd) dest =
     (if dest > cur then (case add_jump_destination mem jd dest of (err, jd') \<Rightarrow> (err, cur # jd'))
      else if dest = cur then (0, cur # jd)
      else if mem dest then (0, dest # cur # jd)
      else (ENOMEM, cur # jd))"

text \<open>The test and the registration of one offset, which both switches repeat.\<close>

definition check_dest :: "(nat \<Rightarrow> bool) \<Rightarrow> nat list \<Rightarrow> int \<Rightarrow> nat \<Rightarrow> nat \<Rightarrow> int \<times> nat list" where
  "check_dest mem jd offset pc code_size =
     (let err = valid_dest offset pc code_size in
      if err \<noteq> 0 then (err, jd) else add_jump_destination mem jd (nat (int pc + offset)))"

text \<open>The loop over the offsets of a switch, which lie \<open>stride\<close> bytes apart: 4 in a \<open>tableswitch\<close>, 8 in a
  \<open>lookupswitch\<close>. With a stride of zero it would not end.\<close>

function switch_loop ::
  "nat \<Rightarrow> (nat \<Rightarrow> bool) \<Rightarrow> u8 list \<Rightarrow> nat \<Rightarrow> nat \<Rightarrow> nat \<Rightarrow> nat \<Rightarrow> nat list \<Rightarrow> (int \<times> nat list) option"
where
  "switch_loop stride mem c base_pc code_size end_pc pc jd =
     (if stride = 0 then None
      else if pc < end_pc then
        do { offset \<leftarrow> read_s32 c pc;
             let (err, jd) = check_dest mem jd offset base_pc code_size in
             if err \<noteq> 0 then Some (err, jd)
             else switch_loop stride mem c base_pc code_size end_pc (pc + stride) jd }
      else Some (0, jd))"
  by pat_completeness auto
termination
  by (relation "measure (\<lambda>(stride, mem, c, base_pc, code_size, end_pc, pc, jd). end_pc - pc)") auto

declare switch_loop.simps [simp del]

text \<open>The sum of an \<open>int\<close> and an \<open>unsigned long\<close>.\<close>

definition ulong_add :: "int \<Rightarrow> nat \<Rightarrow> nat" where
  "ulong_add i n = unat (word_of_int i + of_nat n :: u64)"

definition add_tableswitch_destinations ::
  "(nat \<Rightarrow> bool) \<Rightarrow> nat list \<Rightarrow> u8 list \<Rightarrow> nat \<Rightarrow> nat \<Rightarrow> (int \<times> nat list) option"
where
  "add_tableswitch_destinations mem jd c pc code_size =
     (let base_pc = pc;
          pc = pc + (1 + get_tableswitch_padding pc) in
      do { def \<leftarrow> read_s32 c pc;
           low \<leftarrow> read_s32 c (pc + 4);
           high \<leftarrow> read_s32 c (pc + 8);
           let pc = pc + 12;
               (err, jd) = check_dest mem jd def base_pc code_size in
           if err \<noteq> 0 then Some (err, jd)
           else do { d \<leftarrow> c_int (high - low);
                     n \<leftarrow> c_int (d * 4);
                     switch_loop 4 mem c base_pc code_size (ulong_add n pc) pc jd } })"

definition add_lookupswitch_destinations ::
  "(nat \<Rightarrow> bool) \<Rightarrow> nat list \<Rightarrow> u8 list \<Rightarrow> nat \<Rightarrow> nat \<Rightarrow> (int \<times> nat list) option"
where
  "add_lookupswitch_destinations mem jd c pc code_size =
     (let base_pc = pc;
          pc = pc + (1 + get_tableswitch_padding pc) in
      do { def \<leftarrow> read_s32 c pc;
           npairs \<leftarrow> read_s32 c (pc + 4);
           let pc = pc + 8;
               (err, jd) = check_dest mem jd def base_pc code_size in
           if err \<noteq> 0 then Some (err, jd)
           else do { n \<leftarrow> c_int (npairs * 4);
                     n \<leftarrow> c_int (n * 2);
                     switch_loop 8 mem c base_pc code_size (ulong_add n pc) (pc + 4) jd } })"

section \<open>The first pass\<close>

text \<open>The constant of an \<open>ldc\<close>, \<open>ldc_w\<close> or \<open>ldc2_w\<close>.\<close>

definition check_ldc :: "vrf_method \<Rightarrow> nat \<Rightarrow> u8 \<Rightarrow> int option" where
  "check_ldc m pc opc =
     do { index \<leftarrow> (if opc = OPC_LDC then map_option unat (read_u8 (vm_code m) (pc + 1))
                   else map_option unat (read_u16 (vm_code m) (pc + 1)));
          Some (if opc = OPC_LDC2_W then
                  (if verify_constant_tag m TAG_DOUBLE index = 0 then 0
                   else verify_constant_tag m TAG_LONG index)
                else
                  (if verify_constant_tag m TAG_INTEGER index = 0 then 0
                   else if verify_constant_tag m TAG_FLOAT index = 0 then 0
                   else if verify_constant_tag m TAG_STRING index = 0 then 0
                   else verify_constant_tag m TAG_CLASS index)) }"

text \<open>A branch; \<open>bc_is_ret\<close> is asked about the first instruction of the method, as in the source.\<close>

definition check_branch :: "vrf_method \<Rightarrow> (nat \<Rightarrow> bool) \<Rightarrow> nat \<Rightarrow> u8 \<Rightarrow> nat list \<Rightarrow> (int \<times> nat list) option" where
  "check_branch m mem pc opc jd =
     do { ret \<leftarrow> bc_is_ret (vm_code m) 0;
          if ret then Some (0, jd)
          else if opc = OPC_TABLESWITCH then add_tableswitch_destinations mem jd (vm_code m) pc (code_length m)
          else if opc = OPC_LOOKUPSWITCH then add_lookupswitch_destinations mem jd (vm_code m) pc (code_length m)
          else do { offset \<leftarrow> bc_target_off (vm_code m) pc;
                    Some (check_dest mem jd offset pc (code_length m)) } }"

definition check_insn :: "vrf_method \<Rightarrow> (nat \<Rightarrow> bool) \<Rightarrow> nat \<Rightarrow> nat list \<Rightarrow> (int \<times> nat list) option" where
  "check_insn m mem pc jd =
     do { opc \<leftarrow> read_at (vm_code m) pc;
          br \<leftarrow> bc_is_branch opc;
          lv \<leftarrow> bc_uses_local_var opc;
          if br then check_branch m mem pc opc jd
          else if lv then
            do { index \<leftarrow> get_local_var_index (vm_code m) pc;
                 Some (if index < max_locals m then 0 else E_WRONG_LOCAL_INDEX, jd) }
          else if bc_is_ldc opc then do { err \<leftarrow> check_ldc m pc opc; Some (err, jd) }
          else Some (0, jd) }"

lemma insn_size_out_neg: "0 < s \<Longrightarrow> \<not> insn_size_out pc n s < 0 \<Longrightarrow> 0 < insn_size_out pc n s"
  by (auto simp: insn_size_out_def E_MALFORMED_BC_def split: if_splits)

lemma bc_insn_size_safe_pos:
  assumes "bc_insn_size_safe c pc n = Some r" "\<not> r < 0"
  shows "0 < nat r"
proof -
  have "\<not> (E_MALFORMED_BC :: int) \<ge> 0" by (simp add: E_MALFORMED_BC_def)
  then show ?thesis
    using assms
    by (auto simp: bc_insn_size_safe_def Let_def bind_eq_Some_conv c_int_Some insn_size_out_neg split: if_splits)
qed

record sweep_state =
  sw_pc :: nat
  last_insn :: nat
  insn_map :: "u64 list"
  jmp_dests :: "nat list"

text \<open>The loop of \<open>verifier_first_pass\<close>: the error and the state at its end.\<close>

function sweep :: "vrf_method \<Rightarrow> (nat \<Rightarrow> bool) \<Rightarrow> sweep_state \<Rightarrow> (int \<times> sweep_state) option" where
  "sweep m mem s =
     (if sw_pc s < code_length m then
        do { next_insn_offset \<leftarrow> bc_insn_size_safe (vm_code m) (sw_pc s) (code_length m);
             if next_insn_offset < 0 then Some (next_insn_offset, s)
             else do {
               bs \<leftarrow> set_bit (insn_map s) (of_nat (sw_pc s));
               (err, jd) \<leftarrow> check_insn m mem (sw_pc s) (jmp_dests s);
               let s' = s\<lparr>insn_map := bs, jmp_dests := jd\<rparr> in
               if err \<noteq> 0 then Some (err, s')
               else sweep m mem (s'\<lparr>last_insn := sw_pc s, sw_pc := sw_pc s + nat next_insn_offset\<rparr>) } }
      else Some (0, s))"
  by pat_completeness auto
termination
  by (relation "measure (\<lambda>(m, mem, s). code_length m - sw_pc s)") (auto dest: bc_insn_size_safe_pos)

declare sweep.simps [simp del]

text \<open>The \<open>do\<close> loop over the exception table, with its counter \<open>i\<close> that starts at one.\<close>

fun exception_loop ::
  "(nat \<Rightarrow> bool) \<Rightarrow> nat \<Rightarrow> nat \<Rightarrow> code_exception list \<Rightarrow> nat \<Rightarrow> nat list \<Rightarrow> (int \<times> nat list) option"
where
  "exception_loop mem code_size len [] i jd = None"
| "exception_loop mem code_size len (ex # exs) i jd =
     (if ex_start_pc ex > ex_end_pc ex then Some (E_INVALID_EXCEPTION_HANDLER, jd)
      else if ex_end_pc ex > code_size then Some (E_INVALID_EXCEPTION_HANDLER, jd)
      else let (err, jd) = add_jump_destination mem jd (ex_handler_pc ex) in
        if err \<noteq> 0 then Some (err, jd)
        else if i + 1 < len then exception_loop mem code_size len exs (i + 1) jd
        else Some (0, jd))"

definition verify_exception_table :: "vrf_method \<Rightarrow> (nat \<Rightarrow> bool) \<Rightarrow> nat list \<Rightarrow> (int \<times> nat list) option" where
  "verify_exception_table m mem jd =
     (let len = length (exception_table m) in
      if len = 0 then Some (0, jd) else exception_loop mem (code_length m) len (exception_table m) 1 jd)"

text \<open>The second walk over the code, for the position of the error message: whether a branch to \<open>dest\<close> is found,
  and the position. It runs only after the sweep has measured every instruction, so that a negative size does not
  occur; the model stops there.\<close>

function rescan :: "vrf_method \<Rightarrow> nat \<Rightarrow> nat \<Rightarrow> (bool \<times> nat) option" where
  "rescan m dest pc =
     (if pc < code_length m then
        do { next_insn_offset \<leftarrow> bc_insn_size_safe (vm_code m) pc (code_length m);
             opc \<leftarrow> read_at (vm_code m) pc;
             br \<leftarrow> bc_is_branch opc;
             ret \<leftarrow> bc_is_ret (vm_code m) 0;
             hit \<leftarrow> (if br \<and> \<not> ret then map_option (\<lambda>offset. int pc + offset = int dest) (bc_target_off (vm_code m) pc)
                    else Some False);
             if hit then Some (True, pc)
             else if next_insn_offset < 0 then None
             else rescan m dest (pc + nat next_insn_offset) }
      else Some (False, pc))"
  by pat_completeness auto
termination
  by (relation "measure (\<lambda>(m, dest, pc). code_length m - pc)") (auto dest: bc_insn_size_safe_pos)

declare rescan.simps [simp del]

text \<open>The loop over the destinations: the error, the position, and whether the code jumps to \<open>out\<close>.\<close>

primrec check_dests :: "vrf_method \<Rightarrow> u64 list \<Rightarrow> nat list \<Rightarrow> int \<Rightarrow> nat \<Rightarrow> (int \<times> nat \<times> bool) option" where
  "check_dests m bs [] err pc = Some (err, pc, False)"
| "check_dests m bs (d # ds) err pc =
     do { b \<leftarrow> test_bit bs (of_nat d);
          if b then check_dests m bs ds err pc
          else do { (found, pc') \<leftarrow> rescan m d 0;
                    if found then Some (E_INVALID_BRANCH, pc', True)
                    else check_dests m bs ds E_INVALID_BRANCH pc' } }"

text \<open>\<open>verifier_first_pass\<close>; the second component is the position that \<open>verify_error\<close> reports. A failing allocation of
  the instruction map is not checked in the source.\<close>

definition verifier_first_pass :: "vrf_method \<Rightarrow> bool \<Rightarrow> (nat \<Rightarrow> bool) \<Rightarrow> (int \<times> nat) option" where
  "verifier_first_pass m mem_map mem =
     do { map0 \<leftarrow> alloc_bitset mem_map (of_nat (code_length m));
          (err, s) \<leftarrow> sweep m mem \<lparr>sw_pc = 0, last_insn = 0, insn_map = bits map0, jmp_dests = []\<rparr>;
          if err \<noteq> 0 then Some (err, sw_pc s)
          else do {
            (err, jd) \<leftarrow> verify_exception_table m mem (jmp_dests s);
            if err \<noteq> 0 then Some (err, sw_pc s)
            else do {
              (err, pc, out) \<leftarrow> check_dests m (insn_map s) jd 0 (sw_pc s);
              if out then Some (err, pc)
              else do {
                let err = (if pc \<noteq> code_length m then E_MALFORMED_BC else err);
                uncond \<leftarrow> bc_is_unconditionnal_branch (vm_code m) (last_insn s);
                Some (if \<not> uncond then E_FALLING_OFF else err, pc) } } } }"

section \<open>The entry point\<close>

definition vm_method_is_final :: "u16 \<Rightarrow> bool" where
  "vm_method_is_final flags = (flags AND 0x0010 \<noteq> 0)"

definition vm_method_is_native :: "u16 \<Rightarrow> bool" where
  "vm_method_is_native flags = (flags AND 0x0100 \<noteq> 0)"

definition vm_method_is_abstract :: "u16 \<Rightarrow> bool" where
  "vm_method_is_abstract flags = (flags AND 0x0400 \<noteq> 0)"

text \<open>The method of the same name and type of the direct superclass.\<close>

definition vm_method_get_overridden :: "vrf_method \<Rightarrow> super_method option" where
  "vm_method_get_overridden m =
     (case super_methods m of
        None \<Rightarrow> None
      | Some ms \<Rightarrow> find (\<lambda>s. sm_name s = method_name m \<and> sm_type s = method_type m) ms)"

definition vm_method_overrides_final :: "vrf_method \<Rightarrow> int" where
  "vm_method_overrides_final m =
     (if take 5 (method_class_name m) = ''java/'' then 0
      else case vm_method_get_overridden m of
        None \<Rightarrow> 0
      | Some s \<Rightarrow> if vm_method_is_final (sm_flags s) then E_OVERRIDES_FINAL else 0)"

text \<open>The string that \<open>verify_error\<close> leaves in \<open>verify_error_string\<close>.\<close>

definition verify_error :: "int \<Rightarrow> string \<Rightarrow> string" where
  "verify_error err old =
     (if err = E_MALFORMED_BC then ''Malformed bytecode''
      else if err = E_TYPE_CHECKING then ''Type checking''
      else if err = E_INVALID_BRANCH then ''Invalid jump''
      else if err = E_WRONG_LOCAL_INDEX then ''Reference to a too high local variable''
      else if err = E_WRONG_CONSTANT_POOL_INDEX then ''Reference to a too high constant''
      else if err = E_FALLING_OFF then ''Falling off method code''
      else if err = E_INVALID_EXCEPTION_HANDLER then ''Erroneous exception table''
      else if err = E_OVERRIDES_FINAL then ''Overriding final method''
      else if err = E_NOT_IMPLEMENTED then old
      else ''Unknown error'')"

text \<open>\<open>vm_method_verify\<close>: the result, the new \<open>verify_error_string\<close>, and the message of the \<open>VerifyError\<close> it signals.
  \<open>mem_ctx\<close> is the allocation of the context, \<open>preloaded\<close> says that \<open>vm_java_lang_VerifyError\<close> is there.\<close>

definition vm_method_verify ::
  "vrf_method \<Rightarrow> bool \<Rightarrow> bool \<Rightarrow> (nat \<Rightarrow> bool) \<Rightarrow> bool \<Rightarrow> string \<Rightarrow> (int \<times> string \<times> string option) option"
where
  "vm_method_verify m mem_ctx mem_map mem preloaded msg =
     (if vm_method_is_abstract (method_flags m) \<or> vm_method_is_native (method_flags m) \<or> code_length m = 0
      then Some (0, msg, None)
      else if \<not> mem_ctx then Some (ENOMEM, msg, None)
      else do {
        err \<leftarrow> (let err = vm_method_overrides_final m in
               if err \<noteq> 0 then Some err else map_option fst (verifier_first_pass m mem_map mem));
        let msg' = (if err \<noteq> 0 then verify_error err msg else msg) in
        Some (if err = E_NOT_IMPLEMENTED then (0, msg', None)
              else if err \<noteq> 0 then (err, msg', if preloaded then Some msg' else None)
              else (0, msg', None)) })"

section \<open>The instructions of a method\<close>

text \<open>The offsets that the unchecked walk \<open>bytecode_for_each_insn\<close> visits, and the destinations of an instruction.\<close>

function insns_from :: "u8 list \<Rightarrow> nat \<Rightarrow> nat \<Rightarrow> nat list" where
  "insns_from c n pc =
     (if pc < n then pc # (case bc_insn_size c pc of None \<Rightarrow> [] | Some k \<Rightarrow> insns_from c n (pc + k)) else [])"
  by pat_completeness auto
termination
  by (relation "measure (\<lambda>(c, n, pc). n - pc)") (auto dest: bc_insn_size_pos)

declare insns_from.simps [simp del]

definition insn_targets :: "u8 list \<Rightarrow> nat \<Rightarrow> int list option" where
  "insn_targets c pc =
     do { opc \<leftarrow> read_at c pc;
          let p = pc + (1 + get_tableswitch_padding pc) in
          if opc = OPC_TABLESWITCH then
            do { def \<leftarrow> read_s32 c p; low \<leftarrow> read_s32 c (p + 4); high \<leftarrow> read_s32 c (p + 8);
                 offs \<leftarrow> those (map (\<lambda>i. read_s32 c (p + 12 + 4 * i)) [0..<nat (high - low + 1)]);
                 Some (map (\<lambda>off. int pc + off) (def # offs)) }
          else if opc = OPC_LOOKUPSWITCH then
            do { def \<leftarrow> read_s32 c p; npairs \<leftarrow> read_s32 c (p + 4);
                 offs \<leftarrow> those (map (\<lambda>i. read_s32 c (p + 8 + 8 * i + 4)) [0..<nat npairs]);
                 Some (map (\<lambda>off. int pc + off) (def # offs)) }
          else do { off \<leftarrow> bc_target_off c pc; Some [int pc + off] } }"

definition checked_targets :: "u8 list \<Rightarrow> nat \<Rightarrow> int list \<Rightarrow> int list" where
  "checked_targets c pc ts = (if c ! pc = OPC_TABLESWITCH then butlast ts else ts)"

lemma those_map: "(\<And>x. x \<in> set xs \<Longrightarrow> f x = Some (g x)) \<Longrightarrow> those (map f xs) = Some (map g xs)"
  by (induction xs) auto

section \<open>Jump destinations: facts\<close>

lemma add_jump_destination_set:
  assumes "add_jump_destination mem jd dest = (0, jd')"
  shows "set jd' = insert dest (set jd)"
  using assms
proof (induction jd arbitrary: jd')
  case Nil
  then show ?case by (auto simp: ENOMEM_def split: if_splits)
next
  case (Cons cur jd)
  obtain e l where l: "add_jump_destination mem jd dest = (e, l)" by (cases "add_jump_destination mem jd dest")
  show ?case
  proof (cases "dest > cur")
    case True
    then have "e = 0" "jd' = cur # l" using Cons.prems l by simp_all
    then show ?thesis using Cons.IH [of l] l by (simp add: insert_commute)
  next
    case False
    then show ?thesis using Cons.prems by (auto simp: ENOMEM_def split: if_splits)
  qed
qed

lemma add_jump_destination_sorted:
  "sorted_wrt (<) jd \<Longrightarrow> add_jump_destination mem jd dest = (e, jd') \<Longrightarrow>
   sorted_wrt (<) jd' \<and> (e = 0 \<or> e = ENOMEM) \<and> set jd' \<subseteq> insert dest (set jd)"
proof (induction jd arbitrary: jd')
  case (Cons cur jd)
  obtain e1 l where l: "add_jump_destination mem jd dest = (e1, l)" by (cases "add_jump_destination mem jd dest")
  show ?case
  proof (cases "dest > cur")
    case True
    then have "e1 = e" "jd' = cur # l" using Cons.prems(2) l by auto
    then show ?thesis using Cons.IH [of l] Cons.prems(1) l True by auto
  next
    case False
    then show ?thesis using Cons.prems by (fastforce split: if_splits)
  qed
qed (auto split: if_splits)

definition dest_in :: "nat \<Rightarrow> nat list \<Rightarrow> int \<Rightarrow> bool" where
  "dest_in n jd t \<longleftrightarrow> 0 \<le> t \<and> t < int n \<and> nat t \<in> set jd"

text \<open>How a list of destinations grows: it keeps what it has, and what it gains is inside of the code.\<close>

definition grows :: "nat \<Rightarrow> nat list \<Rightarrow> nat list \<Rightarrow> bool" where
  "grows n jd jd' \<longleftrightarrow> set jd \<subseteq> set jd' \<and> (\<forall>d\<in>set jd'. d \<in> set jd \<or> d < n)"

lemma grows_refl [simp]: "grows n jd jd"
  by (simp add: grows_def)

lemma grows_trans: "grows n jd1 jd2 \<Longrightarrow> grows n jd2 jd3 \<Longrightarrow> grows n jd1 jd3"
  unfolding grows_def by blast

lemma dest_in_grows: "dest_in n jd t \<Longrightarrow> grows n jd jd' \<Longrightarrow> dest_in n jd' t"
  by (auto simp: dest_in_def grows_def)

lemma check_dest_ok:
  assumes "check_dest mem jd offset pc n = (0, jd')"
  shows "dest_in n jd' (int pc + offset) \<and> grows n jd jd'"
proof -
  have v: "0 \<le> int pc + offset" "int pc + offset < int n"
    and a: "add_jump_destination mem jd (nat (int pc + offset)) = (0, jd')"
    using assms by (auto simp: check_dest_def valid_dest_def E_INVALID_BRANCH_def Let_def split: if_splits)
  then show ?thesis using add_jump_destination_set [OF a] by (auto simp: dest_in_def grows_def)
qed

lemma switch_loop_ok:
  "switch_loop stride mem c base n end_pc pc jd = Some (0, jd') \<Longrightarrow>
   grows n jd jd' \<and> (\<forall>i. pc + stride * i < end_pc \<longrightarrow>
     (\<exists>off. read_s32 c (pc + stride * i) = Some off \<and> dest_in n jd' (int base + off)))"
proof (induction stride mem c base n end_pc pc jd rule: switch_loop.induct)
  case (1 stride mem c base n end_pc pc jd)
  note eq = 1(2) [unfolded switch_loop.simps [of stride mem c base n end_pc pc jd]]
  then have st: "stride \<noteq> 0" by (auto split: if_splits)
  show ?case
  proof (cases "pc < end_pc")
    case True
    then obtain off where off: "read_s32 c pc = Some off" using eq st by (cases "read_s32 c pc") auto
    obtain e jd1 where cd: "check_dest mem jd off base n = (e, jd1)" by (cases "check_dest mem jd off base n")
    have s: "read_s32 c pc = Some off" "check_dest mem jd off base n = (0, jd1)"
      "switch_loop stride mem c base n end_pc (pc + stride) jd1 = Some (0, jd')"
      using eq st True off cd by (auto split: if_splits)
    have ih: "grows n jd1 jd' \<and> (\<forall>i. pc + stride + stride * i < end_pc \<longrightarrow>
        (\<exists>off. read_s32 c (pc + stride + stride * i) = Some off \<and> dest_in n jd' (int base + off)))"
      using 1(1) [OF st True s(1) s(2) [symmetric] refl] s(3) by simp
    note d = check_dest_ok [OF s(2)]
    have "\<exists>off. read_s32 c (pc + stride * i) = Some off \<and> dest_in n jd' (int base + off)"
      if "pc + stride * i < end_pc" for i
    proof (cases i)
      case 0
      then show ?thesis using s(1) d ih dest_in_grows by auto
    next
      case (Suc j)
      then show ?thesis using ih that by (auto simp: add.assoc dest: spec [of _ j])
    qed
    then show ?thesis using d ih grows_trans by blast
  next
    case False
    then show ?thesis using eq st by simp
  qed
qed

section \<open>Switches\<close>

lemma read_s32_inside: "p + 3 < length c \<Longrightarrow> \<exists>v. read_s32 c p = Some v"
  using read_u32_inside [of p c] by (auto simp: read_s32_def)

lemma safe_tableswitch_bounds:
  assumes "bc_insn_size_safe c pc n = Some r" "\<not> r < 0" "c ! pc = OPC_TABLESWITCH" "n \<le> length c" "pc < n"
    and "p = pc + (1 + get_tableswitch_padding pc)"
  shows "\<exists>low high. read_s32 c (p + 4) = Some low \<and> read_s32 c (p + 8) = Some high \<and> low \<le> high \<and>
    p + 12 + 4 * nat (high - low + 1) \<le> n"
proof -
  define pad where "pad = get_tableswitch_padding pc"
  have "p + 12 < n"
    using assms
    by (auto simp: bc_insn_size_safe_def bytecode_read_u8_def bc_is_invalid_def Let_def E_MALFORMED_BC_def
        simp flip: pad_def split: if_splits)
  moreover then obtain low high where rd: "read_s32 c (p + 4) = Some low" "read_s32 c (p + 8) = Some high"
    using read_s32_inside [of "p + 4" c] read_s32_inside [of "p + 8" c] assms(4) by auto
  ultimately show ?thesis
    using assms(1-5) rd [unfolded assms(6)] unfolding assms(6)
    by (auto simp: bc_insn_size_safe_def bytecode_read_u8_def bc_is_invalid_def Let_def bytecode_read_s32_eq
        c_int_Some bind_eq_Some_conv E_MALFORMED_BC_def insn_size_out_def simp flip: pad_def split: if_splits)
qed

lemma safe_lookupswitch_bounds:
  assumes "bc_insn_size_safe c pc n = Some r" "\<not> r < 0" "c ! pc = OPC_LOOKUPSWITCH" "n \<le> length c" "pc < n"
    and "p = pc + (1 + get_tableswitch_padding pc)"
  shows "\<exists>np. read_s32 c (p + 4) = Some np \<and> 0 \<le> np \<and> p + 8 + 8 * nat np \<le> n"
proof -
  define pad where "pad = get_tableswitch_padding pc"
  have "p + 8 < n"
    using assms
    by (auto simp: bc_insn_size_safe_def bytecode_read_u8_def bc_is_invalid_def Let_def E_MALFORMED_BC_def
        simp flip: pad_def split: if_splits)
  moreover then obtain np where rd: "read_s32 c (p + 4) = Some np"
    using read_s32_inside [of "p + 4" c] assms(4) by auto
  ultimately show ?thesis
    using assms(1-5) rd [unfolded assms(6)] unfolding assms(6)
    by (auto simp: bc_insn_size_safe_def bytecode_read_u8_def bc_is_invalid_def Let_def bytecode_read_s32_eq
        c_int_Some bind_eq_Some_conv E_MALFORMED_BC_def insn_size_out_def simp flip: pad_def split: if_splits)
qed

lemma ulong_add_small: "0 \<le> i \<Longrightarrow> nat i + n < 2 ^ 64 \<Longrightarrow> ulong_add i n = nat i + n"
proof -
  assume i: "0 \<le> i" "nat i + n < 2 ^ 64"
  then have "(word_of_int i + of_nat n :: u64) = of_nat (nat i + n)" by simp
  then show ?thesis
    unfolding ulong_add_def using unat_of_nat_small [of "nat i + n", where 'a = 64] i(2) by (simp only:) simp
qed

lemma tableswitch_ok:
  assumes "bc_insn_size_safe c pc n = Some r" "\<not> r < 0" "c ! pc = OPC_TABLESWITCH" "n \<le> length c" "pc < n"
    and "n < 2 ^ 32" "add_tableswitch_destinations mem jd c pc n = Some (0, jd')"
  shows "\<exists>ts. insn_targets c pc = Some ts \<and> (\<forall>t\<in>set (butlast ts). dest_in n jd' t) \<and> grows n jd jd'"
proof -
  define p where "p = pc + (1 + get_tableswitch_padding pc)"
  obtain low high where lh: "read_s32 c (p + 4) = Some low" "read_s32 c (p + 8) = Some high" "low \<le> high"
      "p + 12 + 4 * nat (high - low + 1) \<le> n"
    using safe_tableswitch_bounds [OF assms(1-5) p_def] by blast
  define k where "k = nat (high - low)"
  have k: "nat (high - low + 1) = Suc k" using lh(3) by (simp add: k_def)
  obtain def where def: "read_s32 c p = Some def" using read_s32_inside [of p c] lh(4) assms(4) by auto
  have "\<exists>v. read_s32 c (p + 12 + 4 * i) = Some v" if "i \<le> k" for i
    using that lh(4) k assms(4) by (intro read_s32_inside) simp
  then obtain f where f: "read_s32 c (p + 12 + 4 * i) = Some (f i)" if "i \<le> k" for i by metis
  have offs: "those (map (\<lambda>i. read_s32 c (p + 12 + 4 * i)) [0..<Suc k]) = Some (map f [0..<Suc k])"
    by (rule those_map) (simp add: f del: upt_Suc)
  obtain e jd1 where cd: "check_dest mem jd def pc n = (e, jd1)" by (cases "check_dest mem jd def pc n")
  have "e = 0" and loop: "switch_loop 4 mem c pc n (ulong_add (4 * (high - low)) (p + 12)) (p + 12) jd1 = Some (0, jd')"
    using assms(7) [unfolded add_tableswitch_destinations_def Let_def, folded p_def] def lh(1,2) cd
    by (auto simp: bind_eq_Some_conv c_int_Some mult.commute split: if_splits)
  have stop: "ulong_add (4 * (high - low)) (p + 12) = 4 * k + (p + 12)"
    using lh(3,4) assms(6) k by (subst ulong_add_small) (auto simp: k_def nat_mult_distrib)
  have "dest_in n jd' (int pc + f i)" if "i < k" for i
  proof -
    have "\<exists>off. read_s32 c (p + 12 + 4 * i) = Some off \<and> dest_in n jd' (int pc + off)"
      using switch_loop_ok [OF loop] that unfolding stop by auto
    then show ?thesis using f [of i] that by auto
  qed
  moreover have "dest_in n jd' (int pc + def) \<and> grows n jd jd'"
    using check_dest_ok [of mem jd def pc n jd1] cd \<open>e = 0\<close> switch_loop_ok [OF loop] dest_in_grows grows_trans by auto
  moreover have "insn_targets c pc = Some (map (\<lambda>off. int pc + off) (def # map f [0..<Suc k]))"
    using def lh(1,2) offs assms(3-5) k unfolding insn_targets_def Let_def p_def [symmetric]
    by (simp del: upt_Suc)
  ultimately show ?thesis by (auto simp: butlast_append)
qed

lemma lookupswitch_ok:
  assumes "bc_insn_size_safe c pc n = Some r" "\<not> r < 0" "c ! pc = OPC_LOOKUPSWITCH" "n \<le> length c" "pc < n"
    and "n < 2 ^ 32" "add_lookupswitch_destinations mem jd c pc n = Some (0, jd')"
  shows "\<exists>ts. insn_targets c pc = Some ts \<and> (\<forall>t\<in>set ts. dest_in n jd' t) \<and> grows n jd jd'"
proof -
  define p where "p = pc + (1 + get_tableswitch_padding pc)"
  obtain np where np: "read_s32 c (p + 4) = Some np" "0 \<le> np" "p + 8 + 8 * nat np \<le> n"
    using safe_lookupswitch_bounds [OF assms(1-5) p_def] by blast
  define k where "k = nat np"
  have "\<exists>def. read_s32 c p = Some def"
    using assms(7) [unfolded add_lookupswitch_destinations_def Let_def, folded p_def] by (auto simp: bind_eq_Some_conv)
  then obtain def where def: "read_s32 c p = Some def" by blast
  have "\<exists>v. read_s32 c (p + 8 + 8 * i + 4) = Some v" if "i < k" for i
    using that np(3) assms(4) by (intro read_s32_inside) (simp add: k_def)
  then obtain f where f: "read_s32 c (p + 8 + 8 * i + 4) = Some (f i)" if "i < k" for i by metis
  have offs: "those (map (\<lambda>i. read_s32 c (p + 8 + 8 * i + 4)) [0..<k]) = Some (map f [0..<k])"
    by (rule those_map) (use f in auto)
  obtain e jd1 where cd: "check_dest mem jd def pc n = (e, jd1)" by (cases "check_dest mem jd def pc n")
  have "e = 0" and loop: "switch_loop 8 mem c pc n (ulong_add (np * 4 * 2) (p + 8)) (p + 8 + 4) jd1 = Some (0, jd')"
    using assms(7) [unfolded add_lookupswitch_destinations_def Let_def, folded p_def] def np(1) cd
    by (auto simp: bind_eq_Some_conv c_int_Some split: if_splits)
  have stop: "ulong_add (np * 4 * 2) (p + 8) = 8 * k + (p + 8)"
    using np(2,3) assms(6) by (subst ulong_add_small) (auto simp: k_def nat_mult_distrib)
  have "dest_in n jd' (int pc + f i)" if "i < k" for i
  proof -
    have "p + 8 + 4 + 8 * i = p + 8 + 8 * i + 4" by simp
    then have "\<exists>off. read_s32 c (p + 8 + 8 * i + 4) = Some off \<and> dest_in n jd' (int pc + off)"
      using switch_loop_ok [OF loop, THEN conjunct2, rule_format, of i] that unfolding stop by (simp add: add.assoc)
    then show ?thesis using f [OF that] by auto
  qed
  moreover have "dest_in n jd' (int pc + def) \<and> grows n jd jd'"
    using check_dest_ok [of mem jd def pc n jd1] cd \<open>e = 0\<close> switch_loop_ok [OF loop] dest_in_grows grows_trans by auto
  moreover have "insn_targets c pc = Some (map (\<lambda>off. int pc + off) (def # map f [0..<k]))"
    using def np(1) offs assms(3-5) unfolding insn_targets_def Let_def p_def [symmetric] by (simp add: k_def)
  ultimately show ?thesis by auto
qed

section \<open>What a successful pass has checked\<close>

definition ldc_index :: "u8 list \<Rightarrow> nat \<Rightarrow> nat option" where
  "ldc_index c pc =
     (if c ! pc = OPC_LDC then map_option unat (read_u8 c (pc + 1)) else map_option unat (read_u16 c (pc + 1)))"

definition ldc_tags :: "u8 \<Rightarrow> nat set" where
  "ldc_tags opc = (if opc = OPC_LDC2_W then {TAG_DOUBLE, TAG_LONG} else {TAG_INTEGER, TAG_FLOAT, TAG_STRING, TAG_CLASS})"

text \<open>The opcodes with a jump target: \<open>ifeq\<close> to \<open>jsr\<close>, the two switches, \<open>ifnull\<close>, \<open>ifnonnull\<close>, \<open>goto_w\<close>
  and \<open>jsr_w\<close>. The opcodes whose local variable the first pass looks at: the loads from \<open>iload\<close> to \<open>aload_3\<close>
  and the stores from \<open>istore\<close> to \<open>astore_3\<close>; \<open>iinc\<close>, \<open>ret\<close> and everything behind a \<open>wide\<close> are not among them.\<close>

definition jump_opcode :: "u8 \<Rightarrow> bool" where
  "jump_opcode opc \<longleftrightarrow> 153 \<le> opc \<and> opc \<le> 168 \<or> opc = 170 \<or> opc = 171 \<or> 198 \<le> opc \<and> opc \<le> 201"

definition load_store_opcode :: "u8 \<Rightarrow> bool" where
  "load_store_opcode opc \<longleftrightarrow> 21 \<le> opc \<and> opc \<le> 45 \<or> 54 \<le> opc \<and> opc \<le> 78"

lemma all_opcodes:
  assumes "list_all P (map word_of_nat [0..<256])"
  shows "P (opc :: u8)"
proof -
  have "opc = word_of_nat (unat opc)" by simp
  moreover have "unat opc < 256" using unsigned_less [of opc, where ?'a = nat] by simp
  ultimately show ?thesis using assms by (metis (full_types) atLeastLessThan_iff imageI le0 list.pred_set list.set_map set_upt)
qed

lemma jump_opcode_flag: "bc_is_branch opc = Some True \<longleftrightarrow> jump_opcode opc"
  by (rule all_opcodes [of "\<lambda>opc. bc_is_branch opc = Some True \<longleftrightarrow> jump_opcode opc"]) code_simp

lemma load_store_opcode_flag: "bc_uses_local_var opc = Some True \<longleftrightarrow> load_store_opcode opc"
  by (rule all_opcodes [of "\<lambda>opc. bc_uses_local_var opc = Some True \<longleftrightarrow> load_store_opcode opc"]) code_simp

lemma load_store_no_jump: "load_store_opcode opc \<Longrightarrow> \<not> jump_opcode opc"
  by (rule all_opcodes [of "\<lambda>opc. load_store_opcode opc \<longrightarrow> \<not> jump_opcode opc", rule_format]) code_simp

text \<open>One instruction: it is known, its checked destinations satisfy \<open>P\<close>, its local variable and its constant exist.\<close>

definition insn_ok :: "vrf_method \<Rightarrow> (int \<Rightarrow> bool) \<Rightarrow> nat \<Rightarrow> bool" where
  "insn_ok m P pc \<longleftrightarrow>
     (let c = vm_code m; opc = c ! pc in
      \<not> bc_is_invalid opc \<and>
      (jump_opcode opc \<longrightarrow> (\<exists>ts. insn_targets c pc = Some ts \<and> (\<forall>t\<in>set (checked_targets c pc ts). P t))) \<and>
      (load_store_opcode opc \<longrightarrow> (\<exists>i. get_local_var_index c pc = Some i \<and> i < max_locals m)) \<and>
      (bc_is_ldc opc \<longrightarrow> (\<exists>i. ldc_index c pc = Some i \<and> i < length (pool_tags m) \<and> pool_tags m ! i \<in> ldc_tags opc)))"

lemma insn_ok_mono: "insn_ok m P pc \<Longrightarrow> (\<And>t. P t \<Longrightarrow> Q t) \<Longrightarrow> insn_ok m Q pc"
  unfolding insn_ok_def Let_def by blast

lemma ldc_not_branch: "bc_is_ldc opc \<Longrightarrow> bc_is_branch opc = Some False \<and> bc_uses_local_var opc = Some False"
  unfolding bc_is_ldc_def by (elim disjE) (simp_all only:, code_simp+)

lemma verify_constant_tag_0: "verify_constant_tag m tag i = 0 \<longleftrightarrow> i < length (pool_tags m) \<and> pool_tags m ! i = tag"
  by (simp add: verify_constant_tag_def vrf_codes)

lemma check_ldc_ok:
  assumes "pc < length (vm_code m)" "opc = vm_code m ! pc" "check_ldc m pc opc = Some 0"
  shows "\<exists>i. ldc_index (vm_code m) pc = Some i \<and> i < length (pool_tags m) \<and> pool_tags m ! i \<in> ldc_tags opc"
  using assms
  by (auto simp: check_ldc_def ldc_index_def ldc_tags_def bind_eq_Some_conv verify_constant_tag_0 split: if_splits)

lemma check_insn_ok:
  assumes sz: "bc_insn_size_safe (vm_code m) pc (code_length m) = Some r" "\<not> r < 0"
    and n: "code_length m \<le> length (vm_code m)" "code_length m < 2 ^ 32" "pc < code_length m"
    and ret: "bc_is_ret (vm_code m) 0 = Some False"
    and chk: "check_insn m mem pc jd = Some (0, jd')"
  shows "insn_ok m (dest_in (code_length m) jd') pc \<and> grows (code_length m) jd jd'"
proof -
  define c where "c = vm_code m"
  have inv: "\<not> bc_is_invalid (c ! pc)"
    using sz n by (auto simp: bc_insn_size_safe_def bytecode_read_u8_def E_MALFORMED_BC_def c_def split: if_splits)
  have rd: "read_at c pc = Some (c ! pc)" using n by (simp add: c_def)
  show ?thesis
  proof (cases "bc_is_branch (c ! pc) = Some True")
    case True
    then have br: "check_branch m mem pc (c ! pc) jd = Some (0, jd')"
      using chk rd by (auto simp: check_insn_def bind_eq_Some_conv c_def)
    have "\<exists>ts. insn_targets c pc = Some ts \<and> (\<forall>t\<in>set (checked_targets c pc ts). dest_in (code_length m) jd' t) \<and>
        grows (code_length m) jd jd'"
    proof -
      consider (ts) "c ! pc = OPC_TABLESWITCH" | (ls) "c ! pc = OPC_LOOKUPSWITCH"
        | (plain) "c ! pc \<noteq> OPC_TABLESWITCH" "c ! pc \<noteq> OPC_LOOKUPSWITCH" by blast
      then show ?thesis
      proof cases
        case ts
        then show ?thesis
          using tableswitch_ok [OF sz _ n(1,3,2)] br ret by (auto simp: check_branch_def checked_targets_def c_def)
      next
        case ls
        then show ?thesis
          using lookupswitch_ok [OF sz _ n(1,3,2)] br ret by (auto simp: check_branch_def checked_targets_def c_def)
      next
        case plain
        then obtain off where "bc_target_off c pc = Some off" "check_dest mem jd off pc (code_length m) = (0, jd')"
          using br ret by (auto simp: check_branch_def bind_eq_Some_conv c_def)
        then show ?thesis
          using check_dest_ok plain rd by (fastforce simp: insn_targets_def checked_targets_def)
      qed
    qed
    then show ?thesis
      using inv True ldc_not_branch [of "c ! pc"] load_store_no_jump [of "c ! pc"] jump_opcode_flag [of "c ! pc"]
      by (auto simp: insn_ok_def Let_def c_def)
  next
    case False
    then have "jd' = jd" using chk rd by (auto simp: check_insn_def bind_eq_Some_conv c_def split: if_splits)
    moreover have "\<exists>i. get_local_var_index c pc = Some i \<and> i < max_locals m" if "bc_uses_local_var (c ! pc) = Some True"
      using chk rd False that
      by (auto simp: check_insn_def bind_eq_Some_conv c_def E_WRONG_LOCAL_INDEX_def split: if_splits)
    moreover have "check_ldc m pc (c ! pc) = Some 0" if "bc_is_ldc (c ! pc)"
      using chk rd False that ldc_not_branch [OF that] by (auto simp: check_insn_def bind_eq_Some_conv c_def)
    ultimately show ?thesis
      using inv False check_ldc_ok [of pc m "c ! pc"] n jump_opcode_flag [of "c ! pc"] load_store_opcode_flag [of "c ! pc"]
      by (auto simp: insn_ok_def Let_def c_def)
  qed
qed

section \<open>The sweep\<close>

text \<open>The widths of the class file: a code length of 32 bits, exception entries of 16.\<close>

definition method_wf :: "vrf_method \<Rightarrow> bool" where
  "method_wf m \<longleftrightarrow> code_length m \<le> length (vm_code m) \<and> code_length m < 2 ^ 32 \<and>
     (\<forall>x\<in>set (exception_table m). ex_handler_pc x < 2 ^ 16)"

abbreviation insn_starts :: "vrf_method \<Rightarrow> nat \<Rightarrow> nat list" where
  "insn_starts m pc \<equiv> insns_from (vm_code m) (code_length m) pc"

lemma insns_from_Cons:
  "pc < n \<Longrightarrow> bc_insn_size c pc = Some k \<Longrightarrow> insns_from c n pc = pc # insns_from c n (pc + k)"
  by (simp add: insns_from.simps [of c n pc])

lemma insns_from_Nil: "\<not> pc < n \<Longrightarrow> insns_from c n pc = []"
  by (simp add: insns_from.simps [of c n pc])

lemma set_bit_pc:
  assumes "pc < n" "n \<le> 64 * length bs" "n < 2 ^ 32" "set_bit bs (of_nat pc) = Some bs'"
  shows "length bs' = length bs \<and> wset bs' = insert pc (wset bs)"
proof -
  have "unat (of_nat pc :: u64) = pc" using assms(1,3) by (intro unat_of_nat_small) simp
  then show ?thesis using set_bit_eq [of "of_nat pc" bs] assms by auto
qed

definition sized :: "vrf_method \<Rightarrow> nat \<Rightarrow> bool" where
  "sized m pc \<longleftrightarrow> (\<exists>k. bc_insn_size (vm_code m) pc = Some k \<and> 0 < k \<and> pc + k \<le> code_length m)"

text \<open>One round of the loop.\<close>

lemma sweep_step:
  assumes "method_wf m" "bc_is_ret (vm_code m) 0 = Some False" "code_length m \<le> 64 * length (insn_map s)"
    and "sw_pc s < code_length m" "sweep m mem s = Some (0, s')"
  shows "\<exists>k bs jd. bc_insn_size (vm_code m) (sw_pc s) = Some k \<and> 0 < k \<and> sw_pc s + k \<le> code_length m \<and>
     length bs = length (insn_map s) \<and> wset bs = insert (sw_pc s) (wset (insn_map s)) \<and>
     insn_ok m (dest_in (code_length m) jd) (sw_pc s) \<and> grows (code_length m) (jmp_dests s) jd \<and>
     sweep m mem \<lparr>sw_pc = sw_pc s + k, last_insn = sw_pc s, insn_map = bs, jmp_dests = jd\<rparr> = Some (0, s')"
proof -
  note eq = assms(5) [unfolded sweep.simps [of m mem s]]
  have n: "code_length m \<le> length (vm_code m)" "code_length m < 2 ^ 32" using assms(1) by (simp_all add: method_wf_def)
  obtain r where r: "bc_insn_size_safe (vm_code m) (sw_pc s) (code_length m) = Some r"
    using eq assms(4) by (cases "bc_insn_size_safe (vm_code m) (sw_pc s) (code_length m)") auto
  have pos: "\<not> r < 0" using eq assms(4) r by (auto split: if_splits)
  obtain bs where bs: "set_bit (insn_map s) (of_nat (sw_pc s)) = Some bs"
    using eq assms(4) r pos by (cases "set_bit (insn_map s) (of_nat (sw_pc s))") auto
  note eq = eq [unfolded r bs, simplified assms(4) pos if_True if_False bind.bind_lunit Let_def]
  obtain e jd where ej: "check_insn m mem (sw_pc s) (jmp_dests s) = Some (e, jd)"
    using eq by (cases "check_insn m mem (sw_pc s) (jmp_dests s)") auto
  have upd: "s\<lparr>insn_map := bs, jmp_dests := jd, last_insn := sw_pc s, sw_pc := sw_pc s + nat r\<rparr> =
      \<lparr>sw_pc = sw_pc s + nat r, last_insn = sw_pc s, insn_map = bs, jmp_dests = jd\<rparr>" by (cases s) simp
  have e: "e = 0" using eq ej by (auto split: if_splits)
  have rest: "sweep m mem \<lparr>sw_pc = sw_pc s + nat r, last_insn = sw_pc s, insn_map = bs, jmp_dests = jd\<rparr> = Some (0, s')"
    using eq ej e upd by simp
  have "r \<noteq> E_MALFORMED_BC" using pos by (simp add: E_MALFORMED_BC_def)
  then have "0 < r \<and> sw_pc s + nat r \<le> code_length m \<and> bc_insn_size (vm_code m) (sw_pc s) = Some (nat r)"
    using bc_insn_size_safe_sound [OF n(1) r] by blast
  then show ?thesis
    using check_insn_ok [OF r pos n assms(4,2) ej [unfolded e]] set_bit_pc [OF assms(4,3) n(2) bs] rest
    by (intro exI [of _ "nat r"] exI [of _ bs] exI [of _ jd]) simp
qed

lemma sweep_ok:
  assumes "method_wf m" "bc_is_ret (vm_code m) 0 = Some False" "code_length m \<le> 64 * length (insn_map s)"
    and "sw_pc s \<le> code_length m" "sweep m mem s = Some (0, s')"
  shows "sw_pc s' = code_length m \<and> length (insn_map s') = length (insn_map s) \<and>
     wset (insn_map s') = wset (insn_map s) \<union> set (insn_starts m (sw_pc s)) \<and>
     (\<forall>q\<in>set (insn_starts m (sw_pc s)). sized m q \<and> insn_ok m (dest_in (code_length m) (jmp_dests s')) q) \<and>
     grows (code_length m) (jmp_dests s) (jmp_dests s') \<and>
     last_insn s' = last (last_insn s # insn_starts m (sw_pc s))"
  using assms(3-5)
proof (induction "code_length m - sw_pc s" arbitrary: s rule: less_induct)
  case less
  show ?case
  proof (cases "sw_pc s < code_length m")
    case True
    then obtain k bs jd where st: "bc_insn_size (vm_code m) (sw_pc s) = Some k" "0 < k" "sw_pc s + k \<le> code_length m"
        "length bs = length (insn_map s)" "wset bs = insert (sw_pc s) (wset (insn_map s))"
        "insn_ok m (dest_in (code_length m) jd) (sw_pc s)" "grows (code_length m) (jmp_dests s) jd"
        "sweep m mem \<lparr>sw_pc = sw_pc s + k, last_insn = sw_pc s, insn_map = bs, jmp_dests = jd\<rparr> = Some (0, s')"
      using sweep_step [OF assms(1,2) less.prems(1) True less.prems(3)] by blast
    let ?s1 = "\<lparr>sw_pc = sw_pc s + k, last_insn = sw_pc s, insn_map = bs, jmp_dests = jd\<rparr>"
    have ih: "sw_pc s' = code_length m \<and> length (insn_map s') = length bs \<and>
        wset (insn_map s') = wset bs \<union> set (insn_starts m (sw_pc s + k)) \<and>
        (\<forall>q\<in>set (insn_starts m (sw_pc s + k)). sized m q \<and> insn_ok m (dest_in (code_length m) (jmp_dests s')) q) \<and>
        grows (code_length m) jd (jmp_dests s') \<and> last_insn s' = last (sw_pc s # insn_starts m (sw_pc s + k))"
      using less.hyps [of ?s1] less.prems True st(2-4,8) by simp
    have "insn_ok m (dest_in (code_length m) (jmp_dests s')) (sw_pc s)"
      by (rule insn_ok_mono [OF st(6)]) (use ih dest_in_grows in blast)
    then show ?thesis
      using ih st(1-5,7) grows_trans unfolding insns_from_Cons [OF True st(1)] by (auto simp: sized_def)
  next
    case False
    then show ?thesis using less.prems by (auto simp: sweep.simps [of m mem s] insns_from_Nil)
  qed
qed

section \<open>Exceptions and destinations\<close>

definition exception_ok :: "nat \<Rightarrow> nat set \<Rightarrow> code_exception \<Rightarrow> bool" where
  "exception_ok n S x \<longleftrightarrow> ex_start_pc x \<le> ex_end_pc x \<and> ex_end_pc x \<le> n \<and> ex_handler_pc x \<in> S"

lemma exception_loop_ok:
  "exception_loop mem n len exs i jd = Some (0, jd') \<Longrightarrow>
   set jd \<subseteq> set jd' \<and> set jd' \<subseteq> set jd \<union> ex_handler_pc ` set exs \<and>
   (\<forall>x\<in>set (take (max 1 (len - i)) exs). exception_ok n (set jd') x)"
proof (induction mem n len exs i jd arbitrary: jd' rule: exception_loop.induct)
  case (2 mem n len ex exs i jd)
  obtain e l where el: "add_jump_destination mem jd (ex_handler_pc ex) = (e, l)"
    by (cases "add_jump_destination mem jd (ex_handler_pc ex)")
  have ok: "\<not> ex_start_pc ex > ex_end_pc ex" "\<not> ex_end_pc ex > n" "e = 0"
    using 2(2) el by (auto simp: vrf_codes split: if_splits)
  have l: "set l = insert (ex_handler_pc ex) (set jd)" using add_jump_destination_set el ok(3) by blast
  show ?case
  proof (cases "i + 1 < len")
    case True
    then have "exception_loop mem n len exs (i + 1) l = Some (0, jd')" using 2(2) el ok by simp
    from 2(1) [OF ok(1,2) el [symmetric] refl _ True this] ok(3)
    have ih: "set l \<subseteq> set jd' \<and> set jd' \<subseteq> set l \<union> ex_handler_pc ` set exs \<and>
      (\<forall>x\<in>set (take (max 1 (len - (i + 1))) exs). exception_ok n (set jd') x)" by simp
    have "max 1 (len - i) = Suc (max 1 (len - (i + 1)))" using True by simp
    then show ?thesis using ih l ok by (auto simp: exception_ok_def)
  next
    case False
    then have "max 1 (len - i) = Suc 0" "jd' = l" using 2(2) el ok by simp_all
    then show ?thesis using l ok by (auto simp: exception_ok_def)
  qed
qed simp

text \<open>The entries that the loop visits: one fewer than there are, but at least one.\<close>

definition checked_exceptions :: "vrf_method \<Rightarrow> code_exception list" where
  "checked_exceptions m = take (max 1 (length (exception_table m) - 1)) (exception_table m)"

lemma verify_exception_table_ok:
  assumes "verify_exception_table m mem jd = Some (0, jd')"
  shows "set jd \<subseteq> set jd' \<and> set jd' \<subseteq> set jd \<union> ex_handler_pc ` set (exception_table m) \<and>
    (\<forall>x\<in>set (checked_exceptions m). exception_ok (code_length m) (set jd') x)"
  using assms exception_loop_ok [of mem "code_length m" "length (exception_table m)" "exception_table m" 1 jd jd']
  by (auto simp: verify_exception_table_def checked_exceptions_def Let_def split: if_splits)

lemma check_dests_ok:
  "check_dests m bs ds err pc = Some (0, pc', out) \<Longrightarrow>
   err = 0 \<and> pc' = pc \<and> \<not> out \<and> (\<forall>d\<in>set ds. test_bit bs (of_nat d) = Some True)"
proof (induction ds arbitrary: err pc)
  case (Cons d ds)
  obtain b where b: "test_bit bs (of_nat d) = Some b" using Cons.prems by (cases "test_bit bs (of_nat d)") auto
  show ?case
  proof (cases b)
    case True
    then show ?thesis using Cons.IH [of err pc] Cons.prems b by simp
  next
    case False
    then obtain found q where "rescan m d 0 = Some (found, q)" using Cons.prems b by (cases "rescan m d 0") auto
    then show ?thesis
      using Cons.prems b False Cons.IH [of E_INVALID_BRANCH q] by (auto simp: E_INVALID_BRANCH_def split: if_splits)
  qed
qed simp

lemma test_bit_wset:
  assumes "test_bit bs (of_nat d) = Some True" "d < 2 ^ 32"
  shows "d \<in> wset bs"
proof -
  have d: "unat (of_nat d :: u64) = d" using assms(2) by (intro unat_of_nat_small) simp
  then have "d < 64 * length bs" using assms(1) test_bit_fault [of bs "of_nat d"] by fastforce
  then show ?thesis using test_bit_eq [of "of_nat d" bs] assms(1) d by simp
qed

lemma insn_count_from_sized:
  "(\<forall>q\<in>set (insn_starts m pc). sized m q) \<Longrightarrow>
   insn_count_from (vm_code m) (code_length m) pc k = Some (k + length (insn_starts m pc))"
proof (induction "code_length m - pc" arbitrary: pc k rule: less_induct)
  case less
  show ?case
  proof (cases "pc < code_length m")
    case True
    then have "pc \<in> set (insn_starts m pc)" by (simp add: insns_from.simps [of _ _ pc])
    then obtain l where l: "bc_insn_size (vm_code m) pc = Some l" "0 < l" using less.prems by (auto simp: sized_def)
    then show ?thesis
      using less.hyps [of "pc + l" "k + 1"] less.prems True
      by (simp add: insn_count_from.simps [of _ _ pc] insns_from_Cons)
  qed (simp add: insn_count_from.simps [of _ _ pc] insns_from_Nil)
qed

section \<open>Soundness of the first pass\<close>

definition first_pass_promise :: "vrf_method \<Rightarrow> bool" where
  "first_pass_promise m \<longleftrightarrow>
     (let starts = insn_starts m 0 in
      (\<forall>q\<in>set starts. sized m q \<and> insn_ok m (\<lambda>t. t \<in> int ` set starts) q) \<and>
      (\<forall>x\<in>set (checked_exceptions m). exception_ok (code_length m) (set starts) x) \<and>
      bc_is_unconditionnal_branch (vm_code m) (last starts) = Some True \<and>
      bytecode_insn_count (vm_code m) (code_length m) = Some (length starts))"

text \<open>C8: What a first pass that succeeds guarantees, for a method whose first instruction is not \<open>ret\<close>. Every
  instruction start of the unchecked walk holds a known instruction that ends inside of the code. All targets of the
  jumps, the default and all targets of a \<open>lookupswitch\<close>, and the default and all targets but the last one of a
  \<open>tableswitch\<close> are instruction starts. The index of a load or store that is not behind a \<open>wide\<close> is below
  \<open>max_locals\<close>; nothing is promised of the variables of \<open>iinc\<close>, \<open>ret\<close> and \<open>wide\<close> instructions, nor of the second
  slot of a \<open>long\<close> or \<open>double\<close>. The constant of an \<open>ldc\<close> exists and has a loadable tag. The entries of the exception
  table that the loop reaches, which are all but the last unless there is only one, delimit a range of the code and have
  an instruction start as handler. The last instruction never falls off the end, and \<open>bytecode_insn_count\<close> counts the
  instructions.\<close>

theorem verifier_first_pass_sound:
  assumes "method_wf m" "bc_is_ret (vm_code m) 0 = Some False" "0 < code_length m"
    and "verifier_first_pass m mem_map mem = Some (0, pc)"
  shows "first_pass_promise m \<and> pc = code_length m"
proof -
  have n: "code_length m < 2 ^ 32" using assms(1) by (simp add: method_wf_def)
  then have un: "unat (of_nat (code_length m) :: u64) = code_length m" by (intro unat_of_nat_small) simp
  have mm: mem_map using assms(4) by (auto simp: verifier_first_pass_def alloc_bitset_def Let_def split: if_splits)
  obtain b where b: "alloc_bitset mem_map (of_nat (code_length m)) = Some b" "bset b = {}"
      "code_length m \<le> 64 * length (bits b)"
    using alloc_bitset_eq [of "of_nat (code_length m)"] un n mm by (auto simp: bitset_wf_def)
  let ?s0 = "\<lparr>sw_pc = 0, last_insn = 0, insn_map = bits b, jmp_dests = []\<rparr>"
  note eq = assms(4) [unfolded verifier_first_pass_def b(1), simplified bind.bind_lunit]
  obtain e s where sw: "sweep m mem ?s0 = Some (e, s)" using eq by (cases "sweep m mem ?s0") auto
  have "e = 0" using eq sw by (auto split: if_splits)
  note sweep = sweep_ok [OF assms(1,2) _ _ sw [unfolded this], simplified, OF b(3)]
  obtain e2 jd where ex: "verify_exception_table m mem (jmp_dests s) = Some (e2, jd)"
    using eq sw \<open>e = 0\<close> by (cases "verify_exception_table m mem (jmp_dests s)") auto
  have "e2 = 0" using eq sw ex \<open>e = 0\<close> by (auto split: if_splits)
  note exc = verify_exception_table_ok [OF ex [unfolded this]]
  obtain e3 pc3 out where cd: "check_dests m (insn_map s) jd 0 (sw_pc s) = Some (e3, pc3, out)"
    using eq sw ex \<open>e = 0\<close> \<open>e2 = 0\<close> by (cases "check_dests m (insn_map s) jd 0 (sw_pc s)") auto
  have "e3 = 0"
    using eq sw ex cd \<open>e = 0\<close> \<open>e2 = 0\<close> by (auto simp: vrf_codes bind_eq_Some_conv split: if_splits)
  note dests = check_dests_ok [OF cd [unfolded this]]
  have fin: "bc_is_unconditionnal_branch (vm_code m) (last_insn s) = Some True \<and> pc = pc3"
    using eq sw ex cd dests \<open>e = 0\<close> \<open>e2 = 0\<close> by (auto simp: vrf_codes bind_eq_Some_conv split: if_splits)
  have start: "insn_starts m 0 \<noteq> []" using assms(3) by (simp add: insns_from.simps)
  have map: "wset (insn_map s) = set (insn_starts m 0)" using sweep b(2) by (simp add: bset_def)
  have "d < 2 ^ 32" if "d \<in> set jd" for d
    using that exc sweep n assms(1) by (fastforce simp: grows_def method_wf_def)
  then have jd: "set jd \<subseteq> set (insn_starts m 0)" using dests test_bit_wset map by blast
  have "insn_ok m (\<lambda>t. t \<in> int ` set (insn_starts m 0)) q" if "q \<in> set (insn_starts m 0)" for q
  proof (rule insn_ok_mono)
    show "insn_ok m (dest_in (code_length m) (jmp_dests s)) q" using sweep that by blast
    show "t \<in> int ` set (insn_starts m 0)" if "dest_in (code_length m) (jmp_dests s) t" for t
      using that jd exc by (auto simp: dest_in_def intro!: image_eqI [of _ _ "nat t"])
  qed
  moreover have "exception_ok (code_length m) (set (insn_starts m 0)) x" if "x \<in> set (checked_exceptions m)" for x
    using exc that jd by (auto simp: exception_ok_def)
  moreover have "bytecode_insn_count (vm_code m) (code_length m) = Some (length (insn_starts m 0))"
    using insn_count_from_sized [of m 0 0] sweep by (simp add: bytecode_insn_count_def)
  ultimately show ?thesis
    using fin dests sweep start by (simp add: first_pass_promise_def Let_def)
qed

text \<open>A method with a jump in either direction, a constant and a handler.\<close>

definition plain_method :: "u8 list \<Rightarrow> code_exception list \<Rightarrow> vrf_method" where
  "plain_method c exs =
     \<lparr>vm_code = c, code_length = length c, max_locals = 1, exception_table = exs, pool_tags = [0, TAG_STRING],
      method_class_name = ''Main'', method_name = ''f'', method_type = ''(I)V'', method_flags = 0, super_methods = None\<rparr>"

definition loop_method :: vrf_method where
  "loop_method = plain_method [0xa7, 0, 3, 0x12, 1, 0x57, 0x1a, 0x99, 0xff, 0xff, 0xb1]
     [\<lparr>ex_start_pc = 0, ex_end_pc = 5, ex_handler_pc = 5\<rparr>]"

theorem verifier_first_pass_sound_witness: "first_pass_promise loop_method"
proof -
  have "method_wf loop_method" by (simp add: method_wf_def loop_method_def plain_method_def)
  moreover have "bc_is_ret (vm_code loop_method) 0 = Some False" by code_simp
  moreover have "0 < code_length loop_method" by (simp add: loop_method_def plain_method_def)
  moreover have "verifier_first_pass loop_method True (\<lambda>_. True) = Some (0, 11)" by code_simp
  ultimately show ?thesis using verifier_first_pass_sound [of loop_method True "\<lambda>_. True" 11] by blast
qed

section \<open>What the first pass does not check\<close>

lemma check_insn_exceptions: "check_insn (m\<lparr>exception_table := exs\<rparr>) = check_insn m"
  by (simp add: fun_eq_iff check_insn_def check_branch_def check_ldc_def verify_constant_tag_def cong: if_cong)

lemma sweep_exceptions: "sweep (m\<lparr>exception_table := exs\<rparr>) mem s = sweep m mem s"
proof (induction m mem s rule: sweep.induct)
  case (1 m mem s)
  show ?case
    by (subst (1 2) sweep.simps)
      (use 1 in \<open>auto simp: check_insn_exceptions Let_def intro!: Option.bind_cong split: prod.split\<close>)
qed

lemma rescan_exceptions: "rescan (m\<lparr>exception_table := exs\<rparr>) d pc = rescan m d pc"
proof (induction m d pc rule: rescan.induct)
  case (1 m d pc)
  show ?case by (subst (1 2) rescan.simps) (use 1 in \<open>auto intro!: Option.bind_cong\<close>)
qed

lemma check_dests_exceptions: "check_dests (m\<lparr>exception_table := exs\<rparr>) bs ds err pc = check_dests m bs ds err pc"
  by (induction ds arbitrary: err pc) (simp_all add: rescan_exceptions cong: if_cong)

lemma exception_loop_last:
  "exs \<noteq> [] \<Longrightarrow> i + length exs = len \<Longrightarrow> exception_loop mem n len (exs @ [x]) i jd = exception_loop mem n len (exs @ [y]) i jd"
  by (induction exs arbitrary: i jd) (auto split: prod.split)

lemma verify_exception_table_last:
  assumes "exs \<noteq> []"
  shows "verify_exception_table (m\<lparr>exception_table := exs @ [x]\<rparr>) mem jd =
    verify_exception_table (m\<lparr>exception_table := exs @ [y]\<rparr>) mem jd"
  using exception_loop_last [OF assms, of 1 "Suc (length exs)" mem "code_length m" x jd y]
  by (simp add: verify_exception_table_def Let_def)

lemma check_insn_ret_first:
  assumes "bc_is_ret (vm_code m) 0 = Some True" "check_insn m mem pc jd = Some (e, jd')"
  shows "jd' = jd"
  using assms by (auto simp: check_insn_def check_branch_def bind_eq_Some_conv split: if_splits)

lemma sweep_ret_first:
  "sweep m mem s = Some (e, s') \<Longrightarrow> bc_is_ret (vm_code m) 0 = Some True \<Longrightarrow> jmp_dests s' = jmp_dests s"
proof (induction m mem s rule: sweep.induct)
  case (1 m mem s)
  note eq = 1(2) [unfolded sweep.simps [of m mem s]]
  show ?case
  proof (cases "sw_pc s < code_length m")
    case True
    then obtain r where r: "bc_insn_size_safe (vm_code m) (sw_pc s) (code_length m) = Some r"
      using eq by (cases "bc_insn_size_safe (vm_code m) (sw_pc s) (code_length m)") auto
    show ?thesis
    proof (cases "r < 0")
      case pos: False
      note eq = eq [unfolded r, simplified True pos if_True if_False bind.bind_lunit]
      obtain bs where bs: "set_bit (insn_map s) (of_nat (sw_pc s)) = Some bs"
        using eq by (cases "set_bit (insn_map s) (of_nat (sw_pc s))") auto
      note eq = eq [unfolded bs, simplified bind.bind_lunit Let_def]
      obtain e1 jd where ej: "check_insn m mem (sw_pc s) (jmp_dests s) = Some (e1, jd)"
        using eq by (cases "check_insn m mem (sw_pc s) (jmp_dests s)") auto
      have "jd = jmp_dests s" using check_insn_ret_first [OF 1(3) ej] .
      then show ?thesis
        using 1(1) [OF True r pos bs ej refl refl] eq ej 1(3) by (cases "e1 = 0") auto
    qed (use eq r True in auto)
  qed (use eq in simp)
qed

text \<open>C27: Two blind spots of the first pass, on every method. When the exception table has more than one entry, the
  verdict does not depend on the last one: it may be replaced by any entry. When the first instruction of the method is
  \<open>ret\<close>, the sweep records no jump destination at all, whatever the other instructions are, since the test that is
  to skip \<open>ret\<close> asks for the first instruction of the method and not for the current one.\<close>

theorem verifier_first_pass_gaps:
  "(2 \<le> length (exception_table m) \<longrightarrow>
     verifier_first_pass (m\<lparr>exception_table := butlast (exception_table m) @ [x]\<rparr>) mem_map mem =
       verifier_first_pass m mem_map mem) \<and>
   (bc_is_ret (vm_code m) 0 = Some True \<and> sweep m mem s = Some (e, s') \<longrightarrow> jmp_dests s' = jmp_dests s)"
proof (intro conjI impI)
  assume len: "2 \<le> length (exception_table m)"
  then obtain exs y where exs: "exception_table m = exs @ [y]" "exs \<noteq> []"
    by (cases "exception_table m" rule: rev_cases) (auto simp: Suc_le_eq)
  have m: "m\<lparr>exception_table := exs @ [y]\<rparr> = m" unfolding exs(1) [symmetric] by simp
  have "verify_exception_table (m\<lparr>exception_table := exs @ [x]\<rparr>) mem jd = verify_exception_table m mem jd" for jd
    using verify_exception_table_last [OF exs(2), of x m mem jd y] by (simp only: m)
  then show "verifier_first_pass (m\<lparr>exception_table := butlast (exception_table m) @ [x]\<rparr>) mem_map mem =
      verifier_first_pass m mem_map mem"
    by (simp add: exs(1) verifier_first_pass_def sweep_exceptions check_dests_exceptions cong: if_cong)
next
  assume "bc_is_ret (vm_code m) 0 = Some True \<and> sweep m mem s = Some (e, s')"
  then show "jmp_dests s' = jmp_dests s" using sweep_ret_first by blast
qed

definition handlers_method :: vrf_method where
  "handlers_method = plain_method [0x1a, 0x57, 0xb1]
     [\<lparr>ex_start_pc = 0, ex_end_pc = 1, ex_handler_pc = 1\<rparr>, \<lparr>ex_start_pc = 0, ex_end_pc = 2, ex_handler_pc = 1\<rparr>]"

definition ret_first_method :: vrf_method where
  "ret_first_method = plain_method [0xa9, 0, 0xa7, 0x7f, 0xff] []"

definition empty_sweep :: sweep_state where
  "empty_sweep = \<lparr>sw_pc = 0, last_insn = 0, insn_map = [0], jmp_dests = []\<rparr>"

theorem verifier_first_pass_gaps_witness:
  "verifier_first_pass (handlers_method\<lparr>exception_table :=
     [\<lparr>ex_start_pc = 0, ex_end_pc = 1, ex_handler_pc = 1\<rparr>, \<lparr>ex_start_pc = 9, ex_end_pc = 8, ex_handler_pc = 1000\<rparr>]\<rparr>)
     True (\<lambda>_. True) = Some (0, 3) \<and>
   insn_targets (vm_code ret_first_method) 2 = Some [32769] \<and>
   (\<exists>s. sweep ret_first_method (\<lambda>_. True) empty_sweep = Some (0, s) \<and> sw_pc s = 5 \<and> jmp_dests s = [])"
proof -
  have "verifier_first_pass handlers_method True (\<lambda>_. True) = Some (0, 3)" by code_simp
  moreover have "2 \<le> length (exception_table handlers_method)" by code_simp
  moreover have "butlast (exception_table handlers_method) = [\<lparr>ex_start_pc = 0, ex_end_pc = 1, ex_handler_pc = 1\<rparr>]"
    by code_simp
  moreover have "insn_targets (vm_code ret_first_method) 2 = Some [32769]" by code_simp
  moreover have "map_option (\<lambda>r. (fst r, sw_pc (snd r))) (sweep ret_first_method (\<lambda>_. True) empty_sweep) = Some (0, 5)"
    by code_simp
  then obtain s where s: "sweep ret_first_method (\<lambda>_. True) empty_sweep = Some (0, s)" "sw_pc s = 5" by auto
  moreover have "bc_is_ret (vm_code ret_first_method) 0 = Some True" "jmp_dests empty_sweep = []" by code_simp+
  ultimately show ?thesis
    using verifier_first_pass_gaps [of handlers_method "\<lparr>ex_start_pc = 9, ex_end_pc = 8, ex_handler_pc = 1000\<rparr>" True "\<lambda>_. True"]
      verifier_first_pass_gaps [of ret_first_method _ True "\<lambda>_. True" empty_sweep 0 s]
    by simp
qed

section \<open>Errors of the entry point\<close>

definition first_pass_errors :: "int set" where
  "first_pass_errors = {0, E_MALFORMED_BC, E_INVALID_BRANCH, E_WRONG_LOCAL_INDEX, E_WRONG_CONSTANT_POOL_INDEX,
     E_TYPE_CHECKING, E_FALLING_OFF, E_INVALID_EXCEPTION_HANDLER, ENOMEM}"

lemma add_jump_destination_err: "fst (add_jump_destination mem jd d) \<in> {0, ENOMEM}"
  by (induction mem jd d rule: add_jump_destination.induct) (auto split: prod.splits)

definition dest_errors :: "int set" where
  "dest_errors = {0, E_INVALID_BRANCH, ENOMEM}"

lemma check_dest_err: "fst (check_dest mem jd off pc n) \<in> dest_errors"
  using add_jump_destination_err [of mem jd] by (auto simp: check_dest_def valid_dest_def Let_def dest_errors_def)

lemma check_dest_eq_err: "check_dest mem jd off pc n = (e, jd') \<Longrightarrow> e \<in> dest_errors"
  using check_dest_err [of mem jd off pc n] by simp

lemma switch_loop_err:
  "switch_loop stride mem c base n end_pc pc jd = Some (e, jd') \<Longrightarrow> e \<in> dest_errors"
proof (induction stride mem c base n end_pc pc jd rule: switch_loop.induct)
  case (1 stride mem c base n end_pc pc jd)
  note eq = 1(2) [unfolded switch_loop.simps [of stride mem c base n end_pc pc jd]]
  then have st: "stride \<noteq> 0" by (auto split: if_splits)
  show ?case
  proof (cases "pc < end_pc")
    case True
    then obtain off where off: "read_s32 c pc = Some off" using eq st by (cases "read_s32 c pc") auto
    obtain e1 jd1 where cd: "check_dest mem jd off base n = (e1, jd1)" by (cases "check_dest mem jd off base n")
    show ?thesis
    proof (cases "e1 = 0")
      case e1: True
      then show ?thesis using 1(1) [OF st True off cd [symmetric] refl] eq st True off cd by simp
    next
      case False
      then show ?thesis using eq st True off cd check_dest_err [of mem jd off base n] by simp
    qed
  qed (use eq st in \<open>simp add: dest_errors_def\<close>)
qed

lemma tableswitch_err:
  "add_tableswitch_destinations mem jd c pc n = Some (e, jd') \<Longrightarrow> e \<in> dest_errors"
  by (auto simp: add_tableswitch_destinations_def Let_def bind_eq_Some_conv case_prod_beta split: if_splits
      dest: switch_loop_err check_dest_eq_err)

lemma lookupswitch_err:
  "add_lookupswitch_destinations mem jd c pc n = Some (e, jd') \<Longrightarrow> e \<in> dest_errors"
  by (auto simp: add_lookupswitch_destinations_def Let_def bind_eq_Some_conv case_prod_beta split: if_splits
      dest: switch_loop_err check_dest_eq_err)

lemma check_branch_err: "check_branch m mem pc opc jd = Some (e, jd') \<Longrightarrow> e \<in> dest_errors"
  by (auto simp: check_branch_def bind_eq_Some_conv split: if_splits
      dest: tableswitch_err lookupswitch_err check_dest_eq_err) (simp_all add: dest_errors_def)

lemma check_ldc_err: "check_ldc m pc opc = Some e \<Longrightarrow> e \<in> first_pass_errors"
  by (auto simp: check_ldc_def verify_constant_tag_def first_pass_errors_def bind_eq_Some_conv split: if_splits)

lemma dest_errors_first: "e \<in> dest_errors \<Longrightarrow> e \<in> first_pass_errors"
  by (auto simp: dest_errors_def first_pass_errors_def)

lemma check_insn_err:
  assumes "check_insn m mem pc jd = Some (e, jd')"
  shows "e \<in> first_pass_errors"
proof -
  have "0 \<in> first_pass_errors" "E_WRONG_LOCAL_INDEX \<in> first_pass_errors" by (simp_all add: first_pass_errors_def)
  then show ?thesis
    using assms check_branch_err check_ldc_err dest_errors_first
    by (auto simp: check_insn_def bind_eq_Some_conv split: if_splits)
qed

lemma sweep_err: "sweep m mem s = Some (e, s') \<Longrightarrow> code_length m \<le> length (vm_code m) \<Longrightarrow> e \<in> first_pass_errors"
proof (induction m mem s rule: sweep.induct)
  case (1 m mem s)
  note eq = 1(2) [unfolded sweep.simps [of m mem s]]
  show ?case
  proof (cases "sw_pc s < code_length m")
    case True
    then obtain r where r: "bc_insn_size_safe (vm_code m) (sw_pc s) (code_length m) = Some r"
      using eq by (cases "bc_insn_size_safe (vm_code m) (sw_pc s) (code_length m)") auto
    show ?thesis
    proof (cases "r < 0")
      case neg: True
      then have "e = E_MALFORMED_BC" using eq r True bc_insn_size_safe_sound [OF 1(3) r] by auto
      then show ?thesis by (simp add: first_pass_errors_def)
    next
      case pos: False
      note eq = eq [unfolded r, simplified True pos if_True if_False bind.bind_lunit]
      obtain bs where bs: "set_bit (insn_map s) (of_nat (sw_pc s)) = Some bs"
        using eq by (cases "set_bit (insn_map s) (of_nat (sw_pc s))") auto
      note eq = eq [unfolded bs, simplified bind.bind_lunit Let_def]
      obtain e1 jd where ej: "check_insn m mem (sw_pc s) (jmp_dests s) = Some (e1, jd)"
        using eq by (cases "check_insn m mem (sw_pc s) (jmp_dests s)") auto
      show ?thesis
      proof (cases "e1 = 0")
        case e1: True
        then show ?thesis using 1(1) [OF True r pos bs ej refl refl] eq ej 1(3) by simp
      next
        case False
        then show ?thesis using eq ej check_insn_err [OF ej] by simp
      qed
    qed
  qed (use eq in \<open>simp add: first_pass_errors_def\<close>)
qed

lemma exception_loop_err: "exception_loop mem n len exs i jd = Some (e, jd') \<Longrightarrow> e \<in> first_pass_errors"
proof (induction mem n len exs i jd rule: exception_loop.induct)
  case (2 mem n len ex exs i jd)
  obtain e1 l where el: "add_jump_destination mem jd (ex_handler_pc ex) = (e1, l)"
    by (cases "add_jump_destination mem jd (ex_handler_pc ex)")
  then have "e1 \<in> {0, ENOMEM}" using add_jump_destination_err [of mem jd "ex_handler_pc ex"] by simp
  then show ?case
    using 2 el by (auto simp: first_pass_errors_def split: if_splits)
qed simp

lemma check_dests_err: "check_dests m bs ds err pc = Some (e, pc', out) \<Longrightarrow> e = err \<or> e = E_INVALID_BRANCH"
  by (induction ds arbitrary: err pc) (fastforce simp: bind_eq_Some_conv split: if_splits)+

lemma verifier_first_pass_err:
  assumes "verifier_first_pass m mem_map mem = Some (e, pc)" "code_length m \<le> length (vm_code m)"
  shows "e \<in> first_pass_errors"
proof -
  have "e' \<in> first_pass_errors" if "verify_exception_table m mem jd = Some (e', jd')" for e' jd jd'
    using that exception_loop_err
    by (auto simp: verify_exception_table_def first_pass_errors_def Let_def split: if_splits)
  moreover have "{0, E_INVALID_BRANCH, E_MALFORMED_BC, E_FALLING_OFF} \<subseteq> first_pass_errors"
    by (simp add: first_pass_errors_def)
  ultimately show ?thesis
    using assms sweep_err [OF _ assms(2)] check_dests_err
    by (fastforce simp: verifier_first_pass_def bind_eq_Some_conv Let_def split: if_splits)
qed

text \<open>The messages of the verifier, by the error.\<close>

definition verdict_messages :: "(int \<times> string) set" where
  "verdict_messages =
     {(E_MALFORMED_BC, ''Malformed bytecode''), (E_TYPE_CHECKING, ''Type checking''), (E_INVALID_BRANCH, ''Invalid jump''),
      (E_WRONG_LOCAL_INDEX, ''Reference to a too high local variable''),
      (E_WRONG_CONSTANT_POOL_INDEX, ''Reference to a too high constant''), (E_FALLING_OFF, ''Falling off method code''),
      (E_INVALID_EXCEPTION_HANDLER, ''Erroneous exception table''), (E_OVERRIDES_FINAL, ''Overriding final method''),
      (ENOMEM, ''Unknown error'')}"

lemma verify_error_messages:
  assumes "e \<in> insert E_OVERRIDES_FINAL first_pass_errors" "e \<noteq> 0"
  shows "e \<noteq> E_NOT_IMPLEMENTED \<and> (e, verify_error e msg) \<in> verdict_messages"
  using assms by (auto simp: first_pass_errors_def verify_error_def verdict_messages_def vrf_codes)

lemma vm_method_overrides_final_err: "vm_method_overrides_final m \<in> {0, E_OVERRIDES_FINAL}"
  by (auto simp: vm_method_overrides_final_def split: option.split)


definition overriding_method :: vrf_method where
  "overriding_method = loop_method\<lparr>super_methods := Some [\<lparr>sm_name = ''f'', sm_type = ''(I)V'', sm_flags = 0x10\<rparr>]\<rparr>"


end
