(* ===== verification/Verifier_State.thy ===== *)
theory Verifier_State
  imports Verifier Vm_Types
begin

text \<open>
  The abstract state of the type-checking verifier, \<open>vm/verifier.c\<close>: the operand stack and the local variables of
  a block, the operations on them that infer what the block needs at its entry, and the test of the transition
  from one block to the next.

  The stack is the list of its operands, top first; the head of the C list, which carries \<open>VM_TYPE_MAX\<close>, is the
  end of the list, and no operand has that type. A value of two slots has its fragment on top. The type of a
  local variable is \<^const>\<open>None\<close> until it is written, since \<open>malloc\<close> does not initialise it; reading it then is
  a fault. \<open>vb_mem\<close> holds the results of the next calls of \<open>malloc\<close>, which succeed when it is empty.

  Shown: the effect of every operation, and that the transition test decides the relation between two states that
  it should decide, apart from variables that the current block never touched.
\<close>

section \<open>States\<close>

record verifier_operand =
  vop_type :: vm_type
  vop_fragment :: bool

datatype verifier_local_var_state = DEFINED | UNDEFINED | UNKNOWN

record verifier_local_var =
  lv_state :: verifier_local_var_state
  lv_type :: "vm_type option"
  lv_fragment :: bool

record verifier_state =
  vs_vars :: "verifier_local_var list"
  nb_vars :: nat
  vs_stack :: "verifier_operand list"

record verifier_block =
  begin_offset :: nat
  following_offsets :: "nat list"
  initial_state :: verifier_state
  final_state :: verifier_state
  vb_code :: "u8 list"
  vb_pc :: nat
  vb_opc :: u8
  is_wide :: bool
  vb_mem :: "bool list"

section \<open>Allocation\<close>

fun malloc :: "bool list \<Rightarrow> bool \<times> bool list" where
  "malloc [] = (True, [])"
| "malloc (ok # mem) = (ok, mem)"

definition alloc_verifier_local_var :: "nat \<Rightarrow> bool list \<Rightarrow> verifier_local_var list option \<times> bool list" where
  "alloc_verifier_local_var nb mem =
     (let (ok, mem) = malloc mem in
      (if ok then Some (replicate nb \<lparr>lv_state = UNKNOWN, lv_type = None, lv_fragment = False\<rparr>) else None, mem))"

text \<open>A failing allocation of the variables is not noticed: every access to them is then a fault.\<close>

definition alloc_verifier_state :: "nat \<Rightarrow> bool list \<Rightarrow> verifier_state option \<times> bool list" where
  "alloc_verifier_state nb mem =
     (let (ok, mem) = malloc mem in
      if \<not> ok then (None, mem)
      else let (ok, mem) = malloc mem in
        if \<not> ok then (None, mem)
        else let (vars, mem) = alloc_verifier_local_var nb mem in
          (Some \<lparr>vs_vars = (case vars of None \<Rightarrow> [] | Some vs \<Rightarrow> vs), nb_vars = nb, vs_stack = []\<rparr>, mem))"

definition alloc_verifier_block :: "vrf_method \<Rightarrow> nat \<Rightarrow> bool list \<Rightarrow> verifier_block option \<times> bool list" where
  "alloc_verifier_block m off mem =
     (let (ok, mem) = malloc mem in
      if \<not> ok then (None, mem)
      else case alloc_verifier_state (max_locals m) mem of
          (None, mem) \<Rightarrow> (None, mem)
        | (Some init, mem) \<Rightarrow>
            (case alloc_verifier_state (max_locals m) mem of
               (None, mem) \<Rightarrow> (None, mem)
             | (Some final, mem) \<Rightarrow>
                 (let (ok, mem) = malloc mem in
                  (Some \<lparr>begin_offset = off, following_offsets = [], initial_state = init, final_state = final,
                     vb_code = drop off (vm_code m), vb_pc = 0, vb_opc = 0, is_wide = False, vb_mem = mem\<rparr>, mem))))"

section \<open>Local variables\<close>

definition undef_vrf_lvar :: "verifier_state \<Rightarrow> nat \<Rightarrow> verifier_state option" where
  "undef_vrf_lvar s idx =
     do { v \<leftarrow> read_at (vs_vars s) idx;
          vars \<leftarrow> write_at (vs_vars s) idx (v\<lparr>lv_state := UNDEFINED\<rparr>);
          Some (s\<lparr>vs_vars := vars\<rparr>) }"

definition def_vrf_lvar :: "verifier_state \<Rightarrow> vm_type \<Rightarrow> nat \<Rightarrow> verifier_state option" where
  "def_vrf_lvar s t idx =
     do { v \<leftarrow> read_at (vs_vars s) idx;
          vars \<leftarrow> write_at (vs_vars s) idx (v\<lparr>lv_state := DEFINED, lv_type := Some t\<rparr>);
          if \<not> vm_type_is_pair t then Some (s\<lparr>vs_vars := vars\<rparr>)
          else do {
            v \<leftarrow> read_at vars idx;
            vars \<leftarrow> write_at vars idx (v\<lparr>lv_fragment := False\<rparr>);
            vars \<leftarrow> write_at vars (idx + 1) \<lparr>lv_state = DEFINED, lv_type = Some t, lv_fragment = True\<rparr>;
            Some (s\<lparr>vs_vars := vars\<rparr>) } }"

definition store_vrf_lvar :: "verifier_block \<Rightarrow> vm_type \<Rightarrow> nat \<Rightarrow> (int \<times> verifier_block) option" where
  "store_vrf_lvar b t idx =
     do { s \<leftarrow> def_vrf_lvar (final_state b) t idx; Some (0, b\<lparr>final_state := s\<rparr>) }"

definition peek_vrf_lvar :: "verifier_block \<Rightarrow> vm_type \<Rightarrow> nat \<Rightarrow> (int \<times> verifier_block) option" where
  "peek_vrf_lvar b t idx =
     (let vars = vs_vars (final_state b) in
      do { v \<leftarrow> read_at vars idx;
           if lv_state v = UNKNOWN then
             do { known \<leftarrow> (if vm_type_is_pair t then map_option (\<lambda>w. lv_state w \<noteq> UNKNOWN) (read_at vars (idx + 1))
                           else Some False);
                  if known then Some (E_TYPE_CHECKING, b)
                  else do { init \<leftarrow> def_vrf_lvar (initial_state b) t idx;
                            store_vrf_lvar (b\<lparr>initial_state := init\<rparr>) t idx } }
           else do {
             vt \<leftarrow> lv_type v;
             if vt \<noteq> t then Some (E_TYPE_CHECKING, b)
             else if \<not> vm_type_is_pair t then Some (0, b)
             else do {
               w \<leftarrow> read_at vars (idx + 1);
               if lv_state w \<noteq> DEFINED then Some (E_TYPE_CHECKING, b)
               else if lv_fragment v then Some (E_TYPE_CHECKING, b)
               else do {
                 wt \<leftarrow> lv_type w;
                 Some (if wt \<noteq> t \<or> \<not> lv_fragment w then E_TYPE_CHECKING else 0, b) } } } })"

section \<open>The operand stack\<close>

definition tail_def_vrf_op :: "verifier_state \<Rightarrow> vm_type \<Rightarrow> bool list \<Rightarrow> int \<times> verifier_state \<times> bool list" where
  "tail_def_vrf_op s t mem =
     (let (ok, mem) = malloc mem in
      if \<not> ok then (ENOMEM, s, mem)
      else if vm_type_is_pair t then
        (let s = s\<lparr>vs_stack := vs_stack s @ [\<lparr>vop_type = t, vop_fragment = True\<rparr>]\<rparr>;
             (ok, mem) = malloc mem in
         if \<not> ok then (ENOMEM, s, mem)
         else (0, s\<lparr>vs_stack := vs_stack s @ [\<lparr>vop_type = t, vop_fragment = False\<rparr>]\<rparr>, mem))
      else (0, s\<lparr>vs_stack := vs_stack s @ [\<lparr>vop_type = t, vop_fragment = False\<rparr>]\<rparr>, mem))"

definition vrf_stack_size :: "verifier_operand list \<Rightarrow> nat" where
  "vrf_stack_size st = length st"

definition set_final_stack :: "verifier_block \<Rightarrow> verifier_operand list \<Rightarrow> verifier_block" where
  "set_final_stack b st = b\<lparr>final_state := final_state b\<lparr>vs_stack := st\<rparr>\<rparr>"

definition push_vrf_op :: "verifier_block \<Rightarrow> vm_type \<Rightarrow> (int \<times> verifier_block) option" where
  "push_vrf_op b t =
     (let (ok, mem) = malloc (vb_mem b); b = b\<lparr>vb_mem := mem\<rparr> in
      Some (if \<not> ok then (ENOMEM, b)
            else if vm_type_is_pair t then
              (let b = set_final_stack b (\<lparr>vop_type = t, vop_fragment = False\<rparr> # vs_stack (final_state b));
                   (ok, mem) = malloc (vb_mem b); b = b\<lparr>vb_mem := mem\<rparr> in
               if \<not> ok then (ENOMEM, b)
               else (0, set_final_stack b (\<lparr>vop_type = t, vop_fragment = True\<rparr> # vs_stack (final_state b))))
            else (0, set_final_stack b (\<lparr>vop_type = t, vop_fragment = False\<rparr> # vs_stack (final_state b)))))"

text \<open>The case of an empty stack, which \<open>pop_vrf_op\<close> and \<open>peek_vrf_op\<close> share: the value is asked of the entry.\<close>

definition infer_vrf_op :: "verifier_block \<Rightarrow> vm_type \<Rightarrow> int \<times> verifier_block" where
  "infer_vrf_op b t =
     (let (err, init, mem) = tail_def_vrf_op (initial_state b) t (vb_mem b) in
      (err, b\<lparr>initial_state := init, vb_mem := mem\<rparr>))"

text \<open>The test of the first operand of the list; at its end the operand has type \<open>VM_TYPE_MAX\<close>.\<close>

definition top_is :: "verifier_operand list \<Rightarrow> vm_type \<Rightarrow> bool \<Rightarrow> bool" where
  "top_is st t frag = (case st of [] \<Rightarrow> False | el # _ \<Rightarrow> vop_type el = t \<and> vop_fragment el = frag)"

definition pop_vrf_op :: "verifier_block \<Rightarrow> vm_type \<Rightarrow> (int \<times> verifier_block) option" where
  "pop_vrf_op b t =
     (let st = vs_stack (final_state b) in
      Some (if st = [] then infer_vrf_op b t
            else if vm_type_is_pair t then
              (if \<not> top_is st t True then (E_TYPE_CHECKING, b)
               else let st = tl st; b = set_final_stack b st in
                 if \<not> top_is st t False then (E_TYPE_CHECKING, b) else (0, set_final_stack b (tl st)))
            else if \<not> top_is st t False then (E_TYPE_CHECKING, b)
            else (0, set_final_stack b (tl st))))"

definition peek_vrf_op :: "verifier_block \<Rightarrow> vm_type \<Rightarrow> (int \<times> verifier_block) option" where
  "peek_vrf_op b t =
     (let st = vs_stack (final_state b) in
      Some (if st = [] then infer_vrf_op b t
            else if vm_type_is_pair t then
              (if \<not> top_is st t True then (E_TYPE_CHECKING, b)
               else (if \<not> top_is (tl st) t False then E_TYPE_CHECKING else 0, b))
            else (if \<not> top_is st t False then E_TYPE_CHECKING else 0, b)))"

section \<open>Transitions\<close>

definition cmp_verifier_op :: "verifier_operand \<Rightarrow> verifier_operand \<Rightarrow> int" where
  "cmp_verifier_op op1 op2 =
     (if vop_type op1 \<noteq> vop_type op2 then E_TYPE_CHECKING
      else if vop_fragment op1 \<noteq> vop_fragment op2 then E_TYPE_CHECKING
      else 0)"

fun transition_loop :: "verifier_operand list \<Rightarrow> verifier_operand list \<Rightarrow> int" where
  "transition_loop [] np = 0"
| "transition_loop (cp # cs) [] = 0"
| "transition_loop (cp # cs) (np # ns) =
     (let err = cmp_verifier_op cp np in if err \<noteq> 0 then err else transition_loop cs ns)"

definition transition_verifier_stack :: "verifier_operand list \<Rightarrow> verifier_operand list \<Rightarrow> int" where
  "transition_verifier_stack stc stn =
     (if vrf_stack_size stc < vrf_stack_size stn then E_TYPE_CHECKING else transition_loop stc stn)"

text \<open>The operand of a variable, where its type has been written.\<close>

definition lv_op :: "verifier_local_var \<Rightarrow> verifier_operand option" where
  "lv_op v = map_option (\<lambda>t. \<lparr>vop_type = t, vop_fragment = lv_fragment v\<rparr>) (lv_type v)"

primrec transition_verifier_local_var :: "verifier_local_var list \<Rightarrow> verifier_local_var list \<Rightarrow> nat \<Rightarrow> int option" where
  "transition_verifier_local_var varsc varsn 0 = Some 0"
| "transition_verifier_local_var varsc varsn (Suc n) =
     do { vn \<leftarrow> read_at varsn 0;
          if lv_state vn = UNKNOWN then transition_verifier_local_var (tl varsc) (tl varsn) n
          else do {
            vc \<leftarrow> read_at varsc 0;
            if lv_state vn = DEFINED \<and> lv_state vc = UNDEFINED then Some E_TYPE_CHECKING
            else do {
              opc \<leftarrow> lv_op vc;
              opn \<leftarrow> lv_op vn;
              let err = cmp_verifier_op opc opn in
              if err \<noteq> 0 then Some err else transition_verifier_local_var (tl varsc) (tl varsn) n } } }"

definition transition_verifier_state :: "verifier_state \<Rightarrow> verifier_state \<Rightarrow> int option" where
  "transition_verifier_state sc sn =
     (let err = transition_verifier_stack (vs_stack sc) (vs_stack sn) in
      if err \<noteq> 0 then Some err
      else do { err \<leftarrow> transition_verifier_local_var (vs_vars sc) (vs_vars sn) (nb_vars sc);
                Some err })"

section \<open>The stack operations as lists\<close>

text \<open>The slots of a value, top first.\<close>

definition slots :: "vm_type \<Rightarrow> verifier_operand list" where
  "slots t = (if vm_type_is_pair t then [\<lparr>vop_type = t, vop_fragment = True\<rparr>, \<lparr>vop_type = t, vop_fragment = False\<rparr>]
              else [\<lparr>vop_type = t, vop_fragment = False\<rparr>])"

abbreviation fstack :: "verifier_block \<Rightarrow> verifier_operand list" where
  "fstack b \<equiv> vs_stack (final_state b)"

abbreviation istack :: "verifier_block \<Rightarrow> verifier_operand list" where
  "istack b \<equiv> vs_stack (initial_state b)"

lemma top_is_iff: "top_is st t frag \<longleftrightarrow> (\<exists>r. st = \<lparr>vop_type = t, vop_fragment = frag\<rparr> # r)"
  by (auto simp: top_is_def split: list.split)

lemma slots_nonempty [simp]: "slots t \<noteq> []"
  by (simp add: slots_def)

lemma set_final_stack_simps [simp]:
  "fstack (set_final_stack b st) = st" "initial_state (set_final_stack b st) = initial_state b"
  "vs_vars (final_state (set_final_stack b st)) = vs_vars (final_state b)"
  "nb_vars (final_state (set_final_stack b st)) = nb_vars (final_state b)"
  "vb_code (set_final_stack b st) = vb_code b" "vb_pc (set_final_stack b st) = vb_pc b"
  "vb_opc (set_final_stack b st) = vb_opc b" "is_wide (set_final_stack b st) = is_wide b"
  "vb_mem (set_final_stack b st) = vb_mem b"
  by (simp_all add: set_final_stack_def)

lemma infer_vrf_op_ok:
  assumes "infer_vrf_op b t = (0, b')"
  shows "\<exists>mem. b' = b\<lparr>initial_state := (initial_state b)\<lparr>vs_stack := istack b @ slots t\<rparr>, vb_mem := mem\<rparr>"
proof -
  obtain ok mem where m: "malloc (vb_mem b) = (ok, mem)" by (cases "malloc (vb_mem b)")
  obtain ok2 mem2 where m2: "malloc mem = (ok2, mem2)" by (cases "malloc mem")
  show ?thesis
    using assms m m2
    by (auto simp: infer_vrf_op_def tail_def_vrf_op_def slots_def ENOMEM_def Let_def split: if_splits)
qed

lemma pop_vrf_op_ok:
  assumes "pop_vrf_op b t = Some (0, b')"
  shows "(fstack b = [] \<and> (\<exists>mem. b' = b\<lparr>initial_state := (initial_state b)\<lparr>vs_stack := istack b @ slots t\<rparr>, vb_mem := mem\<rparr>)) \<or>
    (\<exists>r. fstack b = slots t @ r \<and> b' = set_final_stack b r)"
proof (cases "fstack b = []")
  case True
  then show ?thesis using assms infer_vrf_op_ok [of b t b'] by (simp add: pop_vrf_op_def)
next
  case False
  have "set_final_stack (set_final_stack b st) st' = set_final_stack b st'" for st st' by (simp add: set_final_stack_def)
  then show ?thesis
    using assms False
    by (auto simp: pop_vrf_op_def slots_def top_is_iff Let_def E_TYPE_CHECKING_def split: if_splits)
qed

lemma pop_vrf_op_slots: "fstack b = slots t @ r \<Longrightarrow> pop_vrf_op b t = Some (0, set_final_stack b r)"
  by (auto simp: pop_vrf_op_def slots_def top_is_def set_final_stack_def split: if_splits)

lemma push_vrf_op_ok:
  assumes "push_vrf_op b t = Some (0, b')"
  shows "\<exists>mem. b' = set_final_stack (b\<lparr>vb_mem := mem\<rparr>) (slots t @ fstack b)"
proof -
  obtain ok mem where m: "malloc (vb_mem b) = (ok, mem)" by (cases "malloc (vb_mem b)")
  obtain ok2 mem2 where m2: "malloc mem = (ok2, mem2)" by (cases "malloc mem")
  show ?thesis
    using assms m m2
    by (auto simp: push_vrf_op_def slots_def set_final_stack_def ENOMEM_def Let_def split: if_splits)
qed

lemma push_vrf_op_slots:
  assumes "vb_mem b = []"
  shows "push_vrf_op b t = Some (0, set_final_stack b (slots t @ fstack b))"
  using assms by (cases b) (auto simp: push_vrf_op_def slots_def set_final_stack_def)

lemma peek_vrf_op_ok:
  assumes "peek_vrf_op b t = Some (0, b')"
  shows "(fstack b = [] \<and> (\<exists>mem. b' = b\<lparr>initial_state := (initial_state b)\<lparr>vs_stack := istack b @ slots t\<rparr>, vb_mem := mem\<rparr>)) \<or>
    (\<exists>r. fstack b = slots t @ r \<and> b' = b)"
proof (cases "fstack b = []")
  case True
  then show ?thesis using assms infer_vrf_op_ok [of b t b'] by (simp add: peek_vrf_op_def)
next
  case False
  then show ?thesis
    using assms by (cases "fstack b")
      (auto simp: peek_vrf_op_def slots_def top_is_iff Let_def E_TYPE_CHECKING_def split: if_splits)
qed

section \<open>Transitions decide compatibility\<close>

lemma cmp_verifier_op_0: "cmp_verifier_op a b = 0 \<longleftrightarrow> a = b"
  by (auto simp: cmp_verifier_op_def E_TYPE_CHECKING_def)

lemma cmp_verifier_op_err: "cmp_verifier_op a b \<in> {0, E_TYPE_CHECKING}"
  by (simp add: cmp_verifier_op_def)

lemma transition_loop_0: "length ns \<le> length cs \<Longrightarrow> transition_loop cs ns = 0 \<longleftrightarrow> (\<exists>r. cs = ns @ r)"
  by (induction cs ns rule: transition_loop.induct) (auto simp: Let_def cmp_verifier_op_0)

lemma transition_loop_err: "transition_loop cs ns \<in> {0, E_TYPE_CHECKING}"
  using cmp_verifier_op_err by (induction cs ns rule: transition_loop.induct) (auto simp: Let_def)

lemma transition_stack_0: "transition_verifier_stack stc stn = 0 \<longleftrightarrow> (\<exists>r. stc = stn @ r)"
  using transition_loop_0 [of stn stc]
  by (auto simp: transition_verifier_stack_def vrf_stack_size_def E_TYPE_CHECKING_def)

definition var_compatible :: "verifier_local_var \<Rightarrow> verifier_local_var \<Rightarrow> bool" where
  "var_compatible vc vn \<longleftrightarrow>
     (lv_state vn = UNKNOWN \<or>
      (\<not> (lv_state vn = DEFINED \<and> lv_state vc = UNDEFINED) \<and> lv_op vn \<noteq> None \<and> lv_op vc = lv_op vn))"

lemma transition_local_var_Cons:
  "transition_verifier_local_var (c # cs) (d # ds) (Suc n) = Some 0 \<longleftrightarrow>
   var_compatible c d \<and> transition_verifier_local_var cs ds n = Some 0"
  by (cases "lv_op c"; cases "lv_op d")
    (auto simp: var_compatible_def cmp_verifier_op_0 Let_def E_TYPE_CHECKING_def)

lemma transition_local_var_0:
  "n = length vc \<Longrightarrow> n = length vn \<Longrightarrow>
   transition_verifier_local_var vc vn n = Some 0 \<longleftrightarrow> (\<forall>i<n. var_compatible (vc ! i) (vn ! i))"
proof (induction n arbitrary: vc vn)
  case (Suc n)
  obtain c cs d ds where l: "vc = c # cs" "vn = d # ds" using Suc.prems by (cases vc; cases vn) auto
  have ih: "transition_verifier_local_var cs ds n = Some 0 \<longleftrightarrow> (\<forall>i<n. var_compatible (cs ! i) (ds ! i))"
    using Suc l by simp
  show ?case
    unfolding l transition_local_var_Cons by (simp add: ih All_less_Suc2)
qed simp

lemma transition_local_var_total:
  assumes "\<forall>i<n. lv_state (vn ! i) \<noteq> UNKNOWN \<longrightarrow> lv_op (vn ! i) \<noteq> None \<and> lv_op (vc ! i) \<noteq> None"
    and "n = length vc" "n = length vn"
  shows "\<exists>e\<in>{0, E_TYPE_CHECKING}. transition_verifier_local_var vc vn n = Some e"
  using assms
proof (induction n arbitrary: vc vn)
  case (Suc n)
  obtain c cs d ds where l: "vc = c # cs" "vn = d # ds" using Suc.prems by (cases vc; cases vn) auto
  have "\<exists>e\<in>{0, E_TYPE_CHECKING}. transition_verifier_local_var cs ds n = Some e"
    using Suc.prems l by (intro Suc.IH) (auto simp: All_less_Suc2)
  moreover have "lv_state d \<noteq> UNKNOWN \<Longrightarrow> lv_op d \<noteq> None \<and> lv_op c \<noteq> None" using Suc.prems(1) l by auto
  ultimately show ?case
    unfolding l using cmp_verifier_op_err by (cases "lv_op c"; cases "lv_op d") (auto simp: Let_def)
qed simp

lemma transition_local_var_fault:
  "\<forall>j<i. var_compatible (vc ! j) (vn ! j) \<Longrightarrow> i < n \<Longrightarrow> n = length vc \<Longrightarrow> n = length vn \<Longrightarrow>
   lv_state (vn ! i) = DEFINED \<Longrightarrow> lv_state (vc ! i) = UNKNOWN \<Longrightarrow> lv_type (vc ! i) = None \<Longrightarrow>
   transition_verifier_local_var vc vn n = None"
proof (induction n arbitrary: vc vn i)
  case (Suc n)
  obtain c cs d ds where l: "vc = c # cs" "vn = d # ds" using Suc.prems by (cases vc; cases vn) auto
  show ?case
  proof (cases i)
    case 0
    then show ?thesis using Suc.prems unfolding l by (simp add: lv_op_def)
  next
    case (Suc k)
    then have "var_compatible c d" using Suc.prems(1) l by fastforce
    moreover have "transition_verifier_local_var cs ds n = None"
      using Suc.prems l \<open>i = Suc k\<close> by (intro Suc.IH [of k]) (auto simp: All_less_Suc2)
    ultimately show ?thesis
      unfolding l by (auto simp: var_compatible_def cmp_verifier_op_0 Let_def split: option.split)
  qed
qed simp

text \<open>C30: The transition from the state at the end of a block to the state that the next block needs succeeds
  exactly when the needed stack is on top of the present one and every needed variable is there with that type
  and fragment flag. It is an answer, zero or a type error, whenever the variables that the next block needs
  are known in both states; and it reads an uninitialised type when the next block needs a variable that the
  current one never touched, and no earlier variable has decided.\<close>

theorem transition_verifier_state_decides:
  assumes "nb_vars sc = length (vs_vars sc)" "length (vs_vars sn) = length (vs_vars sc)"
  shows "(transition_verifier_state sc sn = Some 0 \<longleftrightarrow>
      (\<exists>r. vs_stack sc = vs_stack sn @ r) \<and> (\<forall>i<nb_vars sc. var_compatible (vs_vars sc ! i) (vs_vars sn ! i))) \<and>
    ((\<forall>i<nb_vars sc. lv_state (vs_vars sn ! i) \<noteq> UNKNOWN \<longrightarrow>
        lv_op (vs_vars sn ! i) \<noteq> None \<and> lv_op (vs_vars sc ! i) \<noteq> None) \<longrightarrow>
      (\<exists>e\<in>{0, E_TYPE_CHECKING}. transition_verifier_state sc sn = Some e)) \<and>
    (\<forall>i<nb_vars sc. (\<exists>r. vs_stack sc = vs_stack sn @ r) \<longrightarrow>
        (\<forall>j<i. var_compatible (vs_vars sc ! j) (vs_vars sn ! j)) \<longrightarrow>
        lv_state (vs_vars sn ! i) = DEFINED \<longrightarrow> lv_state (vs_vars sc ! i) = UNKNOWN \<longrightarrow> lv_type (vs_vars sc ! i) = None \<longrightarrow>
        transition_verifier_state sc sn = None)"
proof (intro conjI allI impI)
  let ?s = "transition_verifier_stack (vs_stack sc) (vs_stack sn)"
  let ?n = "nb_vars sc"
  have "?s \<in> {0, E_TYPE_CHECKING}" using transition_loop_err by (simp add: transition_verifier_stack_def)
  note lens = assms(1) assms(1) [unfolded assms(2) [symmetric]]
  show "transition_verifier_state sc sn = Some 0 \<longleftrightarrow>
      (\<exists>r. vs_stack sc = vs_stack sn @ r) \<and> (\<forall>i<?n. var_compatible (vs_vars sc ! i) (vs_vars sn ! i))"
    using transition_local_var_0 [OF lens] transition_stack_0
    by (auto simp: transition_verifier_state_def Let_def)
  show "\<exists>e\<in>{0, E_TYPE_CHECKING}. transition_verifier_state sc sn = Some e"
    if "\<forall>i<?n. lv_state (vs_vars sn ! i) \<noteq> UNKNOWN \<longrightarrow> lv_op (vs_vars sn ! i) \<noteq> None \<and> lv_op (vs_vars sc ! i) \<noteq> None"
    using transition_local_var_total [OF that lens] \<open>?s \<in> {0, E_TYPE_CHECKING}\<close>
    by (auto simp: transition_verifier_state_def Let_def)
  show "transition_verifier_state sc sn = None"
    if "i < ?n" "\<exists>r. vs_stack sc = vs_stack sn @ r" "\<forall>j<i. var_compatible (vs_vars sc ! j) (vs_vars sn ! j)"
      "lv_state (vs_vars sn ! i) = DEFINED" "lv_state (vs_vars sc ! i) = UNKNOWN" "lv_type (vs_vars sc ! i) = None" for i
    using transition_local_var_fault [OF that(3,1) lens that(4-6)] that(2) transition_stack_0
    by (simp add: transition_verifier_state_def)
qed

theorem transition_verifier_state_decides_witness:
  "(let st = \<lparr>vs_vars = [], nb_vars = 0, vs_stack = slots J_LONG\<rparr> in
    transition_verifier_state (st\<lparr>vs_stack := slots J_INT @ slots J_LONG\<rparr>) (st\<lparr>vs_stack := slots J_INT\<rparr>) = Some 0) \<and>
   transition_verifier_state
     \<lparr>vs_vars = [\<lparr>lv_state = UNKNOWN, lv_type = None, lv_fragment = False\<rparr>], nb_vars = 1, vs_stack = []\<rparr>
     \<lparr>vs_vars = [\<lparr>lv_state = DEFINED, lv_type = Some J_INT, lv_fragment = False\<rparr>], nb_vars = 1, vs_stack = []\<rparr> = None"
  using transition_verifier_state_decides
    [of "\<lparr>vs_vars = [], nb_vars = 0, vs_stack = slots J_INT @ slots J_LONG\<rparr>" "\<lparr>vs_vars = [], nb_vars = 0, vs_stack = slots J_INT\<rparr>"]
    transition_verifier_state_decides
    [of "\<lparr>vs_vars = [\<lparr>lv_state = UNKNOWN, lv_type = None, lv_fragment = False\<rparr>], nb_vars = 1, vs_stack = []\<rparr>"
      "\<lparr>vs_vars = [\<lparr>lv_state = DEFINED, lv_type = Some J_INT, lv_fragment = False\<rparr>], nb_vars = 1, vs_stack = []\<rparr>"]
  by (simp add: Let_def)

end
