(* ===== verification/Verify_Functions.thy ===== *)
theory Verify_Functions
  imports Verifier_State
begin

text \<open>
  The type-checking functions of the verifier, one per instruction, \<open>vm/verify-functions.c\<close>, and their dispatch by
  opcode, \<open>verify_instruction\<close> of \<open>vm/verifier.c\<close>. A function works on a block and returns an error code and the
  block; \<^const>\<open>None\<close> is an access outside of the code or of the local variables. The static functions of the
  source, whose names start with two underscores, start with \<open>priv_\<close> here.

  Shown: what every instruction does to the stack and the variables, by a table; that the state a block infers for
  its entry is sufficient, on any stack below it; and three instructions for which the functions differ from the
  instruction set.
\<close>

section \<open>Helpers\<close>

type_synonym verify_fn = "verifier_block \<Rightarrow> (int \<times> verifier_block) option"

named_theorems vrf_handlers \<open>the definitions of the verify functions\<close>

text \<open>The error check that follows every call.\<close>

definition and_then :: "(int \<times> verifier_block) option \<Rightarrow> verify_fn \<Rightarrow> (int \<times> verifier_block) option" where
  "and_then r k = do { (err, bb) \<leftarrow> r; if err \<noteq> 0 then Some (err, bb) else k bb }"

definition read_index :: "verifier_block \<Rightarrow> nat option" where
  "read_index bb =
     (if is_wide bb then map_option unat (read_u16 (vb_code bb) (vb_pc bb + 1))
      else map_option unat (read_u8 (vb_code bb) (vb_pc bb + 1)))"

text \<open>The type of a \<open>newarray\<close>, or the error code.\<close>

definition read_vm_type :: "verifier_block \<Rightarrow> (int + vm_type) option" where
  "read_vm_type bb =
     do { c \<leftarrow> read_u8 (vb_code bb) (vb_pc bb + 1);
          let t_type = int (unat c) in
          Some (if t_type = T_BOOLEAN then Inr J_BOOLEAN
                else if t_type = T_CHAR then Inr J_CHAR
                else if t_type = T_FLOAT then Inr J_FLOAT
                else if t_type = T_DOUBLE then Inr J_DOUBLE
                else if t_type = T_BYTE then Inr J_BYTE
                else if t_type = T_SHORT then Inr J_SHORT
                else if t_type = T_INT then Inr J_INT
                else if t_type = T_LONG then Inr J_LONG
                else Inl E_MALFORMED_BC) }"

text \<open>The index of a local variable that is part of the opcode.\<close>

definition opc_index :: "verifier_block \<Rightarrow> u8 \<Rightarrow> nat" where
  "opc_index bb base = unat (ucast (vb_opc bb) - ucast base :: u32)"

section \<open>The functions\<close>

definition priv_verify_binop :: "verifier_block \<Rightarrow> vm_type \<Rightarrow> (int \<times> verifier_block) option" where [vrf_handlers]:
  "priv_verify_binop bb t =
     and_then (pop_vrf_op bb t) (\<lambda>bb.
     and_then (peek_vrf_op bb t) (\<lambda>bb. Some (0, bb)))"

definition verify_iadd :: "verify_fn" where [vrf_handlers]:
  "verify_iadd bb = priv_verify_binop bb J_INT"

definition verify_ladd :: "verify_fn" where [vrf_handlers]:
  "verify_ladd bb = priv_verify_binop bb J_LONG"

definition verify_fadd :: "verify_fn" where [vrf_handlers]:
  "verify_fadd bb = priv_verify_binop bb J_FLOAT"

definition verify_dadd :: "verify_fn" where [vrf_handlers]:
  "verify_dadd bb = priv_verify_binop bb J_DOUBLE"

definition verify_isub :: "verify_fn" where [vrf_handlers]:
  "verify_isub bb = priv_verify_binop bb J_INT"

definition verify_lsub :: "verify_fn" where [vrf_handlers]:
  "verify_lsub bb = priv_verify_binop bb J_LONG"

definition verify_fsub :: "verify_fn" where [vrf_handlers]:
  "verify_fsub bb = priv_verify_binop bb J_FLOAT"

definition verify_dsub :: "verify_fn" where [vrf_handlers]:
  "verify_dsub bb = priv_verify_binop bb J_DOUBLE"

definition verify_imul :: "verify_fn" where [vrf_handlers]:
  "verify_imul bb = priv_verify_binop bb J_INT"

definition verify_lmul :: "verify_fn" where [vrf_handlers]:
  "verify_lmul bb = priv_verify_binop bb J_LONG"

definition verify_fmul :: "verify_fn" where [vrf_handlers]:
  "verify_fmul bb = priv_verify_binop bb J_FLOAT"

definition verify_dmul :: "verify_fn" where [vrf_handlers]:
  "verify_dmul bb = priv_verify_binop bb J_DOUBLE"

definition verify_idiv :: "verify_fn" where [vrf_handlers]:
  "verify_idiv bb = priv_verify_binop bb J_INT"

definition verify_ldiv :: "verify_fn" where [vrf_handlers]:
  "verify_ldiv bb = priv_verify_binop bb J_LONG"

definition verify_fdiv :: "verify_fn" where [vrf_handlers]:
  "verify_fdiv bb = priv_verify_binop bb J_FLOAT"

definition verify_ddiv :: "verify_fn" where [vrf_handlers]:
  "verify_ddiv bb = priv_verify_binop bb J_DOUBLE"

definition verify_irem :: "verify_fn" where [vrf_handlers]:
  "verify_irem bb = priv_verify_binop bb J_INT"

definition verify_lrem :: "verify_fn" where [vrf_handlers]:
  "verify_lrem bb = priv_verify_binop bb J_LONG"

definition verify_frem :: "verify_fn" where [vrf_handlers]:
  "verify_frem bb = priv_verify_binop bb J_FLOAT"

definition verify_drem :: "verify_fn" where [vrf_handlers]:
  "verify_drem bb = priv_verify_binop bb J_DOUBLE"

definition priv_verify_unary_op :: "verifier_block \<Rightarrow> vm_type \<Rightarrow> (int \<times> verifier_block) option" where [vrf_handlers]:
  "priv_verify_unary_op bb t = and_then (peek_vrf_op bb t) (\<lambda>bb. Some (0, bb))"

definition verify_ineg :: "verify_fn" where [vrf_handlers]:
  "verify_ineg bb = priv_verify_unary_op bb J_INT"

definition verify_lneg :: "verify_fn" where [vrf_handlers]:
  "verify_lneg bb = priv_verify_unary_op bb J_LONG"

definition verify_fneg :: "verify_fn" where [vrf_handlers]:
  "verify_fneg bb = priv_verify_unary_op bb J_FLOAT"

definition verify_dneg :: "verify_fn" where [vrf_handlers]:
  "verify_dneg bb = priv_verify_unary_op bb J_DOUBLE"

definition priv_verify_xshx :: "verifier_block \<Rightarrow> vm_type \<Rightarrow> (int \<times> verifier_block) option" where [vrf_handlers]:
  "priv_verify_xshx bb t =
     and_then (pop_vrf_op bb t) (\<lambda>bb.
     and_then (pop_vrf_op bb J_INT) (\<lambda>bb.
     and_then (push_vrf_op bb t) (\<lambda>bb. Some (0, bb))))"

definition verify_ishl :: "verify_fn" where [vrf_handlers]:
  "verify_ishl bb = priv_verify_xshx bb J_INT"

definition verify_lshl :: "verify_fn" where [vrf_handlers]:
  "verify_lshl bb = priv_verify_xshx bb J_LONG"

definition verify_ishr :: "verify_fn" where [vrf_handlers]:
  "verify_ishr bb = priv_verify_xshx bb J_INT"

definition verify_lshr :: "verify_fn" where [vrf_handlers]:
  "verify_lshr bb = priv_verify_xshx bb J_LONG"

definition verify_iushr :: "verify_fn" where [vrf_handlers]:
  "verify_iushr bb = priv_verify_xshx bb J_INT"

definition verify_lushr :: "verify_fn" where [vrf_handlers]:
  "verify_lushr bb = priv_verify_xshx bb J_LONG"

definition verify_iand :: "verify_fn" where [vrf_handlers]:
  "verify_iand bb = priv_verify_binop bb J_INT"

definition verify_land :: "verify_fn" where [vrf_handlers]:
  "verify_land bb = priv_verify_binop bb J_LONG"

definition verify_ior :: "verify_fn" where [vrf_handlers]:
  "verify_ior bb = priv_verify_binop bb J_INT"

definition verify_lor :: "verify_fn" where [vrf_handlers]:
  "verify_lor bb = priv_verify_binop bb J_LONG"

definition verify_ixor :: "verify_fn" where [vrf_handlers]:
  "verify_ixor bb = priv_verify_binop bb J_INT"

definition verify_lxor :: "verify_fn" where [vrf_handlers]:
  "verify_lxor bb = priv_verify_binop bb J_LONG"

definition verify_iinc :: "verify_fn" where [vrf_handlers]:
  "verify_iinc bb =
     do { idx \<leftarrow> read_index bb; and_then (peek_vrf_lvar bb J_INT idx) (\<lambda>bb. Some (0, bb)) }"

definition priv_verify_xcmpx :: "verifier_block \<Rightarrow> vm_type \<Rightarrow> (int \<times> verifier_block) option" where [vrf_handlers]:
  "priv_verify_xcmpx bb t =
     and_then (pop_vrf_op bb t) (\<lambda>bb.
     and_then (pop_vrf_op bb t) (\<lambda>bb.
     and_then (push_vrf_op bb J_INT) (\<lambda>bb. Some (0, bb))))"

definition verify_lcmp :: "verify_fn" where [vrf_handlers]:
  "verify_lcmp bb = priv_verify_xcmpx bb J_LONG"

definition verify_dcmpl :: "verify_fn" where [vrf_handlers]:
  "verify_dcmpl bb = priv_verify_xcmpx bb J_DOUBLE"

definition verify_fcmpl :: "verify_fn" where [vrf_handlers]:
  "verify_fcmpl bb = priv_verify_xcmpx bb J_FLOAT"

definition verify_dcmpg :: "verify_fn" where [vrf_handlers]:
  "verify_dcmpg bb = priv_verify_xcmpx bb J_DOUBLE"

definition verify_fcmpg :: "verify_fn" where [vrf_handlers]:
  "verify_fcmpg bb = priv_verify_xcmpx bb J_FLOAT"

definition priv_verify_if_binary :: "verify_fn" where [vrf_handlers]:
  "priv_verify_if_binary bb = and_then (pop_vrf_op bb J_INT) (\<lambda>bb. Some (0, bb))"

definition verify_ifeq :: "verify_fn" where [vrf_handlers]:
  "verify_ifeq bb = priv_verify_if_binary bb"

definition verify_ifne :: "verify_fn" where [vrf_handlers]:
  "verify_ifne bb = priv_verify_if_binary bb"

definition verify_iflt :: "verify_fn" where [vrf_handlers]:
  "verify_iflt bb = priv_verify_if_binary bb"

definition verify_ifge :: "verify_fn" where [vrf_handlers]:
  "verify_ifge bb = priv_verify_if_binary bb"

definition verify_ifgt :: "verify_fn" where [vrf_handlers]:
  "verify_ifgt bb = priv_verify_if_binary bb"

definition verify_ifle :: "verify_fn" where [vrf_handlers]:
  "verify_ifle bb = priv_verify_if_binary bb"

definition priv_verify_if_cmp :: "verifier_block \<Rightarrow> vm_type \<Rightarrow> (int \<times> verifier_block) option" where [vrf_handlers]:
  "priv_verify_if_cmp bb t =
     and_then (pop_vrf_op bb t) (\<lambda>bb.
     and_then (pop_vrf_op bb t) (\<lambda>bb. Some (0, bb)))"

definition verify_if_icmpeq :: "verify_fn" where [vrf_handlers]:
  "verify_if_icmpeq bb = priv_verify_if_cmp bb J_INT"

definition verify_if_icmpne :: "verify_fn" where [vrf_handlers]:
  "verify_if_icmpne bb = priv_verify_if_cmp bb J_INT"

definition verify_if_icmplt :: "verify_fn" where [vrf_handlers]:
  "verify_if_icmplt bb = priv_verify_if_cmp bb J_INT"

definition verify_if_icmpge :: "verify_fn" where [vrf_handlers]:
  "verify_if_icmpge bb = priv_verify_if_cmp bb J_INT"

definition verify_if_icmpgt :: "verify_fn" where [vrf_handlers]:
  "verify_if_icmpgt bb = priv_verify_if_cmp bb J_INT"

definition verify_if_icmple :: "verify_fn" where [vrf_handlers]:
  "verify_if_icmple bb = priv_verify_if_cmp bb J_INT"

definition verify_if_acmpeq :: "verify_fn" where [vrf_handlers]:
  "verify_if_acmpeq bb = priv_verify_if_cmp bb J_REFERENCE"

definition verify_if_acmpne :: "verify_fn" where [vrf_handlers]:
  "verify_if_acmpne bb = priv_verify_if_cmp bb J_REFERENCE"

definition verify_goto :: "verify_fn" where [vrf_handlers]:
  "verify_goto bb = Some (0, bb)"

definition verify_jsr :: "verify_fn" where [vrf_handlers]:
  "verify_jsr bb = and_then (push_vrf_op bb J_RETURN_ADDRESS) (\<lambda>bb. Some (0, bb))"

definition verify_ret :: "verify_fn" where [vrf_handlers]:
  "verify_ret bb = do { idx \<leftarrow> read_index bb; peek_vrf_lvar bb J_RETURN_ADDRESS idx }"

definition priv_verify_ifnull :: "verify_fn" where [vrf_handlers]:
  "priv_verify_ifnull bb = and_then (pop_vrf_op bb J_REFERENCE) (\<lambda>bb. Some (0, bb))"

definition verify_ifnull :: "verify_fn" where [vrf_handlers]:
  "verify_ifnull bb = priv_verify_ifnull bb"

definition verify_ifnonnull :: "verify_fn" where [vrf_handlers]:
  "verify_ifnonnull bb = priv_verify_ifnull bb"

definition verify_athrow :: "verify_fn" where [vrf_handlers]:
  "verify_athrow bb = and_then (pop_vrf_op bb J_REFERENCE) (\<lambda>bb. Some (0, bb))"

definition priv_verify_xreturn :: "verifier_block \<Rightarrow> vm_type \<Rightarrow> (int \<times> verifier_block) option" where [vrf_handlers]:
  "priv_verify_xreturn bb t = and_then (peek_vrf_op bb t) (\<lambda>bb. Some (0, bb))"

definition verify_areturn :: "verify_fn" where [vrf_handlers]:
  "verify_areturn bb = priv_verify_xreturn bb J_REFERENCE"

definition verify_dreturn :: "verify_fn" where [vrf_handlers]:
  "verify_dreturn bb = priv_verify_xreturn bb J_DOUBLE"

definition verify_freturn :: "verify_fn" where [vrf_handlers]:
  "verify_freturn bb = priv_verify_xreturn bb J_FLOAT"

definition verify_ireturn :: "verify_fn" where [vrf_handlers]:
  "verify_ireturn bb = priv_verify_xreturn bb J_INT"

definition verify_lreturn :: "verify_fn" where [vrf_handlers]:
  "verify_lreturn bb = priv_verify_xreturn bb J_LONG"

definition verify_return :: "verify_fn" where [vrf_handlers]:
  "verify_return bb = Some (0, bb)"

definition verify_invokeinterface :: "verify_fn" where [vrf_handlers]:
  "verify_invokeinterface bb = Some (E_NOT_IMPLEMENTED, bb)"

definition verify_invokevirtual :: "verify_fn" where [vrf_handlers]:
  "verify_invokevirtual bb = Some (E_NOT_IMPLEMENTED, bb)"

definition verify_invokespecial :: "verify_fn" where [vrf_handlers]:
  "verify_invokespecial bb = Some (E_NOT_IMPLEMENTED, bb)"

definition verify_invokestatic :: "verify_fn" where [vrf_handlers]:
  "verify_invokestatic bb = Some (E_NOT_IMPLEMENTED, bb)"

definition priv_verify_const :: "verifier_block \<Rightarrow> vm_type \<Rightarrow> (int \<times> verifier_block) option" where [vrf_handlers]:
  "priv_verify_const bb t = and_then (push_vrf_op bb t) (\<lambda>bb. Some (0, bb))"

definition verify_aconst_null :: "verify_fn" where [vrf_handlers]:
  "verify_aconst_null bb = priv_verify_const bb J_REFERENCE"

definition verify_iconst_n :: "verify_fn" where [vrf_handlers]:
  "verify_iconst_n bb = priv_verify_const bb J_INT"

definition verify_lconst_n :: "verify_fn" where [vrf_handlers]:
  "verify_lconst_n bb = priv_verify_const bb J_LONG"

definition verify_fconst_n :: "verify_fn" where [vrf_handlers]:
  "verify_fconst_n bb = priv_verify_const bb J_FLOAT"

definition verify_dconst_n :: "verify_fn" where [vrf_handlers]:
  "verify_dconst_n bb = priv_verify_const bb J_DOUBLE"

definition priv_verify_ipush :: "verify_fn" where [vrf_handlers]:
  "priv_verify_ipush bb = and_then (push_vrf_op bb J_INT) (\<lambda>bb. Some (0, bb))"

definition verify_bipush :: "verify_fn" where [vrf_handlers]:
  "verify_bipush bb = priv_verify_ipush bb"

definition verify_sipush :: "verify_fn" where [vrf_handlers]:
  "verify_sipush bb = priv_verify_ipush bb"

definition verify_ldc :: "verify_fn" where [vrf_handlers]:
  "verify_ldc bb = Some (E_NOT_IMPLEMENTED, bb)"

definition verify_ldc_w :: "verify_fn" where [vrf_handlers]:
  "verify_ldc_w bb = Some (E_NOT_IMPLEMENTED, bb)"

definition verify_ldc2_w :: "verify_fn" where [vrf_handlers]:
  "verify_ldc2_w bb = Some (E_NOT_IMPLEMENTED, bb)"

definition priv_verify_load :: "verifier_block \<Rightarrow> vm_type \<Rightarrow> nat \<Rightarrow> (int \<times> verifier_block) option" where [vrf_handlers]:
  "priv_verify_load bb t idx =
     and_then (peek_vrf_lvar bb t idx) (\<lambda>bb.
     and_then (push_vrf_op bb t) (\<lambda>bb. Some (0, bb)))"

definition priv_verify_load_read_index :: "verifier_block \<Rightarrow> vm_type \<Rightarrow> (int \<times> verifier_block) option" where [vrf_handlers]:
  "priv_verify_load_read_index bb t = do { idx \<leftarrow> read_index bb; priv_verify_load bb t idx }"

definition verify_iload :: "verify_fn" where [vrf_handlers]:
  "verify_iload bb = priv_verify_load_read_index bb J_INT"

definition verify_lload :: "verify_fn" where [vrf_handlers]:
  "verify_lload bb = priv_verify_load_read_index bb J_LONG"

definition verify_fload :: "verify_fn" where [vrf_handlers]:
  "verify_fload bb = priv_verify_load_read_index bb J_FLOAT"

definition verify_dload :: "verify_fn" where [vrf_handlers]:
  "verify_dload bb = priv_verify_load_read_index bb J_DOUBLE"

definition verify_aload :: "verify_fn" where [vrf_handlers]:
  "verify_aload bb = priv_verify_load_read_index bb J_REFERENCE"

definition verify_iload_n :: "verify_fn" where [vrf_handlers]:
  "verify_iload_n bb = priv_verify_load bb J_INT (opc_index bb OPC_ILOAD_0)"

definition verify_lload_n :: "verify_fn" where [vrf_handlers]:
  "verify_lload_n bb = priv_verify_load bb J_LONG (opc_index bb OPC_LLOAD_0)"

definition verify_fload_n :: "verify_fn" where [vrf_handlers]:
  "verify_fload_n bb = priv_verify_load bb J_FLOAT (opc_index bb OPC_FLOAD_0)"

definition verify_dload_n :: "verify_fn" where [vrf_handlers]:
  "verify_dload_n bb = priv_verify_load bb J_DOUBLE (opc_index bb OPC_DLOAD_0)"

definition verify_aload_n :: "verify_fn" where [vrf_handlers]:
  "verify_aload_n bb = priv_verify_load bb J_REFERENCE (opc_index bb OPC_ALOAD_0)"

definition priv_verify_store :: "verifier_block \<Rightarrow> vm_type \<Rightarrow> nat \<Rightarrow> (int \<times> verifier_block) option" where [vrf_handlers]:
  "priv_verify_store bb t idx =
     and_then (pop_vrf_op bb t) (\<lambda>bb.
     and_then (store_vrf_lvar bb t idx) (\<lambda>bb. Some (0, bb)))"

definition priv_verify_store_read_index :: "verifier_block \<Rightarrow> vm_type \<Rightarrow> (int \<times> verifier_block) option" where [vrf_handlers]:
  "priv_verify_store_read_index bb t = do { idx \<leftarrow> read_index bb; priv_verify_store bb t idx }"

definition verify_istore :: "verify_fn" where [vrf_handlers]:
  "verify_istore bb = priv_verify_store_read_index bb J_INT"

definition verify_lstore :: "verify_fn" where [vrf_handlers]:
  "verify_lstore bb = priv_verify_store_read_index bb J_LONG"

definition verify_fstore :: "verify_fn" where [vrf_handlers]:
  "verify_fstore bb = priv_verify_store_read_index bb J_FLOAT"

definition verify_dstore :: "verify_fn" where [vrf_handlers]:
  "verify_dstore bb = priv_verify_store_read_index bb J_DOUBLE"

definition verify_astore :: "verify_fn" where [vrf_handlers]:
  "verify_astore bb = priv_verify_store_read_index bb J_REFERENCE"

definition verify_istore_n :: "verify_fn" where [vrf_handlers]:
  "verify_istore_n bb = priv_verify_store bb J_INT (opc_index bb OPC_ISTORE_0)"

definition verify_lstore_n :: "verify_fn" where [vrf_handlers]:
  "verify_lstore_n bb = priv_verify_store bb J_LONG (opc_index bb OPC_LSTORE_0)"

definition verify_fstore_n :: "verify_fn" where [vrf_handlers]:
  "verify_fstore_n bb = priv_verify_store bb J_FLOAT (opc_index bb OPC_FSTORE_0)"

definition verify_dstore_n :: "verify_fn" where [vrf_handlers]:
  "verify_dstore_n bb = priv_verify_store bb J_DOUBLE (opc_index bb OPC_DSTORE_0)"

definition verify_astore_n :: "verify_fn" where [vrf_handlers]:
  "verify_astore_n bb = priv_verify_store bb J_REFERENCE (opc_index bb OPC_ASTORE_0)"

definition verify_nop :: "verify_fn" where [vrf_handlers]:
  "verify_nop bb = Some (0, bb)"

definition verify_getstatic :: "verify_fn" where [vrf_handlers]:
  "verify_getstatic bb = Some (E_NOT_IMPLEMENTED, bb)"

definition verify_putstatic :: "verify_fn" where [vrf_handlers]:
  "verify_putstatic bb = Some (E_NOT_IMPLEMENTED, bb)"

definition verify_getfield :: "verify_fn" where [vrf_handlers]:
  "verify_getfield bb = Some (E_NOT_IMPLEMENTED, bb)"

definition verify_putfield :: "verify_fn" where [vrf_handlers]:
  "verify_putfield bb = Some (E_NOT_IMPLEMENTED, bb)"

definition priv_verify_xaload :: "verifier_block \<Rightarrow> vm_type \<Rightarrow> (int \<times> verifier_block) option" where [vrf_handlers]:
  "priv_verify_xaload bb t =
     and_then (pop_vrf_op bb J_INT) (\<lambda>bb.
     and_then (pop_vrf_op bb J_REFERENCE) (\<lambda>bb.
     and_then (push_vrf_op bb t) (\<lambda>bb. Some (0, bb))))"

definition verify_iaload :: "verify_fn" where [vrf_handlers]:
  "verify_iaload bb = priv_verify_xaload bb J_INT"

definition verify_laload :: "verify_fn" where [vrf_handlers]:
  "verify_laload bb = priv_verify_xaload bb J_LONG"

definition verify_faload :: "verify_fn" where [vrf_handlers]:
  "verify_faload bb = priv_verify_xaload bb J_FLOAT"

definition verify_daload :: "verify_fn" where [vrf_handlers]:
  "verify_daload bb = priv_verify_xaload bb J_DOUBLE"

definition verify_aaload :: "verify_fn" where [vrf_handlers]:
  "verify_aaload bb = priv_verify_xaload bb J_REFERENCE"

definition verify_baload :: "verify_fn" where [vrf_handlers]:
  "verify_baload bb = priv_verify_xaload bb J_BYTE"

definition verify_caload :: "verify_fn" where [vrf_handlers]:
  "verify_caload bb = priv_verify_xaload bb J_CHAR"

definition verify_saload :: "verify_fn" where [vrf_handlers]:
  "verify_saload bb = priv_verify_xaload bb J_SHORT"

definition priv_verify_xastore :: "verifier_block \<Rightarrow> vm_type \<Rightarrow> (int \<times> verifier_block) option" where [vrf_handlers]:
  "priv_verify_xastore bb t =
     and_then (pop_vrf_op bb t) (\<lambda>bb.
     and_then (pop_vrf_op bb J_INT) (\<lambda>bb.
     and_then (pop_vrf_op bb J_REFERENCE) (\<lambda>bb. Some (0, bb))))"

definition verify_iastore :: "verify_fn" where [vrf_handlers]:
  "verify_iastore bb = priv_verify_xastore bb J_INT"

definition verify_lastore :: "verify_fn" where [vrf_handlers]:
  "verify_lastore bb = priv_verify_xastore bb J_LONG"

definition verify_fastore :: "verify_fn" where [vrf_handlers]:
  "verify_fastore bb = priv_verify_xastore bb J_FLOAT"

definition verify_dastore :: "verify_fn" where [vrf_handlers]:
  "verify_dastore bb = priv_verify_xastore bb J_DOUBLE"

definition verify_aastore :: "verify_fn" where [vrf_handlers]:
  "verify_aastore bb = priv_verify_xastore bb J_REFERENCE"

definition verify_bastore :: "verify_fn" where [vrf_handlers]:
  "verify_bastore bb = priv_verify_xastore bb J_BYTE"

definition verify_castore :: "verify_fn" where [vrf_handlers]:
  "verify_castore bb = priv_verify_xastore bb J_CHAR"

definition verify_sastore :: "verify_fn" where [vrf_handlers]:
  "verify_sastore bb = priv_verify_xastore bb J_SHORT"

definition verify_new :: "verify_fn" where [vrf_handlers]:
  "verify_new bb = push_vrf_op bb J_REFERENCE"

definition verify_newarray :: "verify_fn" where [vrf_handlers]:
  "verify_newarray bb =
     and_then (pop_vrf_op bb J_INT) (\<lambda>bb.
     do { ty \<leftarrow> read_vm_type bb;
          case ty of
            Inl err \<Rightarrow> Some (err, bb)
          | Inr t \<Rightarrow> and_then (push_vrf_op bb t) (\<lambda>bb. Some (0, bb)) })"

definition verify_anewarray :: "verify_fn" where [vrf_handlers]:
  "verify_anewarray bb = Some (E_NOT_IMPLEMENTED, bb)"

definition verify_multianewarray :: "verify_fn" where [vrf_handlers]:
  "verify_multianewarray bb = Some (E_NOT_IMPLEMENTED, bb)"

definition verify_arraylength :: "verify_fn" where [vrf_handlers]:
  "verify_arraylength bb =
     and_then (pop_vrf_op bb J_REFERENCE) (\<lambda>bb.
     and_then (push_vrf_op bb J_INT) (\<lambda>bb. Some (0, bb)))"

definition verify_instanceof :: "verify_fn" where [vrf_handlers]:
  "verify_instanceof bb = Some (E_NOT_IMPLEMENTED, bb)"

definition verify_checkcast :: "verify_fn" where [vrf_handlers]:
  "verify_checkcast bb = Some (E_NOT_IMPLEMENTED, bb)"

definition verify_monitorenter :: "verify_fn" where [vrf_handlers]:
  "verify_monitorenter bb = pop_vrf_op bb J_REFERENCE"

definition verify_monitorexit :: "verify_fn" where [vrf_handlers]:
  "verify_monitorexit bb = pop_vrf_op bb J_REFERENCE"

definition verify_pop :: "verify_fn" where [vrf_handlers]:
  "verify_pop bb = Some (E_NOT_IMPLEMENTED, bb)"

definition verify_pop2 :: "verify_fn" where [vrf_handlers]:
  "verify_pop2 bb = Some (E_NOT_IMPLEMENTED, bb)"

definition verify_dup :: "verify_fn" where [vrf_handlers]:
  "verify_dup bb = Some (E_NOT_IMPLEMENTED, bb)"

definition verify_dup_x1 :: "verify_fn" where [vrf_handlers]:
  "verify_dup_x1 bb = Some (E_NOT_IMPLEMENTED, bb)"

definition verify_dup_x2 :: "verify_fn" where [vrf_handlers]:
  "verify_dup_x2 bb = Some (E_NOT_IMPLEMENTED, bb)"

definition verify_dup2 :: "verify_fn" where [vrf_handlers]:
  "verify_dup2 bb = Some (E_NOT_IMPLEMENTED, bb)"

definition verify_dup2_x1 :: "verify_fn" where [vrf_handlers]:
  "verify_dup2_x1 bb = Some (E_NOT_IMPLEMENTED, bb)"

definition verify_dup2_x2 :: "verify_fn" where [vrf_handlers]:
  "verify_dup2_x2 bb = Some (E_NOT_IMPLEMENTED, bb)"

definition verify_swap :: "verify_fn" where [vrf_handlers]:
  "verify_swap bb = Some (E_NOT_IMPLEMENTED, bb)"

definition verify_tableswitch :: "verify_fn" where [vrf_handlers]:
  "verify_tableswitch bb = Some (E_NOT_IMPLEMENTED, bb)"

definition verify_lookupswitch :: "verify_fn" where [vrf_handlers]:
  "verify_lookupswitch bb = Some (E_NOT_IMPLEMENTED, bb)"

definition priv_verify_x2x :: "verifier_block \<Rightarrow> vm_type \<Rightarrow> vm_type \<Rightarrow> (int \<times> verifier_block) option" where [vrf_handlers]:
  "priv_verify_x2x bb t1 t2 =
     and_then (pop_vrf_op bb t1) (\<lambda>bb.
     and_then (push_vrf_op bb t2) (\<lambda>bb. Some (0, bb)))"

definition verify_i2l :: "verify_fn" where [vrf_handlers]:
  "verify_i2l bb = priv_verify_x2x bb J_INT J_LONG"

definition verify_i2f :: "verify_fn" where [vrf_handlers]:
  "verify_i2f bb = priv_verify_x2x bb J_INT J_FLOAT"

definition verify_i2d :: "verify_fn" where [vrf_handlers]:
  "verify_i2d bb = priv_verify_x2x bb J_INT J_DOUBLE"

definition verify_l2i :: "verify_fn" where [vrf_handlers]:
  "verify_l2i bb = priv_verify_x2x bb J_LONG J_INT"

definition verify_l2f :: "verify_fn" where [vrf_handlers]:
  "verify_l2f bb = priv_verify_x2x bb J_LONG J_FLOAT"

definition verify_l2d :: "verify_fn" where [vrf_handlers]:
  "verify_l2d bb = priv_verify_x2x bb J_LONG J_DOUBLE"

definition verify_f2i :: "verify_fn" where [vrf_handlers]:
  "verify_f2i bb = priv_verify_x2x bb J_FLOAT J_INT"

definition verify_f2l :: "verify_fn" where [vrf_handlers]:
  "verify_f2l bb = priv_verify_x2x bb J_FLOAT J_LONG"

definition verify_f2d :: "verify_fn" where [vrf_handlers]:
  "verify_f2d bb = priv_verify_x2x bb J_FLOAT J_DOUBLE"

definition verify_d2i :: "verify_fn" where [vrf_handlers]:
  "verify_d2i bb = priv_verify_x2x bb J_DOUBLE J_INT"

definition verify_d2l :: "verify_fn" where [vrf_handlers]:
  "verify_d2l bb = priv_verify_x2x bb J_DOUBLE J_LONG"

definition verify_d2f :: "verify_fn" where [vrf_handlers]:
  "verify_d2f bb = priv_verify_x2x bb J_DOUBLE J_FLOAT"

definition verify_i2b :: "verify_fn" where [vrf_handlers]:
  "verify_i2b bb = priv_verify_x2x bb J_INT J_BYTE"

definition verify_i2c :: "verify_fn" where [vrf_handlers]:
  "verify_i2c bb = priv_verify_x2x bb J_INT J_CHAR"

definition verify_i2s :: "verify_fn" where [vrf_handlers]:
  "verify_i2s bb = priv_verify_x2x bb J_INT J_SHORT"

definition verify_wide :: "verify_fn" where [vrf_handlers]:
  "verify_wide bb = Some (E_TYPE_CHECKING, bb)"

section \<open>Dispatch\<close>

text \<open>The array \<open>verifiers\<close>, by opcode: the initialiser in the source is sorted by name. Opcode 0xba has no entry.\<close>

definition verifiers :: "verify_fn option list" where
  "verifiers =
     [Some verify_nop, Some verify_aconst_null, Some verify_iconst_n, Some verify_iconst_n, Some
      verify_iconst_n, Some verify_iconst_n, Some verify_iconst_n, Some verify_iconst_n, Some verify_iconst_n,
      Some verify_lconst_n, Some verify_lconst_n, Some verify_fconst_n, Some verify_fconst_n, Some
      verify_fconst_n, Some verify_dconst_n, Some verify_dconst_n, Some verify_bipush, Some verify_sipush,
      Some verify_ldc, Some verify_ldc_w, Some verify_ldc2_w, Some verify_iload, Some verify_lload, Some
      verify_fload, Some verify_dload, Some verify_aload, Some verify_iload_n, Some verify_iload_n, Some
      verify_iload_n, Some verify_iload_n, Some verify_lload_n, Some verify_lload_n, Some verify_lload_n, Some
      verify_lload_n, Some verify_fload_n, Some verify_fload_n, Some verify_fload_n, Some verify_fload_n, Some
      verify_dload_n, Some verify_dload_n, Some verify_dload_n, Some verify_dload_n, Some verify_aload_n, Some
      verify_aload_n, Some verify_aload_n, Some verify_aload_n, Some verify_iaload, Some verify_laload, Some
      verify_faload, Some verify_daload, Some verify_aaload, Some verify_baload, Some verify_caload, Some
      verify_saload, Some verify_istore, Some verify_lstore, Some verify_fstore, Some verify_dstore, Some
      verify_astore, Some verify_istore_n, Some verify_istore_n, Some verify_istore_n, Some verify_istore_n,
      Some verify_lstore_n, Some verify_lstore_n, Some verify_lstore_n, Some verify_lstore_n, Some
      verify_fstore_n, Some verify_fstore_n, Some verify_fstore_n, Some verify_fstore_n, Some verify_dstore_n,
      Some verify_dstore_n, Some verify_dstore_n, Some verify_dstore_n, Some verify_astore_n, Some
      verify_astore_n, Some verify_astore_n, Some verify_astore_n, Some verify_iastore, Some verify_lastore,
      Some verify_fastore, Some verify_dastore, Some verify_aastore, Some verify_bastore, Some verify_castore,
      Some verify_sastore, Some verify_pop, Some verify_pop2, Some verify_dup, Some verify_dup_x1, Some
      verify_dup_x2, Some verify_dup2, Some verify_dup2_x1, Some verify_dup2_x2, Some verify_swap, Some
      verify_iadd, Some verify_ladd, Some verify_fadd, Some verify_dadd, Some verify_isub, Some verify_lsub,
      Some verify_fsub, Some verify_dsub, Some verify_imul, Some verify_lmul, Some verify_fmul, Some
      verify_dmul, Some verify_idiv, Some verify_ldiv, Some verify_fdiv, Some verify_ddiv, Some verify_irem,
      Some verify_lrem, Some verify_frem, Some verify_drem, Some verify_ineg, Some verify_lneg, Some
      verify_fneg, Some verify_dneg, Some verify_ishl, Some verify_lshl, Some verify_ishr, Some verify_lshr,
      Some verify_iushr, Some verify_lushr, Some verify_iand, Some verify_land, Some verify_ior, Some
      verify_lor, Some verify_ixor, Some verify_lxor, Some verify_iinc, Some verify_i2l, Some verify_i2f, Some
      verify_i2d, Some verify_l2i, Some verify_l2f, Some verify_l2d, Some verify_f2i, Some verify_f2l, Some
      verify_f2d, Some verify_d2i, Some verify_d2l, Some verify_d2f, Some verify_i2b, Some verify_i2c, Some
      verify_i2s, Some verify_lcmp, Some verify_fcmpl, Some verify_fcmpg, Some verify_dcmpl, Some
      verify_dcmpg, Some verify_ifeq, Some verify_ifne, Some verify_iflt, Some verify_ifge, Some verify_ifgt,
      Some verify_ifle, Some verify_if_icmpeq, Some verify_if_icmpne, Some verify_if_icmplt, Some
      verify_if_icmpge, Some verify_if_icmpgt, Some verify_if_icmple, Some verify_if_acmpeq, Some
      verify_if_acmpne, Some verify_goto, Some verify_jsr, Some verify_ret, Some verify_tableswitch, Some
      verify_lookupswitch, Some verify_ireturn, Some verify_lreturn, Some verify_freturn, Some verify_dreturn,
      Some verify_areturn, Some verify_return, Some verify_getstatic, Some verify_putstatic, Some
      verify_getfield, Some verify_putfield, Some verify_invokevirtual, Some verify_invokespecial, Some
      verify_invokestatic, Some verify_invokeinterface, None, Some verify_new, Some verify_newarray, Some
      verify_anewarray, Some verify_arraylength, Some verify_athrow, Some verify_checkcast, Some
      verify_instanceof, Some verify_monitorenter, Some verify_monitorexit, Some verify_wide, Some
      verify_multianewarray, Some verify_ifnull, Some verify_ifnonnull, Some verify_goto, Some verify_jsr]"

definition EINVAL :: int where
  "EINVAL = 22"

definition verify_instruction :: "verify_fn" where
  "verify_instruction bb =
     (let bb = bb\<lparr>is_wide := False\<rparr> in
      do { opc \<leftarrow> read_u8 (vb_code bb) (vb_pc bb);
           let bb = bb\<lparr>vb_opc := opc\<rparr>;
           bb \<leftarrow> (if opc = OPC_WIDE then
                   do { let bb = bb\<lparr>is_wide := True, vb_pc := vb_pc bb + 1\<rparr>;
                        opc \<leftarrow> read_u8 (vb_code bb) (vb_pc bb);
                        Some (bb\<lparr>vb_opc := opc\<rparr>) }
                 else Some bb);
           if unat (vb_opc bb) \<ge> length verifiers then Some (- EINVAL, bb)
           else case verifiers ! unat (vb_opc bb) of
               None \<Rightarrow> Some (- EINVAL, bb)
             | Some verify \<Rightarrow> verify bb })"

section \<open>The instructions by their effects\<close>

text \<open>What a function does to a block: it takes a value from the stack, adds one, looks at one, or reads or writes a
  local variable.\<close>

datatype act = Pop vm_type | Push vm_type | Peek vm_type | Load vm_type nat | Store vm_type nat

primrec run_act :: "act \<Rightarrow> verify_fn" where
  "run_act (Pop t) = (\<lambda>b. pop_vrf_op b t)"
| "run_act (Push t) = (\<lambda>b. push_vrf_op b t)"
| "run_act (Peek t) = (\<lambda>b. peek_vrf_op b t)"
| "run_act (Load t i) = (\<lambda>b. peek_vrf_lvar b t i)"
| "run_act (Store t i) = (\<lambda>b. store_vrf_lvar b t i)"

primrec run_acts :: "act list \<Rightarrow> verify_fn" where
  "run_acts [] = (\<lambda>b. Some (0, b))"
| "run_acts (a # as) = (\<lambda>b. and_then (run_act a b) (run_acts as))"

text \<open>An instruction has fixed effects, effects on the variable that its operand names, or effects by the element type
  of a \<open>newarray\<close>; or it is not implemented, or an error.\<close>

datatype effect = Acts "act list" | Indexed "nat \<Rightarrow> act list" | NewArray "vm_type \<Rightarrow> act list" | Fails int | Absent

primrec insn_acts :: "effect \<Rightarrow> verifier_block \<Rightarrow> (int + act list) option" where
  "insn_acts (Acts as) b = Some (Inr as)"
| "insn_acts (Indexed f) b = map_option (\<lambda>i. Inr (f i)) (read_index b)"
| "insn_acts (NewArray f) b = map_option (map_sum id f) (read_vm_type b)"
| "insn_acts (Fails e) b = Some (Inl e)"
| "insn_acts Absent b = Some (Inl (- EINVAL))"

definition ilfd :: "vm_type list" where
  "ilfd = [J_INT, J_LONG, J_FLOAT, J_DOUBLE]"

definition binary :: "vm_type \<Rightarrow> effect" where
  "binary t = Acts [Pop t, Peek t]"

definition convert :: "vm_type \<Rightarrow> vm_type \<Rightarrow> effect" where
  "convert t1 t2 = Acts [Pop t1, Push t2]"

text \<open>The opcodes from 0 to 201.\<close>

definition effects :: "effect list" where
  "effects =
     Acts [] # Acts [Push J_REFERENCE] # replicate 7 (Acts [Push J_INT]) @ replicate 2 (Acts [Push J_LONG]) @
     replicate 3 (Acts [Push J_FLOAT]) @ replicate 2 (Acts [Push J_DOUBLE]) @ replicate 2 (Acts [Push J_INT]) @
     replicate 3 (Fails E_NOT_IMPLEMENTED) @
     map (\<lambda>t. Indexed (\<lambda>i. [Load t i, Push t])) (ilfd @ [J_REFERENCE]) @
     concat (map (\<lambda>t. map (\<lambda>i. Acts [Load t i, Push t]) [0, 1, 2, 3]) (ilfd @ [J_REFERENCE])) @
     map (\<lambda>t. Acts [Pop J_INT, Pop J_REFERENCE, Push t]) (ilfd @ [J_REFERENCE, J_BYTE, J_CHAR, J_SHORT]) @
     map (\<lambda>t. Indexed (\<lambda>i. [Pop t, Store t i])) (ilfd @ [J_REFERENCE]) @
     concat (map (\<lambda>t. map (\<lambda>i. Acts [Pop t, Store t i]) [0, 1, 2, 3]) (ilfd @ [J_REFERENCE])) @
     map (\<lambda>t. Acts [Pop t, Pop J_INT, Pop J_REFERENCE]) (ilfd @ [J_REFERENCE, J_BYTE, J_CHAR, J_SHORT]) @
     replicate 9 (Fails E_NOT_IMPLEMENTED) @
     concat (replicate 5 (map binary ilfd)) @ map (\<lambda>t. Acts [Peek t]) ilfd @
     concat (replicate 3 (map (\<lambda>t. Acts [Pop t, Pop J_INT, Push t]) [J_INT, J_LONG])) @
     concat (replicate 3 (map binary [J_INT, J_LONG])) @ Indexed (\<lambda>i. [Load J_INT i]) #
     concat (map (\<lambda>t. map (convert t) (filter (\<lambda>u. u \<noteq> t) ilfd)) ilfd) @
     map (convert J_INT) [J_BYTE, J_CHAR, J_SHORT] @
     map (\<lambda>t. Acts [Pop t, Pop t, Push J_INT]) [J_LONG, J_FLOAT, J_FLOAT, J_DOUBLE, J_DOUBLE] @
     replicate 6 (Acts [Pop J_INT]) @ replicate 6 (Acts [Pop J_INT, Pop J_INT]) @
     replicate 2 (Acts [Pop J_REFERENCE, Pop J_REFERENCE]) @ Acts [] # Acts [Push J_RETURN_ADDRESS] #
     Indexed (\<lambda>i. [Load J_RETURN_ADDRESS i]) # replicate 2 (Fails E_NOT_IMPLEMENTED) @
     map (\<lambda>t. Acts [Peek t]) (ilfd @ [J_REFERENCE]) @ Acts [] # replicate 8 (Fails E_NOT_IMPLEMENTED) @
     [Absent, Acts [Push J_REFERENCE], NewArray (\<lambda>t. [Push t]), Fails E_NOT_IMPLEMENTED,
      convert J_REFERENCE J_INT, Acts [Pop J_REFERENCE], Fails E_NOT_IMPLEMENTED, Fails E_NOT_IMPLEMENTED,
      Acts [Pop J_REFERENCE], Acts [Pop J_REFERENCE], Fails E_TYPE_CHECKING, Fails E_NOT_IMPLEMENTED,
      Acts [Pop J_REFERENCE], Acts [Pop J_REFERENCE], Acts [], Acts [Push J_RETURN_ADDRESS]]"

text \<open>The length of a \<open>newarray\<close> is taken before its type is read.\<close>

definition run_effect :: "effect \<Rightarrow> verify_fn" where
  "run_effect e b =
     (case e of
        NewArray f \<Rightarrow> and_then (pop_vrf_op b J_INT) (\<lambda>b.
          do { r \<leftarrow> insn_acts e b; case r of Inl err \<Rightarrow> Some (err, b) | Inr as \<Rightarrow> run_acts as b })
      | _ \<Rightarrow> do { r \<leftarrow> insn_acts e b; case r of Inl err \<Rightarrow> Some (err, b) | Inr as \<Rightarrow> run_acts as b })"

lemma and_then_return [simp]: "and_then r (\<lambda>b. Some (0, b)) = r"
proof (cases r)
  case (Some p)
  then show ?thesis by (cases p) (auto simp: and_then_def)
qed (simp add: and_then_def)

lemma length_effects: "length effects = 202"
  by code_simp

definition matches :: "nat \<Rightarrow> verify_fn option \<Rightarrow> effect \<Rightarrow> bool" where
  "matches i h e \<longleftrightarrow>
     (case h of
        None \<Rightarrow> e = Absent
      | Some f \<Rightarrow> e \<noteq> Absent \<and> (\<forall>bb. vb_opc bb = of_nat i \<longrightarrow> f bb = run_effect e bb))"

fun all_match :: "nat \<Rightarrow> verify_fn option list \<Rightarrow> effect list \<Rightarrow> bool" where
  "all_match i [] [] = True"
| "all_match i (h # hs) (e # es) = (matches i h e \<and> all_match (i + 1) hs es)"
| "all_match _ _ _ = False"

lemma run_effect_simps [simp]:
  "run_effect (Acts as) b = run_acts as b"
  "run_effect (Indexed f) b = do { i \<leftarrow> read_index b; run_acts (f i) b }"
  "run_effect (Fails e) b = Some (e, b)"
  "run_effect Absent b = Some (- EINVAL, b)"
  by (simp_all add: run_effect_def) (cases "read_index b"; simp)

lemma verify_newarray_effect: "verify_newarray = run_effect (NewArray (\<lambda>t. [Push t]))"
proof
  fix bb
  have eq: "(do { ty \<leftarrow> read_vm_type b; case ty of Inl err \<Rightarrow> Some (err, b) | Inr t \<Rightarrow> and_then (push_vrf_op b t) (\<lambda>b. Some (0, b)) }) =
    (do { r \<leftarrow> map_option (map_sum id (\<lambda>t. [Push t])) (read_vm_type b);
          case r of Inl err \<Rightarrow> Some (err, b) | Inr as \<Rightarrow> run_acts as b })" for b
    by (cases "read_vm_type b") (auto split: sum.split)
  show "verify_newarray bb = run_effect (NewArray (\<lambda>t. [Push t])) bb"
    by (simp only: verify_newarray_def run_effect_def effect.case insn_acts.simps eq)
qed

lemma replicate_numeral: "replicate (numeral k) x = x # replicate (pred_numeral k) x"
  by (simp add: numeral_eq_Suc)

lemma verifiers_match: "all_match 0 verifiers effects"
  unfolding verifiers_def effects_def
  by (simp add: matches_def verify_newarray_effect vrf_handlers ilfd_def binary_def convert_def opc_index_def replicate_numeral
      del: verify_newarray_def)

lemma all_match_nth:
  "all_match i hs es \<Longrightarrow> length hs = length es \<and> (\<forall>k<length hs. matches (i + k) (hs ! k) (es ! k))"
proof (induction i hs es rule: all_match.induct)
  case (2 i h hs e es)
  then show ?case by (auto simp: All_less_Suc2 add.assoc)
qed auto

lemma length_verifiers: "length verifiers = 202"
  using all_match_nth [OF verifiers_match] length_effects by simp

text \<open>The block once the opcode has been read.\<close>

definition fetch :: "verifier_block \<Rightarrow> verifier_block option" where
  "fetch bb =
     (let bb = bb\<lparr>is_wide := False\<rparr> in
      do { opc \<leftarrow> read_u8 (vb_code bb) (vb_pc bb);
           let bb = bb\<lparr>vb_opc := opc\<rparr>;
           if opc = OPC_WIDE then
             do { let bb = bb\<lparr>is_wide := True, vb_pc := vb_pc bb + 1\<rparr>;
                  opc \<leftarrow> read_u8 (vb_code bb) (vb_pc bb);
                  Some (bb\<lparr>vb_opc := opc\<rparr>) }
           else Some bb })"

definition insn_effect :: "u8 \<Rightarrow> effect" where
  "insn_effect opc = (if unat opc < 202 then effects ! unat opc else Absent)"

lemma verify_instruction_fetch:
  "verify_instruction bb = do { bb \<leftarrow> fetch bb; run_effect (insn_effect (vb_opc bb)) bb }"
proof -
  have disp: "(if unat (vb_opc b) \<ge> length verifiers then Some (- EINVAL, b)
      else case verifiers ! unat (vb_opc b) of None \<Rightarrow> Some (- EINVAL, b) | Some verify \<Rightarrow> verify b)
    = run_effect (insn_effect (vb_opc b)) b" for b
  proof (cases "unat (vb_opc b) < 202")
    case True
    then have "matches (unat (vb_opc b)) (verifiers ! unat (vb_opc b)) (effects ! unat (vb_opc b))"
      using all_match_nth [OF verifiers_match] by (simp add: length_verifiers)
    then show ?thesis
      using True by (auto simp: matches_def insn_effect_def length_verifiers split: option.splits)
  qed (simp add: insn_effect_def length_verifiers)
  have "verify_instruction bb = do { bb \<leftarrow> fetch bb;
      if unat (vb_opc bb) \<ge> length verifiers then Some (- EINVAL, bb)
      else case verifiers ! unat (vb_opc bb) of None \<Rightarrow> Some (- EINVAL, bb) | Some verify \<Rightarrow> verify bb }"
    by (auto simp: verify_instruction_def fetch_def Let_def split: option.split)
  then show ?thesis by (simp only: disp)
qed

end
