(* ===== verification/Block_Inference.thy ===== *)
theory Block_Inference
  imports Verify_Functions
begin

text \<open>
  The verifier checks a block without knowing the state at its entry: a value taken from the empty stack, or a
  variable read before it is written, becomes part of the state that the block needs at its entry. This theory
  gives the checks their meaning on complete states, and shows that the inferred entry is sufficient: from every
  state that has the inferred operands on top of any others, and the inferred variables, the instructions of the
  block pass their type checks and lead to the inferred end of the block.

  The one case that is excluded is a value that is looked at, not taken, on the empty stack: \<open>peek_vrf_op\<close> asks
  it of the entry and leaves it out of the stack at the end. The consequences are shown as well.
\<close>

section \<open>Complete states\<close>

type_synonym var_types = "nat \<Rightarrow> (vm_type \<times> bool) option"
type_synonym full_state = "verifier_operand list \<times> var_types"

definition define_var :: "vm_type \<Rightarrow> nat \<Rightarrow> var_types \<Rightarrow> var_types" where
  "define_var t i \<rho> = (if vm_type_is_pair t then \<rho>(i \<mapsto> (t, False), Suc i \<mapsto> (t, True)) else \<rho>(i \<mapsto> (t, False)))"

definition has_var :: "vm_type \<Rightarrow> nat \<Rightarrow> var_types \<Rightarrow> bool" where
  "has_var t i \<rho> \<longleftrightarrow> \<rho> i = Some (t, False) \<and> (vm_type_is_pair t \<longrightarrow> \<rho> (Suc i) = Some (t, True))"

fun take_value :: "vm_type \<Rightarrow> verifier_operand list \<Rightarrow> verifier_operand list option" where
  "take_value t st = (let n = length (slots t) in if take n st = slots t then Some (drop n st) else None)"

primrec full_act :: "act \<Rightarrow> full_state \<Rightarrow> full_state option" where
  "full_act (Pop t) s = map_option (\<lambda>st. (st, snd s)) (take_value t (fst s))"
| "full_act (Push t) s = Some (slots t @ fst s, snd s)"
| "full_act (Peek t) s = map_option (\<lambda>_. s) (take_value t (fst s))"
| "full_act (Load t i) s = (if has_var t i (snd s) then Some s else None)"
| "full_act (Store t i) s = Some (fst s, define_var t i (snd s))"

primrec full_acts :: "act list \<Rightarrow> full_state \<Rightarrow> full_state option" where
  "full_acts [] s = Some s"
| "full_acts (a # as) s = do { s \<leftarrow> full_act a s; full_acts as s }"

lemma take_value_slots [simp]: "take_value t (slots t @ st) = Some st"
  by simp

lemma take_value_Some: "take_value t st = Some r \<longleftrightarrow> st = slots t @ r"
  by (auto simp: Let_def split: if_splits) (metis append_take_drop_id)

declare take_value.simps [simp del]

text \<open>What is below on the stack does not matter.\<close>

lemma full_act_frame: "full_act a (st, \<rho>) = Some (st', \<rho>') \<Longrightarrow> full_act a (st @ r, \<rho>) = Some (st' @ r, \<rho>')"
  by (cases a) (auto simp: take_value_Some split: if_splits)

lemma full_acts_frame: "full_acts as (st, \<rho>) = Some (st', \<rho>') \<Longrightarrow> full_acts as (st @ r, \<rho>) = Some (st' @ r, \<rho>')"
proof (induction as arbitrary: st \<rho>)
  case (Cons a as)
  then obtain st1 \<rho>1 where "full_act a (st, \<rho>) = Some (st1, \<rho>1)" "full_acts as (st1, \<rho>1) = Some (st', \<rho>')"
    by (auto simp: bind_eq_Some_conv)
  then show ?case using full_act_frame [of a st \<rho> st1 \<rho>1 r] Cons.IH by simp
qed simp

lemma full_acts_append: "full_acts (as @ bs) s = do { s \<leftarrow> full_acts as s; full_acts bs s }"
  by (induction as arbitrary: s) auto

section \<open>Inferred states\<close>

definition slot_agrees :: "verifier_local_var \<Rightarrow> (vm_type \<times> bool) option \<Rightarrow> bool" where
  "slot_agrees v x \<longleftrightarrow>
     lv_state v \<noteq> UNDEFINED \<and>
     (lv_state v = DEFINED \<longrightarrow> (\<exists>t. lv_type v = Some t \<and> x = Some (t, vm_type_is_pair t \<and> lv_fragment v)))"

definition agrees :: "verifier_local_var list \<Rightarrow> var_types \<Rightarrow> bool" where
  "agrees vars \<rho> \<longleftrightarrow> (\<forall>i<length vars. slot_agrees (vars ! i) (\<rho> i))"

abbreviation ivars :: "verifier_block \<Rightarrow> verifier_local_var list" where
  "ivars b \<equiv> vs_vars (initial_state b)"

abbreviation fvars :: "verifier_block \<Rightarrow> verifier_local_var list" where
  "fvars b \<equiv> vs_vars (final_state b)"

text \<open>A variable that is unknown at the end is unknown at the entry, and nothing is undefined.\<close>

definition block_wf :: "verifier_block \<Rightarrow> bool" where
  "block_wf b \<longleftrightarrow> length (ivars b) = length (fvars b) \<and>
     (\<forall>i<length (fvars b). lv_state (fvars b ! i) \<noteq> UNDEFINED \<and> lv_state (ivars b ! i) \<noteq> UNDEFINED \<and>
        (lv_state (fvars b ! i) = UNKNOWN \<longrightarrow> lv_state (ivars b ! i) = UNKNOWN))"

text \<open>The variables \<open>\<rho>\<close> at the end, where the entry has \<open>\<rho>0\<close>.\<close>

definition reaches :: "verifier_block \<Rightarrow> var_types \<Rightarrow> var_types \<Rightarrow> bool" where
  "reaches b \<rho>0 \<rho> \<longleftrightarrow> agrees (fvars b) \<rho> \<and>
     (\<forall>i<length (fvars b). lv_state (fvars b ! i) = UNKNOWN \<longrightarrow> \<rho> i = \<rho>0 i)"

section \<open>Local variables\<close>

text \<open>The variables after a definition.\<close>

definition defined_vars :: "verifier_local_var list \<Rightarrow> vm_type \<Rightarrow> nat \<Rightarrow> verifier_local_var list" where
  "defined_vars vars t i =
     (if vm_type_is_pair t then
        vars[i := \<lparr>lv_state = DEFINED, lv_type = Some t, lv_fragment = False\<rparr>,
             Suc i := \<lparr>lv_state = DEFINED, lv_type = Some t, lv_fragment = True\<rparr>]
      else vars[i := (vars ! i)\<lparr>lv_state := DEFINED, lv_type := Some t\<rparr>])"

lemma length_defined_vars [simp]: "length (defined_vars vars t i) = length vars"
  by (simp add: defined_vars_def)

lemma def_vrf_lvar_eq:
  "def_vrf_lvar s t i =
     (if i < length (vs_vars s) \<and> (vm_type_is_pair t \<longrightarrow> Suc i < length (vs_vars s))
      then Some (s\<lparr>vs_vars := defined_vars (vs_vars s) t i\<rparr>) else None)"
  by (cases "vs_vars s ! i"; cases "i < length (vs_vars s)") (auto simp: def_vrf_lvar_def defined_vars_def write_at_def)

lemma defined_vars_state:
  assumes "i < length vars" "vm_type_is_pair t \<longrightarrow> Suc i < length vars" "k < length vars"
  shows "lv_state (defined_vars vars t i ! k) =
    (if k = i \<or> (vm_type_is_pair t \<and> k = Suc i) then DEFINED else lv_state (vars ! k))"
  using assms by (auto simp: defined_vars_def nth_list_update)

lemma defined_vars_agrees:
  assumes "agrees vars \<rho>" "i < length vars" "vm_type_is_pair t \<longrightarrow> Suc i < length vars"
  shows "agrees (defined_vars vars t i) (define_var t i \<rho>)"
  using assms by (auto simp: agrees_def slot_agrees_def defined_vars_def define_var_def nth_list_update)

text \<open>If a state agrees with variables after a definition, it has that variable.\<close>

lemma agrees_defined_vars:
  assumes "agrees (defined_vars vars t i) \<rho>" "i < length vars" "vm_type_is_pair t \<longrightarrow> Suc i < length vars"
  shows "has_var t i \<rho>"
proof -
  have "slot_agrees (defined_vars vars t i ! i) (\<rho> i)" using assms by (simp add: agrees_def)
  then have 1: "\<rho> i = Some (t, False)"
    using assms(2,3) by (auto simp: slot_agrees_def defined_vars_def nth_list_update split: if_splits)
  have "\<rho> (Suc i) = Some (t, True)" if "vm_type_is_pair t"
  proof -
    have "slot_agrees (defined_vars vars t i ! Suc i) (\<rho> (Suc i))" using assms that by (simp add: agrees_def)
    then show ?thesis using assms(2,3) that by (auto simp: slot_agrees_def defined_vars_def nth_list_update)
  qed
  then show ?thesis using 1 by (simp add: has_var_def)
qed

text \<open>A definition of what was unknown before only adds to what is asked.\<close>

lemma agrees_before_defined:
  assumes "agrees (defined_vars vars t i) \<rho>"
    and "lv_state (vars ! i) = UNKNOWN" "vm_type_is_pair t \<longrightarrow> lv_state (vars ! Suc i) = UNKNOWN"
  shows "agrees vars \<rho>"
  unfolding agrees_def
proof (intro allI impI)
  fix k assume k: "k < length vars"
  show "slot_agrees (vars ! k) (\<rho> k)"
  proof (cases "k = i \<or> (vm_type_is_pair t \<and> k = Suc i)")
    case True
    then show ?thesis using assms(2,3) by (auto simp: slot_agrees_def)
  next
    case False
    then have "defined_vars vars t i ! k = vars ! k" by (auto simp: defined_vars_def nth_list_update)
    then show ?thesis using assms(1) k by (auto simp: agrees_def)
  qed
qed

lemma define_has_var: "has_var t i \<rho> \<Longrightarrow> define_var t i \<rho> = \<rho>"
  by (auto simp: has_var_def define_var_def fun_eq_iff)

lemma store_vrf_lvar_ok:
  assumes "store_vrf_lvar b t i = Some (0, b')"
  shows "i < length (fvars b)" "vm_type_is_pair t \<longrightarrow> Suc i < length (fvars b)"
    and "b' = b\<lparr>final_state := (final_state b)\<lparr>vs_vars := defined_vars (fvars b) t i\<rparr>\<rparr>"
  using assms by (auto simp: store_vrf_lvar_def def_vrf_lvar_eq split: if_splits)

lemma peek_vrf_lvar_ok:
  assumes "peek_vrf_lvar b t i = Some (0, b')" "block_wf b"
  shows "(i < length (fvars b) \<and> (vm_type_is_pair t \<longrightarrow> Suc i < length (fvars b)) \<and>
      lv_state (fvars b ! i) = UNKNOWN \<and> (vm_type_is_pair t \<longrightarrow> lv_state (fvars b ! Suc i) = UNKNOWN) \<and>
      b' = b\<lparr>initial_state := (initial_state b)\<lparr>vs_vars := defined_vars (ivars b) t i\<rparr>,
             final_state := (final_state b)\<lparr>vs_vars := defined_vars (fvars b) t i\<rparr>\<rparr>) \<or>
    (b' = b \<and> (\<forall>\<rho>. agrees (fvars b) \<rho> \<longrightarrow> has_var t i \<rho>))"
proof -
  have len: "length (ivars b) = length (fvars b)" using assms(2) by (simp add: block_wf_def)
  have i: "i < length (fvars b)"
    using assms(1) by (cases "i < length (fvars b)") (auto simp: peek_vrf_lvar_def Let_def)
  show ?thesis
  proof (cases "lv_state (fvars b ! i) = UNKNOWN")
    case True
    have p: "vm_type_is_pair t \<Longrightarrow> Suc i < length (fvars b)"
      using assms(1) i True by (cases "Suc i < length (fvars b)") (auto simp: peek_vrf_lvar_def Let_def)
    then have "vm_type_is_pair t \<Longrightarrow> lv_state (fvars b ! Suc i) = UNKNOWN"
      using assms(1) i True by (auto simp: peek_vrf_lvar_def Let_def E_TYPE_CHECKING_def split: if_splits)
    then show ?thesis
      using assms(1) i True p len
      by (cases "vm_type_is_pair t") (auto simp: peek_vrf_lvar_def Let_def store_vrf_lvar_def def_vrf_lvar_eq)
  next
    case False
    have D: "lv_state (fvars b ! i) = DEFINED"
      using assms(2) i False verifier_local_var_state.exhaust [of "lv_state (fvars b ! i)"]
      by (auto simp: block_wf_def)
    have t: "lv_type (fvars b ! i) = Some t"
      using assms(1) i False by (cases "lv_type (fvars b ! i)") (auto simp: peek_vrf_lvar_def Let_def E_TYPE_CHECKING_def split: if_splits)
    have b': "b' = b" using assms(1) i False t
      by (cases "Suc i < length (fvars b)")
        (auto simp: peek_vrf_lvar_def Let_def bind_eq_Some_conv E_TYPE_CHECKING_def split: if_splits)
    show ?thesis
    proof (cases "vm_type_is_pair t")
      case True
      have p: "Suc i < length (fvars b)"
        using assms(1) i False t True by (cases "Suc i < length (fvars b)") (auto simp: peek_vrf_lvar_def Let_def)
      then have "lv_state (fvars b ! Suc i) = DEFINED" "\<not> lv_fragment (fvars b ! i)"
          "lv_type (fvars b ! Suc i) = Some t" "lv_fragment (fvars b ! Suc i)"
        using assms(1) i False t True
        by (auto simp: peek_vrf_lvar_def Let_def bind_eq_Some_conv E_TYPE_CHECKING_def split: if_splits)
      then have "has_var t i \<rho>" if "agrees (fvars b) \<rho>" for \<rho>
        using that i p t D True unfolding agrees_def has_var_def slot_agrees_def by fastforce
      then show ?thesis using b' by blast
    next
      case False
      then have "has_var t i \<rho>" if "agrees (fvars b) \<rho>" for \<rho>
        using that i t D unfolding agrees_def has_var_def slot_agrees_def by fastforce
      then show ?thesis using b' by blast
    qed
  qed
qed

section \<open>One step\<close>

definition is_peek :: "act \<Rightarrow> bool" where
  "is_peek a = (case a of Peek t \<Rightarrow> True | _ \<Rightarrow> False)"

text \<open>What a step of the block says of complete states: \<open>x\<close> is what it asks in addition of the entry.\<close>

definition step_sound :: "act list \<Rightarrow> verifier_block \<Rightarrow> verifier_block \<Rightarrow> bool" where
  "step_sound as b b' \<longleftrightarrow>
     block_wf b' \<and> (\<forall>\<rho>. agrees (ivars b') \<rho> \<longrightarrow> agrees (ivars b) \<rho>) \<and>
     (\<exists>x. istack b' = istack b @ x \<and>
        (\<forall>\<rho>0 \<rho>. agrees (ivars b') \<rho>0 \<longrightarrow> reaches b \<rho>0 \<rho> \<longrightarrow>
          (\<exists>\<rho>'. full_acts as (fstack b @ x, \<rho>) = Some (fstack b', \<rho>') \<and> reaches b' \<rho>0 \<rho>')))"

lemma step_sound_refl: "block_wf b \<Longrightarrow> step_sound [] b b"
  by (simp add: step_sound_def)

lemma step_sound_trans:
  assumes "step_sound as b b1" "step_sound bs b1 b2"
  shows "step_sound (as @ bs) b b2"
proof -
  obtain x where x: "istack b1 = istack b @ x"
    "\<And>\<rho>0 \<rho>. agrees (ivars b1) \<rho>0 \<Longrightarrow> reaches b \<rho>0 \<rho> \<Longrightarrow>
      \<exists>\<rho>'. full_acts as (fstack b @ x, \<rho>) = Some (fstack b1, \<rho>') \<and> reaches b1 \<rho>0 \<rho>'"
    using assms(1) unfolding step_sound_def by blast
  obtain y where y: "istack b2 = istack b1 @ y"
    "\<And>\<rho>0 \<rho>. agrees (ivars b2) \<rho>0 \<Longrightarrow> reaches b1 \<rho>0 \<rho> \<Longrightarrow>
      \<exists>\<rho>'. full_acts bs (fstack b1 @ y, \<rho>) = Some (fstack b2, \<rho>') \<and> reaches b2 \<rho>0 \<rho>'"
    using assms(2) unfolding step_sound_def by blast
  have "\<exists>\<rho>'. full_acts (as @ bs) (fstack b @ x @ y, \<rho>) = Some (fstack b2, \<rho>') \<and> reaches b2 \<rho>0 \<rho>'"
    if ag: "agrees (ivars b2) \<rho>0" and re: "reaches b \<rho>0 \<rho>" for \<rho>0 \<rho>
  proof -
    have "agrees (ivars b1) \<rho>0" using assms(2) ag by (simp add: step_sound_def)
    then obtain \<rho>1 where 1: "full_acts as (fstack b @ x, \<rho>) = Some (fstack b1, \<rho>1)" "reaches b1 \<rho>0 \<rho>1"
      using x(2) re by blast
    then show ?thesis
      using y(2) [OF ag 1(2)] full_acts_frame [OF 1(1), of y] by (auto simp: full_acts_append)
  qed
  then show ?thesis using assms x(1) y(1) unfolding step_sound_def by auto
qed

lemma reaches_vars: "fvars b' = fvars b \<Longrightarrow> reaches b' = reaches b"
  by (simp add: reaches_def fun_eq_iff)

lemma block_wf_vars: "fvars b' = fvars b \<Longrightarrow> ivars b' = ivars b \<Longrightarrow> block_wf b \<Longrightarrow> block_wf b'"
  by (simp add: block_wf_def)

text \<open>A step that leaves the variables alone.\<close>

lemma stack_step_sound:
  assumes "block_wf b" "fvars b' = fvars b" "ivars b' = ivars b" "istack b' = istack b @ x"
    and "\<And>\<rho>. full_act a (fstack b @ x, \<rho>) = Some (fstack b', \<rho>)"
  shows "step_sound [a] b b'"
  using assms reaches_vars [OF assms(2)] block_wf_vars [OF assms(2,3,1)] by (auto simp: step_sound_def)

lemma store_step_sound:
  assumes "block_wf b" "store_vrf_lvar b t i = Some (0, b')"
  shows "step_sound [Store t i] b b'"
proof -
  note st = store_vrf_lvar_ok [OF assms(2)]
  have "block_wf b'" using assms(1) st by (auto simp: block_wf_def defined_vars_state)
  moreover have "reaches b' \<rho>0 (define_var t i \<rho>)" if "reaches b \<rho>0 \<rho>" for \<rho>0 \<rho>
    using that st defined_vars_agrees [OF _ st(1,2)]
    by (auto simp: reaches_def defined_vars_state define_var_def split: if_splits)
  ultimately show ?thesis using st(3) by (auto simp: step_sound_def)
qed

lemma load_step_sound:
  assumes "block_wf b" "peek_vrf_lvar b t i = Some (0, b')"
  shows "step_sound [Load t i] b b'"
  using peek_vrf_lvar_ok [OF assms(2,1)]
proof (elim disjE conjE)
  assume b': "b' = b" and has: "\<forall>\<rho>. agrees (fvars b) \<rho> \<longrightarrow> has_var t i \<rho>"
  have "has_var t i \<rho>" if "reaches b \<rho>0 \<rho>" for \<rho>0 \<rho> using has that by (simp add: reaches_def)
  then show ?thesis using b' assms(1) by (simp add: step_sound_def)
next
  assume i: "i < length (fvars b)" "vm_type_is_pair t \<longrightarrow> Suc i < length (fvars b)"
    and unk: "lv_state (fvars b ! i) = UNKNOWN" "vm_type_is_pair t \<longrightarrow> lv_state (fvars b ! Suc i) = UNKNOWN"
    and b': "b' = b\<lparr>initial_state := (initial_state b)\<lparr>vs_vars := defined_vars (ivars b) t i\<rparr>,
             final_state := (final_state b)\<lparr>vs_vars := defined_vars (fvars b) t i\<rparr>\<rparr>"
  have len: "length (ivars b) = length (fvars b)" using assms(1) by (simp add: block_wf_def)
  note ii = i [folded len]
  have old: "lv_state (ivars b ! i) = UNKNOWN" "vm_type_is_pair t \<longrightarrow> lv_state (ivars b ! Suc i) = UNKNOWN"
    using assms(1) i unk by (auto simp: block_wf_def)
  have vars: "fvars b' = defined_vars (fvars b) t i" "ivars b' = defined_vars (ivars b) t i"
    and stacks: "fstack b' = fstack b" "istack b' = istack b" using b' by simp_all
  have "block_wf b'"
    using assms(1) len unfolding block_wf_def vars length_defined_vars
    by (simp add: defined_vars_state [OF i] defined_vars_state [OF ii])
  moreover have "agrees (ivars b) \<rho>" if "agrees (ivars b') \<rho>" for \<rho>
    using agrees_before_defined [OF _ old] that vars(2) by simp
  moreover have "has_var t i \<rho> \<and> reaches b' \<rho>0 \<rho>" if "agrees (ivars b') \<rho>0" "reaches b \<rho>0 \<rho>" for \<rho>0 \<rho>
  proof -
    have "has_var t i \<rho>0" using agrees_defined_vars [OF _ ii] that(1) vars(2) by simp
    then have has: "has_var t i \<rho>" using that(2) i unk by (auto simp: has_var_def reaches_def)
    then have "agrees (defined_vars (fvars b) t i) \<rho>"
      using defined_vars_agrees [of "fvars b" \<rho> i t] that(2) i by (simp add: reaches_def define_has_var)
    then show ?thesis using has that(2) unfolding reaches_def vars by (simp add: defined_vars_state [OF i])
  qed
  ultimately show ?thesis unfolding step_sound_def by (auto simp: stacks)
qed

lemma act_step_sound:
  assumes "block_wf b" "run_act a b = Some (0, b')" "is_peek a \<Longrightarrow> fstack b \<noteq> []"
  shows "step_sound [a] b b'"
proof (cases a)
  case (Pop t)
  then consider mem where "fstack b = []"
      "b' = b\<lparr>initial_state := (initial_state b)\<lparr>vs_stack := istack b @ slots t\<rparr>, vb_mem := mem\<rparr>"
    | r where "fstack b = slots t @ r" "b' = set_final_stack b r"
    using pop_vrf_op_ok [of b t b'] assms(2) by auto
  then show ?thesis
  proof cases
    case 1
    then show ?thesis using Pop by (intro stack_step_sound [OF assms(1), where x = "slots t"]) (auto simp: take_value_Some)
  next
    case 2
    then show ?thesis using Pop by (intro stack_step_sound [OF assms(1), where x = "[]"]) auto
  qed
next
  case (Push t)
  then show ?thesis
    using push_vrf_op_ok [of b t b'] assms(2) by (auto intro!: stack_step_sound [OF assms(1), where x = "[]"])
next
  case (Peek t)
  then have "fstack b \<noteq> []" using assms(3) by (simp add: is_peek_def)
  then obtain r where "fstack b = slots t @ r" "b' = b" using peek_vrf_op_ok [of b t b'] assms(2) Peek by auto
  then show ?thesis using Peek by (auto intro!: stack_step_sound [OF assms(1), where x = "[]"])
next
  case (Load t i)
  then show ?thesis using load_step_sound [OF assms(1)] assms(2) by simp
next
  case (Store t i)
  then show ?thesis using store_step_sound [OF assms(1)] assms(2) by simp
qed

section \<open>Instructions and blocks\<close>

text \<open>No value is looked at on an empty stack.\<close>

primrec grounded :: "act list \<Rightarrow> verifier_block \<Rightarrow> bool" where
  "grounded [] b = True"
| "grounded (a # as) b =
     ((is_peek a \<longrightarrow> fstack b \<noteq> []) \<and> (case run_act a b of None \<Rightarrow> True | Some (err, b') \<Rightarrow> grounded as b'))"

lemma and_then_0: "and_then r k = Some (0, b') \<longleftrightarrow> (\<exists>b1. r = Some (0, b1) \<and> k b1 = Some (0, b'))"
  by (cases r) (auto simp: and_then_def split: if_splits)

lemma acts_step_sound:
  "block_wf b \<Longrightarrow> run_acts as b = Some (0, b') \<Longrightarrow> grounded as b \<Longrightarrow> step_sound as b b'"
proof (induction as arbitrary: b)
  case Nil
  then show ?case by (simp add: step_sound_refl)
next
  case (Cons a as)
  then obtain b1 where b1: "run_act a b = Some (0, b1)" "run_acts as b1 = Some (0, b')" by (auto simp: and_then_0)
  have 1: "step_sound [a] b b1" using Cons.prems b1(1) by (intro act_step_sound) auto
  moreover have "step_sound as b1 b'"
    using Cons.IH [OF _ b1(2)] Cons.prems(3) b1(1) 1 by (simp add: step_sound_def)
  ultimately show ?case using step_sound_trans [of "[a]" b b1 as b'] by simp
qed

text \<open>The effects of the instruction that a block has read.\<close>

definition insn_act_list :: "verifier_block \<Rightarrow> act list option" where
  "insn_act_list bb =
     (case insn_effect (vb_opc bb) of
        Acts as \<Rightarrow> Some as
      | Indexed f \<Rightarrow> map_option f (read_index bb)
      | NewArray f \<Rightarrow> (case read_vm_type bb of Some (Inr t) \<Rightarrow> Some (Pop J_INT # f t) | _ \<Rightarrow> None)
      | Fails e \<Rightarrow> None
      | Absent \<Rightarrow> None)"

lemma no_zero_failure: "insn_effect opc \<noteq> Fails 0"
proof -
  have "Fails 0 \<notin> set effects"
    by (simp add: effects_def vrf_codes ilfd_def binary_def convert_def replicate_numeral)
  then show ?thesis using length_effects by (auto simp: insn_effect_def in_set_conv_nth)
qed

lemma pop_keeps_code: "pop_vrf_op b t = Some (0, b') \<Longrightarrow> read_vm_type b' = read_vm_type b"
  using pop_vrf_op_ok [of b t b'] by (auto simp: read_vm_type_def)

lemma run_effect_acts:
  assumes "run_effect (insn_effect (vb_opc b)) b = Some (0, b')"
  shows "\<exists>as. insn_act_list b = Some as \<and> run_acts as b = Some (0, b')"
proof (cases "insn_effect (vb_opc b)")
  case (NewArray f)
  then obtain b1 where b1: "pop_vrf_op b J_INT = Some (0, b1)"
      "(do { r \<leftarrow> insn_acts (NewArray f) b1; case r of Inl err \<Rightarrow> Some (err, b1) | Inr as \<Rightarrow> run_acts as b1 }) = Some (0, b')"
    using assms by (auto simp: run_effect_def and_then_0)
  obtain ty where ty: "read_vm_type b1 = Some ty" using b1(2) by (cases "read_vm_type b1") auto
  have "ty \<noteq> Inl 0" using ty by (auto simp: read_vm_type_def bind_eq_Some_conv Let_def E_MALFORMED_BC_def split: if_splits)
  then obtain t where "ty = Inr t" using b1(2) ty by (cases ty) auto
  then show ?thesis
    using b1 ty NewArray pop_keeps_code [OF b1(1)] by (auto simp: insn_act_list_def and_then_0)
next
  case (Fails e)
  then show ?thesis using assms no_zero_failure [of "vb_opc b"] by auto
qed (use assms in \<open>auto simp: insn_act_list_def bind_eq_Some_conv EINVAL_def\<close>)

text \<open>A block from its allocation on, with the effects of the instructions that it has passed, each at a position
  that the caller chooses.\<close>

inductive block_run :: "verifier_block \<Rightarrow> act list \<Rightarrow> verifier_block \<Rightarrow> bool" where
  start: "block_run b [] b"
| step: "block_run b0 as b \<Longrightarrow> fetch (b\<lparr>vb_pc := pc\<rparr>) = Some bf \<Longrightarrow> insn_act_list bf = Some as' \<Longrightarrow>
    grounded as' bf \<Longrightarrow> verify_instruction (b\<lparr>vb_pc := pc\<rparr>) = Some (0, b') \<Longrightarrow> block_run b0 (as @ as') b'"

lemma fetch_states: "fetch b = Some bf \<Longrightarrow> initial_state bf = initial_state b \<and> final_state bf = final_state b"
  by (auto simp: fetch_def Let_def bind_eq_Some_conv split: if_splits)

lemma same_states_sound:
  "block_wf b \<Longrightarrow> initial_state b' = initial_state b \<Longrightarrow> final_state b' = final_state b \<Longrightarrow> step_sound [] b b'"
  by (simp add: step_sound_def block_wf_def reaches_def)

lemma block_run_sound: "block_run b0 as b \<Longrightarrow> block_wf b0 \<Longrightarrow> step_sound as b0 b"
proof (induction rule: block_run.induct)
  case (step b0 as b pc bf as' b')
  then have s: "step_sound as b0 b" by simp
  have wf: "block_wf b" using s by (simp add: step_sound_def)
  have "step_sound [] b bf" using fetch_states [OF step.hyps(2)] by (intro same_states_sound [OF wf]) simp_all
  moreover have "run_acts as' bf = Some (0, b')"
    using step.hyps(2,3,5) run_effect_acts [of bf b'] by (auto simp: verify_instruction_fetch)
  then have "step_sound as' bf b'"
    using calculation step.hyps(4) by (intro acts_step_sound) (simp_all add: step_sound_def)
  ultimately show ?case using step_sound_trans [OF s step_sound_trans] by fastforce
qed (simp add: step_sound_refl)

lemma alloc_verifier_block_fresh:
  assumes "alloc_verifier_block m off mem = (Some b0, mem')" "length (ivars b0) = length (fvars b0)"
  shows "istack b0 = [] \<and> fstack b0 = [] \<and> block_wf b0 \<and> (\<forall>\<rho>. reaches b0 \<rho> \<rho>)"
proof -
  have s: "vs_stack s = [] \<and> (\<forall>v\<in>set (vs_vars s). lv_state v = UNKNOWN)"
    if "alloc_verifier_state n me = (Some s, me')" for n me s me'
    using that by (auto simp: alloc_verifier_state_def alloc_verifier_local_var_def Let_def split: prod.splits if_splits)
  have "vs_stack (initial_state b0) = [] \<and> (\<forall>v\<in>set (ivars b0). lv_state v = UNKNOWN) \<and>
    vs_stack (final_state b0) = [] \<and> (\<forall>v\<in>set (fvars b0). lv_state v = UNKNOWN)"
    using assms(1) s by (fastforce simp: alloc_verifier_block_def Let_def split: prod.splits if_splits option.splits)
  then show ?thesis using assms(2) by (auto simp: block_wf_def reaches_def agrees_def slot_agrees_def)
qed

text \<open>C15: What a block infers is sufficient. After any instructions that the verifier has passed in a fresh block,
  without a value looked at on the empty stack: from every complete state with the inferred entry stack on top of
  any other operands, and variables that agree with the inferred entry variables, the same instructions run
  without a type error on complete states, leave the inferred stack on top of those operands, and variables
  that agree with the inferred ones.\<close>

theorem block_inference_sound:
  assumes "alloc_verifier_block m off mem = (Some b0, mem')" "length (ivars b0) = length (fvars b0)"
    and "block_run b0 as b" "agrees (ivars b) \<rho>0"
  shows "\<exists>\<rho>. full_acts as (istack b @ r, \<rho>0) = Some (fstack b @ r, \<rho>) \<and> agrees (fvars b) \<rho>"
proof -
  note fresh = alloc_verifier_block_fresh [OF assms(1,2)]
  then have "step_sound as b0 b" using block_run_sound [OF assms(3)] by blast
  then obtain \<rho> where \<rho>: "full_acts as (istack b, \<rho>0) = Some (fstack b, \<rho>)" "reaches b \<rho>0 \<rho>"
    using fresh assms(4) unfolding step_sound_def by (simp, blast)
  then show ?thesis using full_acts_frame [OF \<rho>(1), of r] by (auto simp: reaches_def)
qed

definition example_method :: vrf_method where
  "example_method = plain_method [0x3b, 0x1a, 0x60, 0x99, 0, 0] []"

definition example_block :: verifier_block where
  "example_block = the (fst (alloc_verifier_block example_method 0 []))"

lemma example_block_alloc:
  "alloc_verifier_block example_method 0 [] = (Some example_block, [])"
  "length (ivars example_block) = 1" "length (fvars example_block) = 1"
  by code_simp+

theorem block_inference_sound_witness:
  "\<exists>b. block_run example_block [Pop J_INT, Store J_INT 0, Load J_INT 0, Push J_INT] b \<and> istack b = slots J_INT \<and>
     (\<exists>\<rho>. full_acts [Pop J_INT, Store J_INT 0, Load J_INT 0, Push J_INT] (istack b @ slots J_LONG, \<lambda>_. None) =
        Some (fstack b @ slots J_LONG, \<rho>) \<and> agrees (fvars b) \<rho>)"
proof -
  let ?b1 = "snd (the (verify_instruction (example_block\<lparr>vb_pc := 0\<rparr>)))"
  let ?b2 = "snd (the (verify_instruction (?b1\<lparr>vb_pc := 1\<rparr>)))"
  have "block_run example_block ([] @ [Pop J_INT, Store J_INT 0]) ?b1"
    by (rule block_run.step [OF block_run.start, where pc = 0 and bf = "the (fetch (example_block\<lparr>vb_pc := 0\<rparr>))"]) code_simp+
  then have run: "block_run example_block (([] @ [Pop J_INT, Store J_INT 0]) @ [Load J_INT 0, Push J_INT]) ?b2"
    by (rule block_run.step [where pc = 1 and bf = "the (fetch (?b1\<lparr>vb_pc := 1\<rparr>))"]) code_simp+
  have "ivars ?b2 = [\<lparr>lv_state = UNKNOWN, lv_type = None, lv_fragment = False\<rparr>]" "istack ?b2 = slots J_INT"
    by code_simp+
  then have "agrees (ivars ?b2) (\<lambda>_. None)" "istack ?b2 = slots J_INT" by (simp_all add: agrees_def slot_agrees_def)
  then show ?thesis
    using block_inference_sound [OF example_block_alloc(1) _ run, of "\<lambda>_. None" "slots J_LONG"] run
    by (intro exI [of _ ?b2]) (simp add: example_block_alloc)
qed

section \<open>Where the checks differ from the instruction set\<close>

lemma pop_vrf_op_wrong:
  assumes "fstack b = slots t' @ r" "t \<noteq> t'"
  shows "pop_vrf_op b t = Some (E_TYPE_CHECKING, b)"
  using assms by (auto simp: pop_vrf_op_def slots_def top_is_def Let_def split: if_splits)

lemma peek_vrf_op_infers:
  assumes "fstack b = []" "vb_mem b = []"
  shows "peek_vrf_op b t = Some (0, b\<lparr>initial_state := (initial_state b)\<lparr>vs_stack := istack b @ slots t\<rparr>\<rparr>)"
    and "pop_vrf_op b t = Some (0, b\<lparr>initial_state := (initial_state b)\<lparr>vs_stack := istack b @ slots t\<rparr>\<rparr>)"
  using assms
  by (cases b; simp add: peek_vrf_op_def pop_vrf_op_def infer_vrf_op_def tail_def_vrf_op_def slots_def)+

text \<open>C29: Five cases where the checks are not those of the instruction set. A binary operation on an empty stack asks
  its two operands of the entry but leaves no result on the stack, where the operation on the complete state leaves
  one. A shift takes the shifted value before the count: it rejects a count on top of a \<open>long\<close> and accepts the
  reverse. \<open>newarray\<close> leaves the element type instead of a reference, so that \<open>arraylength\<close> fails after it.
  A store of one slot keeps the fragment flag of the variable. And a load of two slots from the last variable
  leaves the array of variables.\<close>

theorem verify_functions_gaps:
  fixes b :: verifier_block
  assumes "vb_mem b = []" "t \<noteq> J_REFERENCE"
  shows "(fstack b = [] \<longrightarrow>
      (\<exists>b'. verify_iadd b = Some (0, b') \<and> istack b' = istack b @ slots J_INT @ slots J_INT \<and> fstack b' = []) \<and>
      full_acts [Pop J_INT, Peek J_INT] (slots J_INT @ slots J_INT, \<rho>) = Some (slots J_INT, \<rho>)) \<and>
    (fstack b = slots J_INT @ slots J_LONG @ r \<longrightarrow> verify_lshl b = Some (E_TYPE_CHECKING, b)) \<and>
    (fstack b = slots J_LONG @ slots J_INT @ r \<longrightarrow> verify_lshl b = Some (0, set_final_stack b (slots J_LONG @ r))) \<and>
    (fstack b = slots J_INT @ r \<and> read_vm_type b = Some (Inr t) \<longrightarrow>
      (\<exists>b'. verify_newarray b = Some (0, b') \<and> fstack b' = slots t @ r \<and>
        verify_arraylength b' = Some (E_TYPE_CHECKING, b'))) \<and>
    (i < length (fvars b) \<and> \<not> vm_type_is_pair t \<longrightarrow>
      (\<exists>b'. store_vrf_lvar b t i = Some (0, b') \<and> lv_fragment (fvars b' ! i) = lv_fragment (fvars b ! i))) \<and>
    (Suc i = length (fvars b) \<longrightarrow> lv_state (fvars b ! i) = UNKNOWN \<longrightarrow> peek_vrf_lvar b J_LONG i = None)"
proof (intro conjI impI)
  show "\<exists>b'. verify_iadd b = Some (0, b') \<and> istack b' = istack b @ slots J_INT @ slots J_INT \<and> fstack b' = []"
    if "fstack b = []"
    using that assms(1) by (simp add: verify_iadd_def priv_verify_binop_def and_then_def peek_vrf_op_infers)
  show "full_acts [Pop J_INT, Peek J_INT] (slots J_INT @ slots J_INT, \<rho>) = Some (slots J_INT, \<rho>)"
    using take_value_slots [of J_INT "[]"] by simp
  show "verify_lshl b = Some (E_TYPE_CHECKING, b)" if "fstack b = slots J_INT @ slots J_LONG @ r"
    using pop_vrf_op_wrong [OF that, of J_LONG]
    by (simp add: verify_lshl_def priv_verify_xshx_def and_then_def E_TYPE_CHECKING_def)
  show "verify_lshl b = Some (0, set_final_stack b (slots J_LONG @ r))" if "fstack b = slots J_LONG @ slots J_INT @ r"
    using that assms(1) pop_vrf_op_slots [of b J_LONG "slots J_INT @ r"]
      pop_vrf_op_slots [of "set_final_stack b (slots J_INT @ r)" J_INT r]
    by (simp add: verify_lshl_def priv_verify_xshx_def and_then_def push_vrf_op_slots set_final_stack_def)
  show "\<exists>b'. verify_newarray b = Some (0, b') \<and> fstack b' = slots t @ r \<and>
      verify_arraylength b' = Some (E_TYPE_CHECKING, b')"
    if "fstack b = slots J_INT @ r \<and> read_vm_type b = Some (Inr t)"
  proof -
    let ?b = "set_final_stack (set_final_stack b r) (slots t @ r)"
    have "read_vm_type (set_final_stack b r) = Some (Inr t)" using that by (simp add: read_vm_type_def)
    then have "verify_newarray b = Some (0, ?b)"
      using that assms(1) pop_vrf_op_slots [of b J_INT r] push_vrf_op_slots [of "set_final_stack b r" t]
      by (simp add: verify_newarray_def and_then_def)
    moreover have "verify_arraylength ?b = Some (E_TYPE_CHECKING, ?b)"
      using pop_vrf_op_wrong [of ?b t r J_REFERENCE] assms(2)
      by (simp add: verify_arraylength_def and_then_def E_TYPE_CHECKING_def)
    ultimately show ?thesis by simp
  qed
  show "\<exists>b'. store_vrf_lvar b t i = Some (0, b') \<and> lv_fragment (fvars b' ! i) = lv_fragment (fvars b ! i)"
    if "i < length (fvars b) \<and> \<not> vm_type_is_pair t"
    using that by (simp add: store_vrf_lvar_def def_vrf_lvar_eq defined_vars_def)
  show "peek_vrf_lvar b J_LONG i = None" if "Suc i = length (fvars b)" "lv_state (fvars b ! i) = UNKNOWN"
    using that by (simp add: peek_vrf_lvar_def Let_def vm_type_is_pair_def)
qed

theorem verify_functions_gaps_witness:
  "(\<exists>b'. verify_iadd example_block = Some (0, b') \<and> istack b' = slots J_INT @ slots J_INT \<and> fstack b' = []) \<and>
   peek_vrf_lvar example_block J_LONG 0 = None"
proof -
  have "vb_mem example_block = []" "fstack example_block = []" "istack example_block = []"
    "lv_state (fvars example_block ! 0) = UNKNOWN" by code_simp+
  then show ?thesis
    using verify_functions_gaps [of example_block J_INT "\<lambda>_. None" "[]" 0] by (simp add: example_block_alloc)
qed

end
