(* ===== verification/Monitor.thy ===== *)
theory Monitor
  imports Jato_Prelude
begin

text \<open>
  The monitors of Java objects, \<open>vm/monitor.c\<close>: the relaxed locks that \<open>monitorenter\<close>, \<open>monitorexit\<close> and
  \<open>Object.wait\<close> use. Any number of threads run \<open>vm_object_lock\<close>, \<open>vm_object_unlock\<close> and \<open>vm_object_wait\<close> on any
  number of objects; every access to a shared field is one step, and the steps of the threads interleave in any
  order. The barriers of the source make its accesses sequentially consistent, which the model takes for granted.

  A thread has a program counter with the local variables of the function that it runs; \<open>cont\<close> says whether a
  lock or unlock returns to Java code or into \<open>vm_object_do_wait\<close>. A choice resolves what the step does not
  determine: the call of an idle thread, the address or the failure of \<open>malloc\<close>, whether a waiting thread was
  interrupted. \<open>exns\<close> is the exception that a thread has signalled last, and \<open>rets\<close> the value that its last call
  returned to Java code. \<open>held\<close> is not in the source: it counts, per thread and object, the locks that have
  returned and not been released, and is what the properties are about.

  What is simplified: a wait on the condition variable may end at any time, which covers notification, interruption,
  time-out and spurious wakeups, and it succeeds; so \<open>notify_mutex\<close> is left out, on which a waiting thread may block
  for a while, and \<open>vm_object_notify\<close> and \<open>vm_object_notify_all\<close> are not steps. The records of a pool live for
  ever: \<open>free_exec_env\<close>, which frees the pool of a thread that exits even though another thread may still be about to
  read such a record, is not a step. The counts are natural numbers: more than \<open>INT_MAX\<close> threads or recursive locks
  are out of reach.
\<close>

section \<open>State\<close>

type_synonym tid = nat
type_synonym oid = nat
type_synonym rid = nat

record vm_monitor_record =
  owner :: "tid option"
  nr_blocked :: nat
  nr_waiting :: nat
  candidate :: bool
  lock_count :: nat
  sem :: nat

datatype cont = Ret | WaitRet rid nat

datatype lock_pc =
    L_Read | L_Get | L_Install rid | L_Put rid | L_Owner rid | L_Count rid | L_Inc rid | L_Check rid
  | L_Cand rid | L_Cas rid | L_DecOwn rid | L_SetCount rid | L_Wait rid | L_Dec rid

datatype unlock_pc =
    U_Rec | U_Own rid | U_Cnt rid | U_Blocked rid | U_Waiting rid | U_Release rid | U_Wake rid | U_Post rid
  | U_Deflate rid | U_Flush rid | U_Posts rid nat | U_Spin rid | U_ClearCand rid | U_Put rid

datatype wait_pc =
    W_Rec | W_Own rid | W_Save rid | W_Inc rid nat | W_Cond rid nat | W_DecW rid nat | W_Assert rid nat
  | W_Restore rid nat

datatype pc = Idle | Lock oid cont lock_pc | Unlock oid cont unlock_pc | Wait oid wait_pc | Abort

datatype choice = Call_lock oid | Call_unlock oid | Call_wait oid | Malloc "rid option" | Interrupted

datatype exn = IllegalMonitorStateException | InterruptedException | OutOfMemoryError

record mstate =
  mon :: "oid \<Rightarrow> rid option"
  recs :: "rid \<Rightarrow> vm_monitor_record option"
  pools :: "tid \<Rightarrow> rid list"
  pcs :: "tid \<Rightarrow> pc"
  held :: "tid \<Rightarrow> oid \<Rightarrow> nat"
  exns :: "tid \<Rightarrow> exn option"
  rets :: "tid \<Rightarrow> int"

definition init_state :: mstate where
  "init_state = \<lparr>mon = (\<lambda>_. None), recs = (\<lambda>_. None), pools = (\<lambda>_. []), pcs = (\<lambda>_. Idle), held = (\<lambda>_ _. 0),
     exns = (\<lambda>_. None), rets = (\<lambda>_. 0)\<rparr>"

definition goto :: "mstate \<Rightarrow> tid \<Rightarrow> pc \<Rightarrow> mstate" where
  "goto s t p = s\<lparr>pcs := (pcs s)(t := p)\<rparr>"

definition set_held :: "mstate \<Rightarrow> tid \<Rightarrow> oid \<Rightarrow> nat \<Rightarrow> mstate" where
  "set_held s t ob n = s\<lparr>held := (held s)(t := (held s t)(ob := n))\<rparr>"

definition set_rec :: "mstate \<Rightarrow> rid \<Rightarrow> vm_monitor_record \<Rightarrow> mstate" where
  "set_rec s r m = s\<lparr>recs := (recs s)(r \<mapsto> m)\<rparr>"

definition set_mon :: "mstate \<Rightarrow> oid \<Rightarrow> rid option \<Rightarrow> mstate" where
  "set_mon s ob r = s\<lparr>mon := (mon s)(ob := r)\<rparr>"

definition set_pool :: "mstate \<Rightarrow> tid \<Rightarrow> rid list \<Rightarrow> mstate" where
  "set_pool s t rs = s\<lparr>pools := (pools s)(t := rs)\<rparr>"

definition signal_new_exception :: "mstate \<Rightarrow> tid \<Rightarrow> exn \<Rightarrow> mstate" where
  "signal_new_exception s t e = s\<lparr>exns := (exns s)(t \<mapsto> e)\<rparr>"

text \<open>A call returns to Java code.\<close>

definition java_return :: "mstate \<Rightarrow> tid \<Rightarrow> int \<Rightarrow> mstate" where
  "java_return s t n = goto (s\<lparr>rets := (rets s)(t := n)\<rparr>) t Idle"

text \<open>An access to a record that does not exist aborts the thread.\<close>

definition with_rec :: "mstate \<Rightarrow> tid \<Rightarrow> rid \<Rightarrow> (vm_monitor_record \<Rightarrow> mstate option) \<Rightarrow> mstate option" where
  "with_rec s t r f = (case recs s r of None \<Rightarrow> Some (goto s t Abort) | Some m \<Rightarrow> f m)"

section \<open>Records\<close>

definition new_record :: "tid \<Rightarrow> vm_monitor_record" where
  "new_record t = \<lparr>owner = Some t, nr_blocked = 0, nr_waiting = 0, candidate = False, lock_count = 1, sem = 0\<rparr>"

text \<open>The record and the state, or nothing when the allocation fails; \<open>None\<close> when the choice does not apply.\<close>

definition get_monitor_record :: "tid \<Rightarrow> choice \<Rightarrow> mstate \<Rightarrow> (rid \<times> mstate) option option" where
  "get_monitor_record t c s =
     (case pools s t of
        r # rs \<Rightarrow> Some (Some (r, set_pool s t rs))
      | [] \<Rightarrow> (case c of
                 Malloc None \<Rightarrow> Some None
               | Malloc (Some r) \<Rightarrow> if recs s r = None then Some (Some (r, set_rec s r (new_record t))) else None
               | _ \<Rightarrow> None))"

definition put_monitor_record :: "tid \<Rightarrow> rid \<Rightarrow> mstate \<Rightarrow> mstate" where
  "put_monitor_record t r s = set_pool s t (r # pools s t)"

section \<open>Locking\<close>

text \<open>The return of \<open>vm_object_lock\<close>, with success or with an error, which \<open>vm_object_do_wait\<close> does not look at.\<close>

fun lock_return :: "tid \<Rightarrow> oid \<Rightarrow> cont \<Rightarrow> bool \<Rightarrow> mstate \<Rightarrow> mstate" where
  "lock_return t ob Ret ok s = (if ok then java_return (set_held s t ob (held s t ob + 1)) t 0 else java_return s t (-1))"
| "lock_return t ob (WaitRet r n) ok s = goto s t (Wait ob (W_DecW r n))"

fun vm_object_lock :: "tid \<Rightarrow> choice \<Rightarrow> oid \<Rightarrow> cont \<Rightarrow> lock_pc \<Rightarrow> mstate \<Rightarrow> mstate option" where
  "vm_object_lock t c ob k L_Read s =
     Some (goto s t (Lock ob k (case mon s ob of None \<Rightarrow> L_Get | Some r \<Rightarrow> L_Owner r)))"
| "vm_object_lock t c ob k L_Get s =
     (case get_monitor_record t c s of
        None \<Rightarrow> None
      | Some None \<Rightarrow> Some (lock_return t ob k False (signal_new_exception s t OutOfMemoryError))
      | Some (Some (r, s)) \<Rightarrow> Some (goto s t (Lock ob k (L_Install r))))"
| "vm_object_lock t c ob k (L_Install r) s =
     Some (if mon s ob = None then lock_return t ob k True (set_mon s ob (Some r)) else goto s t (Lock ob k (L_Put r)))"
| "vm_object_lock t c ob k (L_Put r) s = Some (goto (put_monitor_record t r s) t (Lock ob k L_Read))"
| "vm_object_lock t c ob k (L_Owner r) s =
     with_rec s t r (\<lambda>m. Some (goto s t (Lock ob k (if owner m = Some t then L_Count r else L_Inc r))))"
| "vm_object_lock t c ob k (L_Count r) s =
     with_rec s t r (\<lambda>m. Some (lock_return t ob k True (set_rec s r (m\<lparr>lock_count := lock_count m + 1\<rparr>))))"
| "vm_object_lock t c ob k (L_Inc r) s =
     with_rec s t r (\<lambda>m. Some (goto (set_rec s r (m\<lparr>nr_blocked := nr_blocked m + 1\<rparr>)) t (Lock ob k (L_Check r))))"
| "vm_object_lock t c ob k (L_Check r) s =
     Some (goto s t (Lock ob k (if mon s ob = Some r then L_Cand r else L_Dec r)))"
| "vm_object_lock t c ob k (L_Cand r) s =
     with_rec s t r (\<lambda>m. Some (goto (set_rec s r (m\<lparr>candidate := True\<rparr>)) t (Lock ob k (L_Cas r))))"
| "vm_object_lock t c ob k (L_Cas r) s =
     with_rec s t r (\<lambda>m.
       Some (if owner m = None then goto (set_rec s r (m\<lparr>owner := Some t\<rparr>)) t (Lock ob k (L_DecOwn r))
             else goto s t (Lock ob k (L_Wait r))))"
| "vm_object_lock t c ob k (L_DecOwn r) s =
     with_rec s t r (\<lambda>m. Some (goto (set_rec s r (m\<lparr>nr_blocked := nr_blocked m - 1\<rparr>)) t (Lock ob k (L_SetCount r))))"
| "vm_object_lock t c ob k (L_SetCount r) s =
     with_rec s t r (\<lambda>m. Some (lock_return t ob k True (set_rec s r (m\<lparr>lock_count := 1\<rparr>))))"
| "vm_object_lock t c ob k (L_Wait r) s =
     with_rec s t r (\<lambda>m.
       if sem m > 0 then Some (goto (set_rec s r (m\<lparr>sem := sem m - 1\<rparr>)) t (Lock ob k (L_Check r))) else None)"
| "vm_object_lock t c ob k (L_Dec r) s =
     with_rec s t r (\<lambda>m. Some (goto (set_rec s r (m\<lparr>nr_blocked := nr_blocked m - 1\<rparr>)) t (Lock ob k L_Read)))"

section \<open>Unlocking\<close>

text \<open>The return of \<open>vm_object_unlock\<close> with its value, which \<open>vm_object_do_wait\<close> does not look at.\<close>

definition unlock_return :: "tid \<Rightarrow> oid \<Rightarrow> cont \<Rightarrow> int \<Rightarrow> mstate \<Rightarrow> mstate" where
  "unlock_return t ob k n s =
     (case k of Ret \<Rightarrow> java_return s t n | WaitRet r c \<Rightarrow> goto s t (Wait ob (W_Cond r c)))"

text \<open>The failure of \<open>owner_check\<close>.\<close>

definition owner_check_failed :: "tid \<Rightarrow> mstate \<Rightarrow> mstate" where
  "owner_check_failed t s = signal_new_exception s t IllegalMonitorStateException"

text \<open>The Java code gives up one of its locks.\<close>

definition drop_held :: "tid \<Rightarrow> oid \<Rightarrow> cont \<Rightarrow> mstate \<Rightarrow> mstate" where
  "drop_held t ob k s = (if k = Ret then set_held s t ob (held s t ob - 1) else s)"

fun vm_object_unlock :: "tid \<Rightarrow> oid \<Rightarrow> cont \<Rightarrow> unlock_pc \<Rightarrow> mstate \<Rightarrow> mstate option" where
  "vm_object_unlock t ob k U_Rec s =
     Some (case mon s ob of None \<Rightarrow> unlock_return t ob k (-1) (owner_check_failed t s) | Some r \<Rightarrow> goto s t (Unlock ob k (U_Own r)))"
| "vm_object_unlock t ob k (U_Own r) s =
     with_rec s t r (\<lambda>m. Some (if owner m = Some t then goto s t (Unlock ob k (U_Cnt r))
                                else unlock_return t ob k (-1) (owner_check_failed t s)))"
| "vm_object_unlock t ob k (U_Cnt r) s =
     with_rec s t r (\<lambda>m.
       Some (if lock_count m > 1
             then unlock_return t ob k 0 (drop_held t ob k (set_rec s r (m\<lparr>lock_count := lock_count m - 1\<rparr>)))
             else goto (drop_held t ob k s) t (Unlock ob k (U_Blocked r))))"
| "vm_object_unlock t ob k (U_Blocked r) s =
     with_rec s t r (\<lambda>m. Some (goto s t (Unlock ob k (if nr_blocked m > 0 then U_Release r else U_Waiting r))))"
| "vm_object_unlock t ob k (U_Waiting r) s =
     with_rec s t r (\<lambda>m. Some (goto s t (Unlock ob k (if nr_waiting m > 0 then U_Release r else U_Deflate r))))"
| "vm_object_unlock t ob k (U_Release r) s =
     with_rec s t r (\<lambda>m. Some (goto (set_rec s r (m\<lparr>owner := None\<rparr>)) t (Unlock ob k (U_Wake r))))"
| "vm_object_unlock t ob k (U_Wake r) s =
     with_rec s t r (\<lambda>m.
       Some (if candidate m then goto (set_rec s r (m\<lparr>candidate := False\<rparr>)) t (Unlock ob k (U_Post r))
             else unlock_return t ob k 0 s))"
| "vm_object_unlock t ob k (U_Post r) s =
     with_rec s t r (\<lambda>m. Some (unlock_return t ob k 0 (set_rec s r (m\<lparr>sem := sem m + 1\<rparr>))))"
| "vm_object_unlock t ob k (U_Deflate r) s = Some (goto (set_mon s ob None) t (Unlock ob k (U_Flush r)))"
| "vm_object_unlock t ob k (U_Flush r) s =
     with_rec s t r (\<lambda>m.
       Some (goto s t (Unlock ob k (if nr_blocked m > 0 then U_Posts r (nr_blocked m) else U_Put r))))"
| "vm_object_unlock t ob k (U_Posts r n) s =
     with_rec s t r (\<lambda>m.
       Some (case n of
               0 \<Rightarrow> goto s t (Unlock ob k (U_Spin r))
             | Suc n \<Rightarrow> goto (set_rec s r (m\<lparr>sem := sem m + 1\<rparr>)) t (Unlock ob k (U_Posts r n))))"
| "vm_object_unlock t ob k (U_Spin r) s =
     with_rec s t r (\<lambda>m. Some (if nr_blocked m > 0 then s else goto s t (Unlock ob k (U_ClearCand r))))"
| "vm_object_unlock t ob k (U_ClearCand r) s =
     with_rec s t r (\<lambda>m. Some (goto (set_rec s r (m\<lparr>candidate := False\<rparr>)) t (Unlock ob k (U_Put r))))"
| "vm_object_unlock t ob k (U_Put r) s = Some (unlock_return t ob k 0 (put_monitor_record t r s))"

section \<open>Waiting\<close>

text \<open>The end of \<open>vm_object_do_wait\<close>, where the thread learns of an interruption.\<close>

definition wait_return :: "tid \<Rightarrow> choice \<Rightarrow> mstate \<Rightarrow> mstate" where
  "wait_return t c s =
     (if c = Interrupted then java_return (signal_new_exception s t InterruptedException) t (-1) else java_return s t 0)"

fun vm_object_do_wait :: "tid \<Rightarrow> choice \<Rightarrow> oid \<Rightarrow> wait_pc \<Rightarrow> mstate \<Rightarrow> mstate option" where
  "vm_object_do_wait t c ob W_Rec s =
     Some (case mon s ob of None \<Rightarrow> java_return (owner_check_failed t s) t (-1) | Some r \<Rightarrow> goto s t (Wait ob (W_Own r)))"
| "vm_object_do_wait t c ob (W_Own r) s =
     with_rec s t r (\<lambda>m. Some (if owner m = Some t then goto s t (Wait ob (W_Save r))
                                else java_return (owner_check_failed t s) t (-1)))"
| "vm_object_do_wait t c ob (W_Save r) s =
     with_rec s t r (\<lambda>m.
       Some (goto (set_held (set_rec s r (m\<lparr>lock_count := 1\<rparr>)) t ob 0) t (Wait ob (W_Inc r (lock_count m)))))"
| "vm_object_do_wait t c ob (W_Inc r n) s =
     with_rec s t r (\<lambda>m.
       Some (goto (set_rec s r (m\<lparr>nr_waiting := nr_waiting m + 1\<rparr>)) t (Unlock ob (WaitRet r n) U_Rec)))"
| "vm_object_do_wait t c ob (W_Cond r n) s = Some (goto s t (Lock ob (WaitRet r n) L_Read))"
| "vm_object_do_wait t c ob (W_DecW r n) s =
     with_rec s t r (\<lambda>m. Some (goto (set_rec s r (m\<lparr>nr_waiting := nr_waiting m - 1\<rparr>)) t (Wait ob (W_Assert r n))))"
| "vm_object_do_wait t c ob (W_Assert r n) s =
     Some (goto s t (if mon s ob = Some r then Wait ob (W_Restore r n) else Abort))"
| "vm_object_do_wait t c ob (W_Restore r n) s =
     with_rec s t r (\<lambda>m. Some (wait_return t c (set_held (set_rec s r (m\<lparr>lock_count := n\<rparr>)) t ob n)))"

section \<open>Interleaving\<close>

definition mstep :: "tid \<Rightarrow> choice \<Rightarrow> mstate \<Rightarrow> mstate option" where
  "mstep t c s =
     (case pcs s t of
        Idle \<Rightarrow> (case c of
                   Call_lock ob \<Rightarrow> Some (goto s t (Lock ob Ret L_Read))
                 | Call_unlock ob \<Rightarrow> Some (goto s t (Unlock ob Ret U_Rec))
                 | Call_wait ob \<Rightarrow> Some (goto s t (Wait ob W_Rec))
                 | _ \<Rightarrow> None)
      | Lock ob k l \<Rightarrow> vm_object_lock t c ob k l s
      | Unlock ob k u \<Rightarrow> vm_object_unlock t ob k u s
      | Wait ob w \<Rightarrow> vm_object_do_wait t c ob w s
      | Abort \<Rightarrow> None)"

inductive reachable :: "mstate \<Rightarrow> bool" where
  start: "reachable init_state"
| step: "reachable s \<Longrightarrow> mstep t c s = Some s' \<Longrightarrow> reachable s'"

end
