(* ===== verification/Monitor_Safety.thy ===== *)
theory Monitor_Safety
  imports Monitor
begin

text \<open>
  Safety of the monitors: the invariant of all interleavings, and from it mutual exclusion, the exactness of the
  owner check, and that no thread aborts.

  The invariant says where every record is: attached to an object, in the pool of a thread, or in the hands of a
  thread that is about to attach it or has detached it; and who owns it. The case that makes the protocol work
  is a thread in the loop of \<open>vm_object_lock\<close>: the record that it tries to take is attached to its object, or its
  last owner is still flushing the blocked threads, since the count of blocked threads includes it.
\<close>

section \<open>What a program counter says\<close>

text \<open>The record in the hands of a thread.\<close>

fun lock_hand :: "lock_pc \<Rightarrow> rid option" where
  "lock_hand (L_Install r) = Some r"
| "lock_hand (L_Put r) = Some r"
| "lock_hand _ = None"

fun unlock_hand :: "unlock_pc \<Rightarrow> rid option" where
  "unlock_hand (U_Flush r) = Some r"
| "unlock_hand (U_Posts r n) = Some r"
| "unlock_hand (U_Spin r) = Some r"
| "unlock_hand (U_ClearCand r) = Some r"
| "unlock_hand (U_Put r) = Some r"
| "unlock_hand _ = None"

primrec hand :: "pc \<Rightarrow> rid option" where
  "hand Idle = None"
| "hand (Lock ob k l) = lock_hand l"
| "hand (Unlock ob k u) = unlock_hand u"
| "hand (Wait ob w) = None"
| "hand Abort = None"

text \<open>The record whose count of blocked threads includes the thread.\<close>

fun lock_blocked :: "lock_pc \<Rightarrow> rid option" where
  "lock_blocked (L_Check r) = Some r"
| "lock_blocked (L_Cand r) = Some r"
| "lock_blocked (L_Cas r) = Some r"
| "lock_blocked (L_DecOwn r) = Some r"
| "lock_blocked (L_Wait r) = Some r"
| "lock_blocked (L_Dec r) = Some r"
| "lock_blocked _ = None"

primrec blocked :: "pc \<Rightarrow> rid option" where
  "blocked Idle = None"
| "blocked (Lock ob k l) = lock_blocked l"
| "blocked (Unlock ob k u) = None"
| "blocked (Wait ob w) = None"
| "blocked Abort = None"

text \<open>The object and the record that the thread owns inside of a call, while the Java code does not hold the object.\<close>

fun lock_owns :: "lock_pc \<Rightarrow> rid option" where
  "lock_owns (L_DecOwn r) = Some r"
| "lock_owns (L_SetCount r) = Some r"
| "lock_owns _ = None"

fun unlock_owns :: "cont \<Rightarrow> unlock_pc \<Rightarrow> rid option" where
  "unlock_owns k (U_Blocked r) = Some r"
| "unlock_owns k (U_Waiting r) = Some r"
| "unlock_owns k (U_Release r) = Some r"
| "unlock_owns k (U_Deflate r) = Some r"
| "unlock_owns (WaitRet r n) U_Rec = Some r"
| "unlock_owns (WaitRet r n) (U_Own r') = Some r'"
| "unlock_owns (WaitRet r n) (U_Cnt r') = Some r'"
| "unlock_owns _ _ = None"

fun wait_owns :: "wait_pc \<Rightarrow> rid option" where
  "wait_owns (W_Inc r n) = Some r"
| "wait_owns (W_DecW r n) = Some r"
| "wait_owns (W_Assert r n) = Some r"
| "wait_owns (W_Restore r n) = Some r"
| "wait_owns _ = None"

primrec owns :: "pc \<Rightarrow> (oid \<times> rid) option" where
  "owns Idle = None"
| "owns (Lock ob k l) = map_option (Pair ob) (lock_owns l)"
| "owns (Unlock ob k u) = map_option (Pair ob) (unlock_owns k u)"
| "owns (Wait ob w) = map_option (Pair ob) (wait_owns w)"
| "owns Abort = None"

text \<open>The object and the record that the thread has found itself the owner of, while the Java code holds the object.\<close>

fun lock_checked :: "lock_pc \<Rightarrow> rid option" where
  "lock_checked (L_Count r) = Some r"
| "lock_checked _ = None"

fun unlock_checked :: "cont \<Rightarrow> unlock_pc \<Rightarrow> rid option" where
  "unlock_checked Ret (U_Cnt r) = Some r"
| "unlock_checked _ _ = None"

fun wait_checked :: "wait_pc \<Rightarrow> rid option" where
  "wait_checked (W_Save r) = Some r"
| "wait_checked _ = None"

primrec checked :: "pc \<Rightarrow> (oid \<times> rid) option" where
  "checked Idle = None"
| "checked (Lock ob k l) = map_option (Pair ob) (lock_checked l)"
| "checked (Unlock ob k u) = map_option (Pair ob) (unlock_checked k u)"
| "checked (Wait ob w) = map_option (Pair ob) (wait_checked w)"
| "checked Abort = None"

text \<open>The object and the record that the thread is about to compare the owner of.\<close>

fun lock_found :: "lock_pc \<Rightarrow> rid option" where
  "lock_found (L_Owner r) = Some r"
| "lock_found _ = None"

fun unlock_found :: "unlock_pc \<Rightarrow> rid option" where
  "unlock_found (U_Own r) = Some r"
| "unlock_found _ = None"

fun wait_found :: "wait_pc \<Rightarrow> rid option" where
  "wait_found (W_Own r) = Some r"
| "wait_found _ = None"

primrec found :: "pc \<Rightarrow> (oid \<times> rid) option" where
  "found Idle = None"
| "found (Lock ob k l) = map_option (Pair ob) (lock_found l)"
| "found (Unlock ob k u) = map_option (Pair ob) (unlock_found u)"
| "found (Wait ob w) = map_option (Pair ob) (wait_found w)"
| "found Abort = None"

text \<open>The object and the record that the thread tries to take in the loop of \<open>vm_object_lock\<close>.\<close>

fun lock_trying :: "lock_pc \<Rightarrow> rid option" where
  "lock_trying (L_Cand r) = Some r"
| "lock_trying (L_Cas r) = Some r"
| "lock_trying (L_Wait r) = Some r"
| "lock_trying _ = None"

primrec trying :: "pc \<Rightarrow> (oid \<times> rid) option" where
  "trying Idle = None"
| "trying (Lock ob k l) = map_option (Pair ob) (lock_trying l)"
| "trying (Unlock ob k u) = None"
| "trying (Wait ob w) = None"
| "trying Abort = None"

text \<open>The object and the record of a thread that the count of waiting threads includes.\<close>

fun cont_wait :: "cont \<Rightarrow> rid option" where
  "cont_wait Ret = None"
| "cont_wait (WaitRet r n) = Some r"

fun wait_waits :: "wait_pc \<Rightarrow> rid option" where
  "wait_waits (W_Cond r n) = Some r"
| "wait_waits (W_DecW r n) = Some r"
| "wait_waits _ = None"

primrec waits :: "pc \<Rightarrow> (oid \<times> rid) option" where
  "waits Idle = None"
| "waits (Lock ob k l) = map_option (Pair ob) (cont_wait k)"
| "waits (Unlock ob k u) = map_option (Pair ob) (cont_wait k)"
| "waits (Wait ob w) = map_option (Pair ob) (wait_waits w)"
| "waits Abort = None"

text \<open>The flushing of the blocked threads after a deflation.\<close>

primrec flushing :: "pc \<Rightarrow> bool" where
  "flushing Idle = False"
| "flushing (Lock ob k l) = False"
| "flushing (Unlock ob k u) = (case u of U_Flush r \<Rightarrow> True | U_Posts r n \<Rightarrow> True | U_Spin r \<Rightarrow> True | _ \<Rightarrow> False)"
| "flushing (Wait ob w) = False"
| "flushing Abort = False"

primrec in_lock :: "pc \<Rightarrow> bool" where
  "in_lock Idle = False"
| "in_lock (Lock ob k l) = True"
| "in_lock (Unlock ob k u) = False"
| "in_lock (Wait ob w) = False"
| "in_lock Abort = False"

text \<open>Inside of a wait the calls work on the record of the wait, and the saved count is positive.\<close>

fun lock_ok :: "cont \<Rightarrow> lock_pc \<Rightarrow> bool" where
  "lock_ok Ret l = True"
| "lock_ok (WaitRet r n) l =
     (0 < n \<and> l \<in> {L_Read, L_Owner r, L_Inc r, L_Check r, L_Cand r, L_Cas r, L_DecOwn r, L_SetCount r, L_Wait r, L_Dec r})"

fun unlock_ok :: "cont \<Rightarrow> unlock_pc \<Rightarrow> bool" where
  "unlock_ok Ret u = True"
| "unlock_ok (WaitRet r n) u =
     (0 < n \<and> u \<in> {U_Rec, U_Own r, U_Cnt r, U_Blocked r, U_Waiting r, U_Release r, U_Wake r, U_Post r})"

fun wait_ok :: "wait_pc \<Rightarrow> bool" where
  "wait_ok (W_Inc r n) = (0 < n)"
| "wait_ok (W_Cond r n) = (0 < n)"
| "wait_ok (W_DecW r n) = (0 < n)"
| "wait_ok (W_Assert r n) = (0 < n)"
| "wait_ok (W_Restore r n) = (0 < n)"
| "wait_ok _ = True"

primrec pc_ok :: "pc \<Rightarrow> bool" where
  "pc_ok Idle = True"
| "pc_ok (Lock ob k l) = lock_ok k l"
| "pc_ok (Unlock ob k u) = unlock_ok k u"
| "pc_ok (Wait ob w) = wait_ok w"
| "pc_ok Abort = False"

text \<open>The records that a program counter mentions.\<close>

primrec lock_refs :: "lock_pc \<Rightarrow> rid set" where
  "lock_refs L_Read = {}" | "lock_refs L_Get = {}" | "lock_refs (L_Install r) = {r}" | "lock_refs (L_Put r) = {r}"
| "lock_refs (L_Owner r) = {r}" | "lock_refs (L_Count r) = {r}" | "lock_refs (L_Inc r) = {r}"
| "lock_refs (L_Check r) = {r}" | "lock_refs (L_Cand r) = {r}" | "lock_refs (L_Cas r) = {r}"
| "lock_refs (L_DecOwn r) = {r}" | "lock_refs (L_SetCount r) = {r}" | "lock_refs (L_Wait r) = {r}"
| "lock_refs (L_Dec r) = {r}"

primrec unlock_refs :: "unlock_pc \<Rightarrow> rid set" where
  "unlock_refs U_Rec = {}" | "unlock_refs (U_Own r) = {r}" | "unlock_refs (U_Cnt r) = {r}"
| "unlock_refs (U_Blocked r) = {r}" | "unlock_refs (U_Waiting r) = {r}" | "unlock_refs (U_Release r) = {r}"
| "unlock_refs (U_Wake r) = {r}" | "unlock_refs (U_Post r) = {r}" | "unlock_refs (U_Deflate r) = {r}"
| "unlock_refs (U_Flush r) = {r}" | "unlock_refs (U_Posts r n) = {r}" | "unlock_refs (U_Spin r) = {r}"
| "unlock_refs (U_ClearCand r) = {r}" | "unlock_refs (U_Put r) = {r}"

primrec wait_refs :: "wait_pc \<Rightarrow> rid set" where
  "wait_refs W_Rec = {}" | "wait_refs (W_Own r) = {r}" | "wait_refs (W_Save r) = {r}"
| "wait_refs (W_Inc r n) = {r}" | "wait_refs (W_Cond r n) = {r}" | "wait_refs (W_DecW r n) = {r}"
| "wait_refs (W_Assert r n) = {r}" | "wait_refs (W_Restore r n) = {r}"

primrec refs :: "pc \<Rightarrow> rid set" where
  "refs Idle = {}"
| "refs (Lock ob k l) = set_option (cont_wait k) \<union> lock_refs l"
| "refs (Unlock ob k u) = set_option (cont_wait k) \<union> unlock_refs u"
| "refs (Wait ob w) = wait_refs w"
| "refs Abort = {}"

section \<open>The invariant\<close>

datatype place = NoWhere | Att oid | InPool tid | Hand tid

text \<open>The places of the records.\<close>

definition custody :: "(rid \<Rightarrow> place) \<Rightarrow> mstate \<Rightarrow> bool" where
  "custody pl s \<longleftrightarrow>
     (\<forall>ob r. mon s ob = Some r \<longleftrightarrow> pl r = Att ob) \<and>
     (\<forall>t r. r \<in> set (pools s t) \<longleftrightarrow> pl r = InPool t) \<and> (\<forall>t. distinct (pools s t)) \<and>
     (\<forall>t r. hand (pcs s t) = Some r \<longleftrightarrow> pl r = Hand t) \<and>
     (\<forall>r. recs s r = None \<longleftrightarrow> pl r = NoWhere)"

text \<open>The owners: of a record in a pool or in hands, and of an attached one.\<close>

definition ownership :: "(rid \<Rightarrow> place) \<Rightarrow> mstate \<Rightarrow> bool" where
  "ownership pl s \<longleftrightarrow>
     (\<forall>t r m. pl r = InPool t \<or> pl r = Hand t \<longrightarrow> recs s r = Some m \<longrightarrow> owner m = Some t \<and> lock_count m = 1) \<and>
     (\<forall>t ob r m. pl r = Att ob \<longrightarrow> recs s r = Some m \<longrightarrow> owner m = Some t \<longrightarrow>
        0 < held s t ob \<or> owns (pcs s t) = Some (ob, r)) \<and>
     (\<forall>t ob. 0 < held s t ob \<longrightarrow>
        (\<exists>r m. pl r = Att ob \<and> recs s r = Some m \<and> owner m = Some t \<and> lock_count m = held s t ob))"

definition counting :: "mstate \<Rightarrow> bool" where
  "counting s \<longleftrightarrow> finite {t. pcs s t \<noteq> Idle} \<and>
     (\<forall>r m. recs s r = Some m \<longrightarrow>
        nr_blocked m = card {t. blocked (pcs s t) = Some r} \<and>
        nr_waiting m = card {t. \<exists>ob. waits (pcs s t) = Some (ob, r)})"

text \<open>What holds of one thread.\<close>

definition thread_inv :: "(rid \<Rightarrow> place) \<Rightarrow> mstate \<Rightarrow> tid \<Rightarrow> bool" where
  "thread_inv pl s t \<longleftrightarrow>
     pc_ok (pcs s t) \<and> (\<forall>r\<in>refs (pcs s t). recs s r \<noteq> None) \<and>
     (\<forall>ob r m. owns (pcs s t) = Some (ob, r) \<longrightarrow> recs s r = Some m \<longrightarrow>
        pl r = Att ob \<and> owner m = Some t \<and> held s t ob = 0 \<and>
        (\<not> in_lock (pcs s t) \<longrightarrow> lock_count m = 1)) \<and>
     (\<forall>ob r m. checked (pcs s t) = Some (ob, r) \<longrightarrow> recs s r = Some m \<longrightarrow>
        pl r = Att ob \<and> owner m = Some t \<and> 0 < held s t ob) \<and>
     (\<forall>ob r m. found (pcs s t) = Some (ob, r) \<longrightarrow> recs s r = Some m \<longrightarrow> owner m = Some t \<longrightarrow> pl r = Att ob) \<and>
     (\<forall>ob r. trying (pcs s t) = Some (ob, r) \<longrightarrow>
        pl r = Att ob \<or> (\<exists>t'. pl r = Hand t' \<and> flushing (pcs s t'))) \<and>
     (\<forall>ob r. waits (pcs s t) = Some (ob, r) \<longrightarrow> pl r = Att ob \<and> held s t ob = 0) \<and>
     (\<forall>ob k r m. pcs s t = Unlock ob k (U_Deflate r) \<longrightarrow> recs s r = Some m \<longrightarrow> nr_waiting m = 0)"

definition safe :: "(rid \<Rightarrow> place) \<Rightarrow> mstate \<Rightarrow> bool" where
  "safe pl s \<longleftrightarrow> custody pl s \<and> ownership pl s \<and> counting s \<and> (\<forall>t. thread_inv pl s t)"

text \<open>How the places change in a step.\<close>

definition next_place :: "tid \<Rightarrow> choice \<Rightarrow> mstate \<Rightarrow> (rid \<Rightarrow> place) \<Rightarrow> rid \<Rightarrow> place" where
  "next_place t c s pl =
     (case pcs s t of
        Lock ob k l \<Rightarrow>
          (case l of
             L_Get \<Rightarrow> (case get_monitor_record t c s of Some (Some (r, _)) \<Rightarrow> pl(r := Hand t) | _ \<Rightarrow> pl)
           | L_Install r \<Rightarrow> if mon s ob = None then pl(r := Att ob) else pl
           | L_Put r \<Rightarrow> pl(r := InPool t)
           | _ \<Rightarrow> pl)
      | Unlock ob k u \<Rightarrow>
          (case u of U_Deflate r \<Rightarrow> pl(r := Hand t) | U_Put r \<Rightarrow> pl(r := InPool t) | _ \<Rightarrow> pl)
      | _ \<Rightarrow> pl)"

section \<open>Updates\<close>

lemma goto_simps [simp]:
  "pcs (goto s t p) = (pcs s)(t := p)" "mon (goto s t p) = mon s" "recs (goto s t p) = recs s"
  "pools (goto s t p) = pools s" "held (goto s t p) = held s"
  by (simp_all add: goto_def)

lemma exn_simps [simp]:
  "pcs (signal_new_exception s t e) = pcs s" "mon (signal_new_exception s t e) = mon s"
  "recs (signal_new_exception s t e) = recs s" "pools (signal_new_exception s t e) = pools s"
  "held (signal_new_exception s t e) = held s"
  by (simp_all add: signal_new_exception_def)

lemma owner_check_failed_simps [simp]:
  "pcs (owner_check_failed t s) = pcs s" "mon (owner_check_failed t s) = mon s"
  "recs (owner_check_failed t s) = recs s" "pools (owner_check_failed t s) = pools s"
  "held (owner_check_failed t s) = held s"
  by (simp_all add: owner_check_failed_def)

lemma java_return_simps [simp]:
  "pcs (java_return s t n) = (pcs s)(t := Idle)" "mon (java_return s t n) = mon s" "recs (java_return s t n) = recs s"
  "pools (java_return s t n) = pools s" "held (java_return s t n) = held s"
  by (simp_all add: java_return_def)

lemma wait_return_simps [simp]:
  "pcs (wait_return t c s) = (pcs s)(t := Idle)" "mon (wait_return t c s) = mon s" "recs (wait_return t c s) = recs s"
  "pools (wait_return t c s) = pools s" "held (wait_return t c s) = held s"
  by (simp_all add: wait_return_def)

lemma set_held_simps [simp]:
  "pcs (set_held s t ob n) = pcs s" "mon (set_held s t ob n) = mon s" "recs (set_held s t ob n) = recs s"
  "pools (set_held s t ob n) = pools s" "held (set_held s t ob n) = (held s)(t := (held s t)(ob := n))"
  by (simp_all add: set_held_def)

lemma set_rec_simps [simp]:
  "pcs (set_rec s r m) = pcs s" "mon (set_rec s r m) = mon s" "recs (set_rec s r m) = (recs s)(r \<mapsto> m)"
  "pools (set_rec s r m) = pools s" "held (set_rec s r m) = held s"
  by (simp_all add: set_rec_def)

lemma set_mon_simps [simp]:
  "pcs (set_mon s ob r) = pcs s" "mon (set_mon s ob r) = (mon s)(ob := r)" "recs (set_mon s ob r) = recs s"
  "pools (set_mon s ob r) = pools s" "held (set_mon s ob r) = held s"
  by (simp_all add: set_mon_def)

lemma set_pool_simps [simp]:
  "pcs (set_pool s t rs) = pcs s" "mon (set_pool s t rs) = mon s" "recs (set_pool s t rs) = recs s"
  "pools (set_pool s t rs) = (pools s)(t := rs)" "held (set_pool s t rs) = held s"
  by (simp_all add: set_pool_def)

lemmas mon_steps = mstep_def with_rec_def put_monitor_record_def get_monitor_record_def

section \<open>Places\<close>

lemma custody_cong:
  assumes "custody pl s" "pl' = pl" "mon s' = mon s" "pools s' = pools s" "\<And>r. recs s' r = None \<longleftrightarrow> recs s r = None"
    and "\<And>t. hand (pcs s' t) = hand (pcs s t)"
  shows "custody pl' s'"
  using assms by (simp add: custody_def)

text \<open>The five moves of a record.\<close>

lemma custodyD:
  assumes "custody pl s"
  shows "mon s ob = Some r \<longleftrightarrow> pl r = Att ob" "r \<in> set (pools s t) \<longleftrightarrow> pl r = InPool t" "distinct (pools s t)"
    "hand (pcs s t) = Some r \<longleftrightarrow> pl r = Hand t" "recs s r = None \<longleftrightarrow> pl r = NoWhere"
  using assms by (auto simp: custody_def)

lemma custodyI:
  assumes "\<And>ob r. mon s ob = Some r \<longleftrightarrow> pl r = Att ob" "\<And>t r. r \<in> set (pools s t) \<longleftrightarrow> pl r = InPool t"
    "\<And>t. distinct (pools s t)" "\<And>t r. hand (pcs s t) = Some r \<longleftrightarrow> pl r = Hand t"
    "\<And>r. recs s r = None \<longleftrightarrow> pl r = NoWhere"
  shows "custody pl s"
  using assms by (simp add: custody_def)

lemma custody_take:
  assumes "custody pl s" "pools s t = r # rs" "hand (pcs s t) = None" "hand p = Some r"
    and "mon s' = mon s" "pools s' = (pools s)(t := rs)" "recs s' = recs s" "pcs s' = (pcs s)(t := p)"
  shows "custody (pl(r := Hand t)) s'"
proof -
  note d = custodyD [OF assms(1)]
  have r: "pl r = InPool t" using d(2) [of r t] assms(2) by simp
  have dis: "distinct (r # rs)" using d(3) [of t] assms(2) by simp
  have rs: "x \<in> set rs \<longleftrightarrow> x \<noteq> r \<and> pl x = InPool t" for x using d(2) [of x t] assms(2) dis by auto
  have no: "pl x \<noteq> Hand t" for x using d(4) [of t x] assms(3) by simp
  show ?thesis
    by (rule custodyI; simp only: assms(5-8)) (use d r dis rs no assms(4) in \<open>auto simp: fun_upd_apply\<close>)
qed

lemma custody_new:
  assumes "custody pl s" "recs s r = None" "hand (pcs s t) = None" "hand p = Some r"
    and "mon s' = mon s" "pools s' = pools s" "recs s' = (recs s)(r \<mapsto> m)" "pcs s' = (pcs s)(t := p)"
  shows "custody (pl(r := Hand t)) s'"
proof -
  note d = custodyD [OF assms(1)]
  have r: "pl r = NoWhere" using d(5) assms(2) by blast
  have no: "pl x \<noteq> Hand t" for x using d(4) [of t x] assms(3) by simp
  show ?thesis
    by (rule custodyI; simp only: assms(5-8)) (use d r no assms(4) in \<open>auto simp: fun_upd_apply\<close>)
qed

lemma custody_attach:
  assumes "custody pl s" "mon s ob = None" "hand (pcs s t) = Some r" "hand p = None"
    and "mon s' = (mon s)(ob := Some r)" "pools s' = pools s" "recs s' = recs s" "pcs s' = (pcs s)(t := p)"
  shows "custody (pl(r := Att ob)) s'"
proof -
  note d = custodyD [OF assms(1)]
  have r: "pl r = Hand t" using d(4) assms(3) by blast
  have no: "pl x \<noteq> Att ob" for x using d(1) [of ob x] assms(2) by simp
  have hd: "pl x = Hand t \<Longrightarrow> x = r" for x using d(4) [of t x] assms(3) by auto
  show ?thesis
    by (rule custodyI; simp only: assms(5-8)) (auto simp: fun_upd_apply d r no assms(4) dest: hd)
qed

lemma custody_put:
  assumes "custody pl s" "hand (pcs s t) = Some r" "hand p = None"
    and "mon s' = mon s" "pools s' = (pools s)(t := r # pools s t)" "recs s' = recs s" "pcs s' = (pcs s)(t := p)"
  shows "custody (pl(r := InPool t)) s'"
proof -
  note d = custodyD [OF assms(1)]
  have r: "pl r = Hand t" using d(4) assms(2) by blast
  have hd: "pl x = Hand t \<Longrightarrow> x = r" for x using d(4) [of t x] assms(2) by auto
  show ?thesis
    by (rule custodyI; simp only: assms(4-7)) (auto simp: fun_upd_apply d r assms(3) dest: hd)
qed

lemma custody_detach:
  assumes "custody pl s" "mon s ob = Some r" "hand (pcs s t) = None" "hand p = Some r"
    and "mon s' = (mon s)(ob := None)" "pools s' = pools s" "recs s' = recs s" "pcs s' = (pcs s)(t := p)"
  shows "custody (pl(r := Hand t)) s'"
proof -
  note d = custodyD [OF assms(1)]
  have r: "pl r = Att ob" using d(1) assms(2) by blast
  have at: "pl x = Att ob \<Longrightarrow> x = r" for x using d(1) [of ob x] assms(2) by auto
  have no: "pl x \<noteq> Hand t" for x using d(4) [of t x] assms(3) by simp
  show ?thesis
    by (rule custodyI; simp only: assms(5-8)) (auto simp: fun_upd_apply d r no assms(4) dest: at)
qed

lemma lock_return_simps [simp]:
  "mon (lock_return t ob k ok s) = mon s" "pools (lock_return t ob k ok s) = pools s"
  "recs (lock_return t ob k ok s) = recs s"
  "pcs (lock_return t ob k ok s) = (pcs s)(t := (case k of Ret \<Rightarrow> Idle | WaitRet r n \<Rightarrow> Wait ob (W_DecW r n)))"
  "held (lock_return t ob k ok s) =
     (if k = Ret \<and> ok then (held s)(t := (held s t)(ob := held s t ob + 1)) else held s)"
  by (cases k; simp)+

lemma unlock_return_simps [simp]:
  "mon (unlock_return t ob k n s) = mon s" "pools (unlock_return t ob k n s) = pools s"
  "recs (unlock_return t ob k n s) = recs s" "held (unlock_return t ob k n s) = held s"
  "pcs (unlock_return t ob k n s) = (pcs s)(t := (case k of Ret \<Rightarrow> Idle | WaitRet r c \<Rightarrow> Wait ob (W_Cond r c)))"
  by (cases k; simp add: unlock_return_def)+

lemma drop_held_simps [simp]:
  "mon (drop_held t ob k s) = mon s" "pools (drop_held t ob k s) = pools s" "recs (drop_held t ob k s) = recs s"
  "pcs (drop_held t ob k s) = pcs s"
  "held (drop_held t ob k s) = (if k = Ret then (held s)(t := (held s t)(ob := held s t ob - 1)) else held s)"
  by (simp_all add: drop_held_def)

lemma custody_step:
  assumes "custody pl s" "mstep t c s = Some s'" "\<forall>r\<in>refs (pcs s t). recs s r \<noteq> None"
    and "\<And>ob k r. pcs s t = Unlock ob k (U_Deflate r) \<Longrightarrow> mon s ob = Some r"
  shows "custody (next_place t c s pl) s'"
proof (cases "pcs s t")
  case Idle
  then show ?thesis
    using assms(2) by (intro custody_cong [OF assms(1)]) (auto simp: mstep_def next_place_def split: choice.splits)
next
  case (Lock ob k l)
  show ?thesis
  proof (cases l)
    case L_Get
    have h: "hand (pcs s t) = None" using Lock L_Get by simp
    consider (take) r rs where "pools s t = r # rs" "s' = goto (set_pool s t rs) t (Lock ob k (L_Install r))"
        "next_place t c s pl = pl(r := Hand t)"
      | (new) r where "recs s r = None" "s' = goto (set_rec s r (new_record t)) t (Lock ob k (L_Install r))"
        "next_place t c s pl = pl(r := Hand t)"
      | (fail) "s' = lock_return t ob k False (signal_new_exception s t OutOfMemoryError)" "next_place t c s pl = pl"
      using assms(2) Lock L_Get
      by (auto simp: mon_steps next_place_def split: list.splits choice.splits option.splits if_splits)
    then show ?thesis
    proof cases
      case take
      then show ?thesis using custody_take [OF assms(1) take(1) h, where p = "Lock ob k (L_Install r)"] by simp
    next
      case new
      then show ?thesis using custody_new [OF assms(1) new(1) h, where p = "Lock ob k (L_Install r)"] by simp
    next
      case fail
      then show ?thesis using h by (intro custody_cong [OF assms(1)]) (auto split: cont.splits)
    qed
  next
    case (L_Install r)
    have h: "hand (pcs s t) = Some r" using Lock L_Install by simp
    show ?thesis
    proof (cases "mon s ob = None")
      case True
      then show ?thesis
        using custody_attach [OF assms(1) True h, where s' = s' and p = "case k of Ret \<Rightarrow> Idle | WaitRet r n \<Rightarrow> Wait ob (W_DecW r n)"]
          assms(2) Lock L_Install
        by (cases k) (auto simp: mstep_def next_place_def)
    next
      case False
      then show ?thesis
        using assms(2) Lock L_Install h by (intro custody_cong [OF assms(1)]) (auto simp: mstep_def next_place_def)
    qed
  next
    case (L_Put r)
    then show ?thesis
      using custody_put [OF assms(1), of t r "Lock ob k L_Read" s'] assms(2) Lock
      by (auto simp: mon_steps next_place_def)
  qed (use assms Lock in \<open>cases k; auto simp: mon_steps next_place_def intro!: custody_cong [OF assms(1)]
      split: if_splits option.splits\<close>)+
next
  case (Unlock ob k u)
  show ?thesis
  proof (cases u)
    case (U_Deflate r)
    then show ?thesis
      using custody_detach [OF assms(1), of ob r t "Unlock ob k (U_Flush r)" s'] assms(2,4) Unlock
      by (auto simp: mstep_def next_place_def)
  next
    case (U_Put r)
    then show ?thesis
      using custody_put [OF assms(1), where t = t and r = r and s' = s' and p = "case k of Ret \<Rightarrow> Idle | WaitRet r n \<Rightarrow> Wait ob (W_Cond r n)"]
        assms(2) Unlock
      by (cases k) (auto simp: mon_steps next_place_def)
  qed (use assms Unlock in \<open>cases k; auto simp: mon_steps next_place_def intro!: custody_cong [OF assms(1)]
      split: if_splits option.splits nat.splits\<close>)+
next
  case (Wait ob w)
  then show ?thesis using assms
    by (cases w; auto simp: mon_steps next_place_def intro!: custody_cong [OF assms(1)] split: if_splits option.splits)
next
  case Abort
  then show ?thesis using assms(2) by (simp add: mstep_def)
qed

section \<open>Counts\<close>

lemma blocked_refs: "blocked p = Some r \<Longrightarrow> r \<in> refs p"
proof (cases p)
  case (Lock ob k l)
  then show "blocked p = Some r \<Longrightarrow> r \<in> refs p" by (cases l) auto
qed auto

lemma waits_refs: "waits p = Some (ob, r) \<Longrightarrow> r \<in> refs p"
proof (cases p)
  case (Wait ob w)
  then show "waits p = Some (ob', r) \<Longrightarrow> r \<in> refs p" for ob' by (cases w) auto
qed (auto split: cont.splits)

lemma card_pc_update:
  assumes "finite {x. Q (f x)}"
  shows "card {x. Q ((f(t := p)) x)} = (if Q p then 1 else 0) + card {x. Q (f x)} - (if Q (f t) then 1 else 0)"
proof -
  let ?A = "{x. Q (f x)}"
  have "{x. Q ((f(t := p)) x)} = (if Q p then insert t (?A - {t}) else ?A - {t})" by auto
  then show ?thesis using assms by (auto simp: card_insert_if card_Diff_singleton)
qed

definition nblocked :: "mstate \<Rightarrow> rid \<Rightarrow> nat" where
  "nblocked s r = card {t. blocked (pcs s t) = Some r}"

definition nwaiting :: "mstate \<Rightarrow> rid \<Rightarrow> nat" where
  "nwaiting s r = card {t. \<exists>ob. waits (pcs s t) = Some (ob, r)}"

lemma counting_alt:
  "counting s \<longleftrightarrow> finite {t. pcs s t \<noteq> Idle} \<and>
     (\<forall>r m. recs s r = Some m \<longrightarrow> nr_blocked m = nblocked s r \<and> nr_waiting m = nwaiting s r)"
  by (simp add: counting_def nblocked_def nwaiting_def)

lemma nblocked_update:
  assumes "finite {t. pcs s t \<noteq> Idle}" "pcs s' = (pcs s)(t := p)"
  shows "nblocked s' r = (if blocked p = Some r then 1 else 0) + nblocked s r - (if blocked (pcs s t) = Some r then 1 else 0)"
proof -
  have "finite {t. blocked (pcs s t) = Some r}" by (rule finite_subset [OF _ assms(1)]) auto
  then show ?thesis unfolding nblocked_def assms(2) by (rule card_pc_update)
qed

lemma nwaiting_update:
  assumes "finite {t. pcs s t \<noteq> Idle}" "pcs s' = (pcs s)(t := p)"
  shows "nwaiting s' r = (if \<exists>ob. waits p = Some (ob, r) then 1 else 0) + nwaiting s r -
    (if \<exists>ob. waits (pcs s t) = Some (ob, r) then 1 else 0)"
proof -
  have "finite {t. \<exists>ob. waits (pcs s t) = Some (ob, r)}" by (rule finite_subset [OF _ assms(1)]) auto
  then show ?thesis unfolding nwaiting_def assms(2) by (rule card_pc_update [where Q = "\<lambda>p. \<exists>ob. waits p = Some (ob, r)"])
qed

text \<open>The counts after a step that changes one record and the program counter.\<close>

lemma counting_update:
  assumes "counting s" "pcs s' = (pcs s)(t := p)"
    and "\<And>r m'. recs s' r = Some m' \<Longrightarrow>
      (\<exists>m. recs s r = Some m \<and>
        nr_blocked m' = (if blocked p = Some r then 1 else 0) + nr_blocked m - (if blocked (pcs s t) = Some r then 1 else 0) \<and>
        nr_waiting m' = (if \<exists>ob. waits p = Some (ob, r) then 1 else 0) + nr_waiting m -
          (if \<exists>ob. waits (pcs s t) = Some (ob, r) then 1 else 0))"
  shows "counting s'"
proof -
  have fin: "finite {t. pcs s t \<noteq> Idle}" using assms(1) by (simp add: counting_alt)
  have "finite {t. pcs s' t \<noteq> Idle}"
    unfolding assms(2) by (rule finite_subset [OF _ finite.insertI [OF fin, of t]]) auto
  then show ?thesis
    using assms(1,3) nblocked_update [OF fin assms(2)] nwaiting_update [OF fin assms(2)]
    unfolding counting_alt by metis
qed

lemma counting_step:
  assumes "counting s" "mstep t c s = Some s'" "\<And>t. \<forall>r\<in>refs (pcs s t). recs s r \<noteq> None" "pc_ok (pcs s t)"
  shows "counting s'"
proof (cases "pcs s t")
  case Idle
  then show ?thesis
    using assms(2) by (auto simp: mstep_def intro!: counting_update [OF assms(1)] split: choice.splits)
next
  case (Lock ob k l)
  have ref: "\<forall>r\<in>refs (Lock ob k l). recs s r \<noteq> None" using assms(3) [of t] Lock by simp
  show ?thesis
  proof (cases l)
    case L_Get
    have zero: "nblocked s r = 0 \<and> nwaiting s r = 0" if "recs s r = None" for r
    proof -
      have "r \<notin> refs (pcs s t')" for t' using assms(3) [of t'] that by blast
      then have "{t. blocked (pcs s t) = Some r} = {}" "{t. \<exists>ob. waits (pcs s t) = Some (ob, r)} = {}"
        using blocked_refs waits_refs by blast+
      then show ?thesis unfolding nblocked_def nwaiting_def by simp
    qed
    have fin: "finite {t. pcs s t \<noteq> Idle}" using assms(1) by (simp add: counting_alt)
    consider (take) r rs where "s' = goto (set_pool s t rs) t (Lock ob k (L_Install r))"
      | (new) r where "recs s r = None" "s' = goto (set_rec s r (new_record t)) t (Lock ob k (L_Install r))"
      | (fail) "s' = lock_return t ob k False (signal_new_exception s t OutOfMemoryError)"
      using assms(2) Lock L_Get by (auto simp: mon_steps split: list.splits choice.splits option.splits if_splits)
    then show ?thesis
    proof cases
      case take
      then show ?thesis using Lock L_Get by (auto intro!: counting_update [OF assms(1)])
    next
      case new
      have "nblocked s' r' = nblocked s r' \<and> nwaiting s' r' = nwaiting s r'" for r'
        using nblocked_update [OF fin, of s' t "Lock ob k (L_Install r)" r']
          nwaiting_update [OF fin, of s' t "Lock ob k (L_Install r)" r'] new(2) Lock L_Get by auto
      moreover have "finite {t. pcs s' t \<noteq> Idle}"
        using new(2) by (intro finite_subset [OF _ finite.insertI [OF fin, of t]]) auto
      ultimately show ?thesis
        using assms(1) new zero [OF new(1)] by (auto simp: counting_alt new_record_def)
    next
      case fail
      then show ?thesis using Lock L_Get by (auto intro!: counting_update [OF assms(1)] split: cont.splits)
    qed
  qed (use assms(2,4) Lock ref in \<open>auto simp: mon_steps intro!: counting_update [OF assms(1)]
      split: if_splits option.splits cont.splits\<close>)+
next
  case (Unlock ob k u)
  have ref: "\<forall>r\<in>refs (Unlock ob k u). recs s r \<noteq> None" using assms(3) [of t] Unlock by simp
  show ?thesis
  proof (cases u)
    case (U_Spin r)
    then show ?thesis
      using assms(1,2) Unlock ref
      by (auto simp: mon_steps intro!: counting_update [OF assms(1), of _ t] split: if_splits option.splits)
  qed (use assms(2,4) Unlock ref in \<open>auto simp: mon_steps intro!: counting_update [OF assms(1)]
      split: if_splits option.splits nat.splits cont.splits\<close>)+
next
  case (Wait ob w)
  have ref: "\<forall>r\<in>refs (Wait ob w). recs s r \<noteq> None" using assms(3) [of t] Wait by simp
  show ?thesis using assms(2,4) Wait ref
    by (cases w; auto simp: mon_steps intro!: counting_update [OF assms(1)] split: if_splits option.splits)
next
  case Abort
  then show ?thesis using assms(2) by (simp add: mstep_def)
qed

section \<open>Consequences of the invariant\<close>

lemma owns_refs: "owns p = Some (ob, r) \<Longrightarrow> r \<in> refs p"
proof (cases p)
  case (Lock ob k l)
  then show "owns p = Some (ob', r) \<Longrightarrow> r \<in> refs p" for ob' by (cases l) auto
next
  case (Unlock ob k u)
  then show "owns p = Some (ob', r) \<Longrightarrow> r \<in> refs p" for ob' by (cases u; cases k) auto
next
  case (Wait ob w)
  then show "owns p = Some (ob', r) \<Longrightarrow> r \<in> refs p" for ob' by (cases w) auto
qed auto

lemma checked_refs: "checked p = Some (ob, r) \<Longrightarrow> r \<in> refs p"
proof (cases p)
  case (Lock ob k l)
  then show "checked p = Some (ob', r) \<Longrightarrow> r \<in> refs p" for ob' by (cases l) auto
next
  case (Unlock ob k u)
  then show "checked p = Some (ob', r) \<Longrightarrow> r \<in> refs p" for ob' by (cases u; cases k) auto
next
  case (Wait ob w)
  then show "checked p = Some (ob', r) \<Longrightarrow> r \<in> refs p" for ob' by (cases w) auto
qed auto

lemma safe_parts:
  assumes "safe pl s"
  shows "custody pl s" "ownership pl s" "counting s" "thread_inv pl s t"
  using assms by (simp_all add: safe_def)

lemma thread_invD:
  assumes "thread_inv pl s t"
  shows "pc_ok (pcs s t)" "r \<in> refs (pcs s t) \<Longrightarrow> \<exists>m. recs s r = Some m"
    "owns (pcs s t) = Some (ob, r) \<Longrightarrow> recs s r = Some m \<Longrightarrow>
        pl r = Att ob \<and> owner m = Some t \<and> held s t ob = 0 \<and> (\<not> in_lock (pcs s t) \<longrightarrow> lock_count m = 1)"
    "checked (pcs s t) = Some (ob, r) \<Longrightarrow> recs s r = Some m \<Longrightarrow> pl r = Att ob \<and> owner m = Some t \<and> 0 < held s t ob"
    "found (pcs s t) = Some (ob, r) \<Longrightarrow> recs s r = Some m \<Longrightarrow> owner m = Some t \<Longrightarrow> pl r = Att ob"
    "trying (pcs s t) = Some (ob, r) \<Longrightarrow> pl r = Att ob \<or> (\<exists>t'. pl r = Hand t' \<and> flushing (pcs s t'))"
    "waits (pcs s t) = Some (ob, r) \<Longrightarrow> pl r = Att ob \<and> held s t ob = 0"
    "pcs s t = Unlock ob k (U_Deflate r) \<Longrightarrow> recs s r = Some m \<Longrightarrow> nr_waiting m = 0"
  using assms unfolding thread_inv_def by blast+

lemma ownsD:
  assumes "safe pl s" "owns (pcs s t) = Some (ob, r)"
  obtains m where "recs s r = Some m" "pl r = Att ob" "mon s ob = Some r" "owner m = Some t" "held s t ob = 0"
    "\<not> in_lock (pcs s t) \<Longrightarrow> lock_count m = 1"
proof -
  note inv = thread_invD [OF safe_parts(4) [OF assms(1), of t]]
  obtain m where m: "recs s r = Some m" using inv(2) [OF owns_refs [OF assms(2)]] by blast
  show thesis
    using that [OF m] inv(3) [OF assms(2) m] custodyD(1) [OF safe_parts(1) [OF assms(1)]] by simp
qed

lemma checkedD:
  assumes "safe pl s" "checked (pcs s t) = Some (ob, r)"
  obtains m where "recs s r = Some m" "pl r = Att ob" "mon s ob = Some r" "owner m = Some t" "0 < held s t ob"
    "lock_count m = held s t ob"
proof -
  note inv = thread_invD [OF safe_parts(4) [OF assms(1), of t]]
  note c = custodyD(1) [OF safe_parts(1) [OF assms(1)]]
  obtain m where m: "recs s r = Some m" using inv(2) [OF checked_refs [OF assms(2)]] by blast
  have h: "pl r = Att ob" "owner m = Some t" "0 < held s t ob" using inv(4) [OF assms(2) m] by simp_all
  moreover obtain r' m' where r': "pl r' = Att ob" "recs s r' = Some m'" "owner m' = Some t" "lock_count m' = held s t ob"
    using safe_parts(2) [OF assms(1)] h(3) unfolding ownership_def by blast
  moreover have "r' = r" using c [of ob r] c [of ob r'] r'(1) h(1) by simp
  ultimately show thesis using that [OF m] m c by auto
qed

lemma heldD:
  assumes "safe pl s" "0 < held s t ob"
  obtains r m where "recs s r = Some m" "pl r = Att ob" "mon s ob = Some r" "owner m = Some t" "lock_count m = held s t ob"
proof -
  obtain r m where "pl r = Att ob" "recs s r = Some m" "owner m = Some t" "lock_count m = held s t ob"
    using safe_parts(2) [OF assms(1)] assms(2) unfolding ownership_def by blast
  then show thesis using that custodyD(1) [OF safe_parts(1) [OF assms(1)]] by blast
qed

section \<open>Owners\<close>

lemma ownershipI:
  assumes "\<And>t r m. pl r = InPool t \<or> pl r = Hand t \<Longrightarrow> recs s r = Some m \<Longrightarrow> owner m = Some t \<and> lock_count m = 1"
    and "\<And>t ob r m. pl r = Att ob \<Longrightarrow> recs s r = Some m \<Longrightarrow> owner m = Some t \<Longrightarrow>
      0 < held s t ob \<or> owns (pcs s t) = Some (ob, r)"
    and "\<And>t ob. 0 < held s t ob \<Longrightarrow>
      \<exists>r m. pl r = Att ob \<and> recs s r = Some m \<and> owner m = Some t \<and> lock_count m = held s t ob"
  shows "ownership pl s"
  using assms unfolding ownership_def by blast

lemma ownershipD:
  assumes "ownership pl s"
  shows "pl r = InPool t \<or> pl r = Hand t \<Longrightarrow> recs s r = Some m \<Longrightarrow> owner m = Some t \<and> lock_count m = 1"
    and "pl r = Att ob \<Longrightarrow> recs s r = Some m \<Longrightarrow> owner m = Some t \<Longrightarrow> 0 < held s t ob \<or> owns (pcs s t) = Some (ob, r)"
    and "0 < held s t ob \<Longrightarrow> \<exists>r m. pl r = Att ob \<and> recs s r = Some m \<and> owner m = Some t \<and> lock_count m = held s t ob"
  using assms unfolding ownership_def by blast+

text \<open>Steps that change no owner and no lock count, and give up nothing.\<close>

lemma ownership_cong:
  assumes "ownership pl s" "pl' = pl" "held s' = held s"
    and "\<And>r. map_option owner (recs s' r) = map_option owner (recs s r)"
    and "\<And>r. map_option lock_count (recs s' r) = map_option lock_count (recs s r)"
    and "\<And>t x. owns (pcs s t) = Some x \<Longrightarrow> owns (pcs s' t) = Some x"
  shows "ownership pl' s'"
proof -
  have bwd: "\<exists>m. recs s r = Some m \<and> owner m = owner m' \<and> lock_count m = lock_count m'" if "recs s' r = Some m'" for r m'
    using assms(4,5) [of r] that by (cases "recs s r") auto
  have fwd: "\<exists>m'. recs s' r = Some m' \<and> owner m' = owner m \<and> lock_count m' = lock_count m" if "recs s r = Some m" for r m
    using assms(4,5) [of r] that by (cases "recs s' r") auto
  note d = ownershipD [OF assms(1)]
  show ?thesis
    unfolding assms(2)
  proof (rule ownershipI)
    show "owner m' = Some t \<and> lock_count m' = 1" if "pl r = InPool t \<or> pl r = Hand t" "recs s' r = Some m'" for t r m'
      using bwd [OF that(2)] d(1) [OF that(1)] by auto
    show "0 < held s' t ob \<or> owns (pcs s' t) = Some (ob, r)"
      if at: "pl r = Att ob" "recs s' r = Some m'" "owner m' = Some t" for t ob r m'
    proof -
      obtain m where "recs s r = Some m" "owner m = Some t" using bwd [OF at(2)] at(3) by auto
      then have "0 < held s t ob \<or> owns (pcs s t) = Some (ob, r)" using d(2) [OF at(1)] by simp
      then show ?thesis using assms(3,6) by auto
    qed
    show "\<exists>r m. pl r = Att ob \<and> recs s' r = Some m \<and> owner m = Some t \<and> lock_count m = held s' t ob"
      if held: "0 < held s' t ob" for t ob
    proof -
      obtain r m where "pl r = Att ob" "recs s r = Some m" "owner m = Some t" "lock_count m = held s t ob"
        using d(3) [of t ob] held assms(3) by auto
      then show ?thesis using fwd [of r m] assms(3) by auto
    qed
  qed
qed

text \<open>Steps of the owner of an attached record.\<close>

lemma att_unique: "custody pl s \<Longrightarrow> pl r = Att ob \<Longrightarrow> pl r' = Att ob \<Longrightarrow> r' = r"
  using custodyD(1) [of pl s ob r] custodyD(1) [of pl s ob r'] by simp

lemma ownership_owner:
  assumes cu: "custody pl s" and ow: "ownership pl s"
    and r: "pl r = Att ob" "recs s r = Some m" "owner m = Some t" "\<And>x. owns (pcs s t) = Some x \<Longrightarrow> x = (ob, r)"
    and s': "recs s' = (recs s)(r \<mapsto> m')" "held s' = (held s)(t := (held s t)(ob := n))" "pcs s' = (pcs s)(t := p)"
    and m': "owner m' = Some t" "(0 < n \<and> lock_count m' = n) \<or> (n = 0 \<and> owns p = Some (ob, r))"
  shows "ownership pl s'"
proof (rule ownershipI)
  note d = ownershipD [OF ow]
  show "owner x = Some t' \<and> lock_count x = 1" if "pl r' = InPool t' \<or> pl r' = Hand t'" "recs s' r' = Some x" for t' r' x
    using that d(1) [of r' t' x] r(1) s'(1) by (auto split: if_splits)
  show "0 < held s' t' ob' \<or> owns (pcs s' t') = Some (ob', r')"
    if "pl r' = Att ob'" "recs s' r' = Some x" "owner x = Some t'" for t' ob' r' x
  proof (cases "r' = r")
    case True
    then show ?thesis using that r(1) s' m' by auto
  next
    case False
    then have "ob' \<noteq> ob" using att_unique [OF cu r(1)] that(1) by auto
    moreover have "0 < held s t' ob' \<or> owns (pcs s t') = Some (ob', r')" using d(2) that False s'(1) by simp
    ultimately show ?thesis using s' r(4) False by auto
  qed
  show "\<exists>r m. pl r = Att ob' \<and> recs s' r = Some m \<and> owner m = Some t' \<and> lock_count m = held s' t' ob'"
    if held: "0 < held s' t' ob'" for t' ob'
  proof (cases "t' = t \<and> ob' = ob")
    case True
    then show ?thesis using held r(1) s' m' by (intro exI [of _ r]) auto
  next
    case False
    then have h: "held s' t' ob' = held s t' ob'" using s'(2) by auto
    then obtain r2 m2 where 2: "pl r2 = Att ob'" "recs s r2 = Some m2" "owner m2 = Some t'" "lock_count m2 = held s t' ob'"
      using d(3) [of t' ob'] held by auto
    then have "r2 \<noteq> r" using False r(1-3) by auto
    then show ?thesis using 2 s'(1) h by auto
  qed
qed

lemma ownership_acquire:
  assumes ow: "ownership pl s" and r: "pl r = Att ob" "recs s r = Some m" "owner m = None" "owns (pcs s t) = None"
    and s': "recs s' = (recs s)(r \<mapsto> m')" "held s' = held s" "pcs s' = (pcs s)(t := p)"
    and m': "owner m' = Some t" "owns p = Some (ob, r)"
  shows "ownership pl s'"
proof (rule ownershipI)
  note d = ownershipD [OF ow]
  show "owner x = Some t' \<and> lock_count x = 1" if "pl r' = InPool t' \<or> pl r' = Hand t'" "recs s' r' = Some x" for t' r' x
    using that d(1) [of r' t' x] r(1) s'(1) by (auto split: if_splits)
  show "0 < held s' t' ob' \<or> owns (pcs s' t') = Some (ob', r')"
    if "pl r' = Att ob'" "recs s' r' = Some x" "owner x = Some t'" for t' ob' r' x
    using that d(2) [of r' ob' x t'] r s' m' by (cases "r' = r") auto
  show "\<exists>r m. pl r = Att ob' \<and> recs s' r = Some m \<and> owner m = Some t' \<and> lock_count m = held s' t' ob'"
    if held: "0 < held s' t' ob'" for t' ob'
  proof -
    obtain r2 m2 where 2: "pl r2 = Att ob'" "recs s r2 = Some m2" "owner m2 = Some t'" "lock_count m2 = held s t' ob'"
      using d(3) [of t' ob'] held s'(2) by auto
    then have "r2 \<noteq> r" using r by auto
    then show ?thesis using 2 s' by auto
  qed
qed

lemma ownership_release:
  assumes ow: "ownership pl s"
    and r: "pl r = Att ob" "recs s r = Some m" "owner m = Some t" "owns (pcs s t) = Some (ob, r)" "held s t ob = 0"
    and s': "recs s' = (recs s)(r \<mapsto> m')" "held s' = held s" "pcs s' = (pcs s)(t := p)"
    and m': "owner m' = None"
  shows "ownership pl s'"
proof (rule ownershipI)
  note d = ownershipD [OF ow]
  show "owner x = Some t' \<and> lock_count x = 1" if "pl r' = InPool t' \<or> pl r' = Hand t'" "recs s' r' = Some x" for t' r' x
    using that d(1) [of r' t' x] r(1) s'(1) by (auto split: if_splits)
  show "0 < held s' t' ob' \<or> owns (pcs s' t') = Some (ob', r')"
    if "pl r' = Att ob'" "recs s' r' = Some x" "owner x = Some t'" for t' ob' r' x
    using that d(2) [of r' ob' x t'] r s' m' by (cases "r' = r") auto
  show "\<exists>r m. pl r = Att ob' \<and> recs s' r = Some m \<and> owner m = Some t' \<and> lock_count m = held s' t' ob'"
    if held: "0 < held s' t' ob'" for t' ob'
  proof -
    obtain r2 m2 where 2: "pl r2 = Att ob'" "recs s r2 = Some m2" "owner m2 = Some t'" "lock_count m2 = held s t' ob'"
      using d(3) [of t' ob'] held s'(2) by auto
    then have "r2 \<noteq> r" using r held s'(2) by auto
    then show ?thesis using 2 s' by auto
  qed
qed

text \<open>The moves of a record whose owner has it in hands, or will have.\<close>

lemma ownership_move:
  assumes cu: "custody pl s" and ow: "ownership pl s"
    and r: "\<forall>ob. pl r = Att ob \<longrightarrow> owns (pcs s t) = Some (ob, r) \<and> held s t ob = 0"
    and s': "recs s' = (recs s)(r \<mapsto> m)" "held s' = held s" "pcs s' = (pcs s)(t := p)"
    and m: "owner m = Some t" "lock_count m = 1" "pl r = NoWhere \<or> recs s r = Some m"
    and p: "q = InPool t \<or> q = Hand t" "\<And>x. owns (pcs s t) = Some x \<Longrightarrow> pl r = Att (fst x) \<and> snd x = r"
  shows "ownership (pl(r := q)) s'"
proof (rule ownershipI)
  note d = ownershipD [OF ow]
  show "owner x = Some t' \<and> lock_count x = 1"
    if "(pl(r := q)) r' = InPool t' \<or> (pl(r := q)) r' = Hand t'" "recs s' r' = Some x" for t' r' x
    using that d(1) [of r' t' x] s'(1) m p(1) by (cases "r' = r") auto
  show "0 < held s' t' ob' \<or> owns (pcs s' t') = Some (ob', r')"
    if "(pl(r := q)) r' = Att ob'" "recs s' r' = Some x" "owner x = Some t'" for t' ob' r' x
  proof -
    have ne: "r' \<noteq> r" using that(1) p(1) by auto
    then have "0 < held s t' ob' \<or> owns (pcs s t') = Some (ob', r')" using that d(2) s'(1) by auto
    then show ?thesis using s' p(2) ne by (cases "t' = t") auto
  qed
  show "\<exists>r1 m1. (pl(r := q)) r1 = Att ob' \<and> recs s' r1 = Some m1 \<and> owner m1 = Some t' \<and> lock_count m1 = held s' t' ob'"
    if held: "0 < held s' t' ob'" for t' ob'
  proof -
    obtain r2 m2 where 2: "pl r2 = Att ob'" "recs s r2 = Some m2" "owner m2 = Some t'" "lock_count m2 = held s t' ob'"
      using d(3) [of t' ob'] held s'(2) by auto
    then have "r2 \<noteq> r" using r held s'(2) m by auto
    then show ?thesis using 2 s' by auto
  qed
qed

lemma ownership_attach:
  assumes cu: "custody pl s" and ow: "ownership pl s"
    and r: "pl r = Hand t" "mon s ob = None" "recs s r = Some m" "owns (pcs s t) = None"
    and s': "recs s' = recs s" "held s' = (held s)(t := (held s t)(ob := held s t ob + 1))" "pcs s' = (pcs s)(t := p)"
  shows "ownership (pl(r := Att ob)) s'"
proof (rule ownershipI)
  note d = ownershipD [OF ow]
  have no: "pl x \<noteq> Att ob" for x using custodyD(1) [OF cu, of ob x] r(2) by simp
  have h0: "held s t' ob = 0" for t' using d(3) [of t' ob] no by (cases "held s t' ob") auto
  have m: "owner m = Some t" "lock_count m = 1" using d(1) r by auto
  show "owner x = Some t' \<and> lock_count x = 1"
    if "(pl(r := Att ob)) r' = InPool t' \<or> (pl(r := Att ob)) r' = Hand t'" "recs s' r' = Some x" for t' r' x
    using that d(1) [of r' t' x] s'(1) by (cases "r' = r") auto
  show "0 < held s' t' ob' \<or> owns (pcs s' t') = Some (ob', r')"
    if "(pl(r := Att ob)) r' = Att ob'" "recs s' r' = Some x" "owner x = Some t'" for t' ob' r' x
    using that d(2) [of r' ob' x t'] r m s' by (cases "r' = r") (auto split: if_splits)
  show "\<exists>r1 m1. (pl(r := Att ob)) r1 = Att ob' \<and> recs s' r1 = Some m1 \<and> owner m1 = Some t' \<and> lock_count m1 = held s' t' ob'"
    if held: "0 < held s' t' ob'" for t' ob'
  proof (cases "ob' = ob")
    case True
    then have "t' = t" using held h0 [of t'] s'(2) by (auto split: if_splits)
    then show ?thesis using True r(3) m s' h0 by auto
  next
    case False
    then obtain r2 m2 where 2: "pl r2 = Att ob'" "recs s r2 = Some m2" "owner m2 = Some t'" "lock_count m2 = held s t' ob'"
      using d(3) [of t' ob'] held s'(2) by (auto split: if_splits)
    then show ?thesis using s' r(1) False by (intro exI [of _ r2]) auto
  qed
qed

end
