(* ===== verification/Monitor_Mutex.thy ===== *)
theory Monitor_Mutex
  imports Monitor_Safety
begin

text \<open>
  The invariant of the monitors is kept by every step of every thread; mutual exclusion and the other safety
  properties follow.
\<close>

section \<open>Owners\<close>

lemma safe_ref: "safe pl s \<Longrightarrow> r \<in> refs (pcs s t) \<Longrightarrow> \<exists>m. recs s r = Some m"
  using thread_invD(2) [OF safe_parts(4)] by blast

lemma safe_ok: "safe pl s \<Longrightarrow> pc_ok (pcs s t)"
  using thread_invD(1) [OF safe_parts(4)] by blast

lemma trying_free_att:
  assumes "safe pl s" "trying (pcs s t) = Some (ob, r)" "recs s r = Some m" "owner m = None"
  shows "pl r = Att ob"
  using thread_invD(6) [OF safe_parts(4) [OF assms(1)] assms(2)] ownershipD(1) [OF safe_parts(2) [OF assms(1)], of r _ m]
    assms(3,4) by auto

lemma hand_record:
  assumes "safe pl s" "hand (pcs s t) = Some r"
  obtains m where "pl r = Hand t" "recs s r = Some m" "owner m = Some t" "lock_count m = 1"
proof -
  note c = custodyD [OF safe_parts(1) [OF assms(1)]]
  have h: "pl r = Hand t" using c(4) assms(2) by blast
  then obtain m where m: "recs s r = Some m" using c(5) [of r] by (cases "recs s r") auto
  then show thesis using that [OF h m] ownershipD(1) [OF safe_parts(2) [OF assms(1)] _ m] h by blast
qed

lemma ownership_lock:
  assumes safe: "safe pl s" and step: "vm_object_lock t c ob k l s = Some s'" and pc: "pcs s t = Lock ob k l"
  shows "ownership (next_place t c s pl) s'"
proof -
  note cu = safe_parts(1) [OF safe] and ow = safe_parts(2) [OF safe]
  have ok: "lock_ok k l" using safe_ok [OF safe, of t] pc by simp
  have ref: "\<exists>m. recs s r = Some m" if "r \<in> lock_refs l" for r using safe_ref [OF safe, of r t] pc that by simp
  show ?thesis
  proof (cases l)
    case L_Get
    then have kr: "k = Ret" using ok by (cases k) auto
    consider (take) r rs where "pools s t = r # rs" "s' = goto (set_pool s t rs) t (Lock ob k (L_Install r))"
        "next_place t c s pl = pl(r := Hand t)"
      | (new) r where "recs s r = None" "s' = goto (set_rec s r (new_record t)) t (Lock ob k (L_Install r))"
        "next_place t c s pl = pl(r := Hand t)"
      | (fail) "s' = java_return (signal_new_exception s t OutOfMemoryError) t (-1)" "next_place t c s pl = pl"
      using step pc L_Get kr
      by (auto simp: get_monitor_record_def next_place_def split: list.splits choice.splits option.splits if_splits)
    then show ?thesis
    proof cases
      case take
      have p: "pl r = InPool t" using custodyD(2) [OF cu, of r t] take(1) by simp
      then obtain m where m: "recs s r = Some m" using custodyD(5) [OF cu, of r] by (cases "recs s r") auto
      show ?thesis
        unfolding take(3)
        by (rule ownership_move [OF cu ow, where t = t and m = m and p = "Lock ob k (L_Install r)"])
          (use p m take(2) pc L_Get ownershipD(1) [OF ow _ m] in \<open>auto simp: fun_upd_idem\<close>)
    next
      case new
      have p: "pl r = NoWhere" using custodyD(5) [OF cu, of r] new(1) by simp
      show ?thesis
        unfolding new(3)
        by (rule ownership_move [OF cu ow, where t = t and m = "new_record t" and p = "Lock ob k (L_Install r)"])
          (use p new(2) pc L_Get in \<open>auto simp: new_record_def\<close>)
    next
      case fail
      then show ?thesis using pc L_Get by (intro ownership_cong [OF ow]) auto
    qed
  next
    case (L_Install r)
    then have kr: "k = Ret" using ok by (cases k) auto
    obtain m where m: "pl r = Hand t" "recs s r = Some m" using hand_record [OF safe, of t r] pc L_Install by auto
    show ?thesis
    proof (cases "mon s ob = None")
      case True
      then show ?thesis
        using ownership_attach [OF cu ow m(1) True m(2), of s' Idle] step pc L_Install kr by (auto simp: next_place_def)
    next
      case False
      then show ?thesis
        using step pc L_Install by (intro ownership_cong [OF ow]) (auto simp: next_place_def)
    qed
  next
    case (L_Put r)
    obtain m where m: "pl r = Hand t" "recs s r = Some m" "owner m = Some t" "lock_count m = 1"
      using hand_record [OF safe, of t r] pc L_Put by auto
    have "ownership (pl(r := InPool t)) s'"
      by (rule ownership_move [OF cu ow, where t = t and m = m and p = "Lock ob k L_Read"])
        (use m step pc L_Put in \<open>auto simp: put_monitor_record_def fun_upd_idem\<close>)
    then show ?thesis using pc L_Put by (simp add: next_place_def)
  next
    case (L_Count r)
    then have kr: "k = Ret" using ok by (cases k) auto
    obtain m where m: "recs s r = Some m" "pl r = Att ob" "owner m = Some t" "0 < held s t ob" "lock_count m = held s t ob"
      using checkedD [OF safe, of t ob r] pc L_Count by auto
    have "ownership pl s'"
      by (rule ownership_owner [OF cu ow m(2,1,3), where n = "held s t ob + 1" and p = Idle
            and m' = "m\<lparr>lock_count := lock_count m + 1\<rparr>"])
        (use step pc L_Count m kr in \<open>auto simp: with_rec_def\<close>)
    then show ?thesis using pc L_Count by (simp add: next_place_def)
  next
    case (L_Cas r)
    then obtain m where m: "recs s r = Some m" using ref by auto
    show ?thesis
    proof (cases "owner m = None")
      case True
      have "pl r = Att ob" using trying_free_att [OF safe _ m True, of t ob] pc L_Cas by simp
      then show ?thesis
        using ownership_acquire [OF ow _ m True, of ob t s' "m\<lparr>owner := Some t\<rparr>" "Lock ob k (L_DecOwn r)"] step pc L_Cas m True
        by (auto simp: with_rec_def next_place_def)
    next
      case False
      then show ?thesis
        using step pc L_Cas m by (intro ownership_cong [OF ow]) (auto simp: with_rec_def next_place_def)
    qed
  next
    case (L_SetCount r)
    obtain m where m: "recs s r = Some m" "pl r = Att ob" "owner m = Some t" "held s t ob = 0"
      using ownsD [OF safe, of t ob r] pc L_SetCount by auto
    define n :: nat where "n = (if k = Ret then 1 else 0)"
    define p where "p = (case k of Ret \<Rightarrow> Idle | WaitRet r n \<Rightarrow> Wait ob (W_DecW r n))"
    have "ownership pl s'"
      by (rule ownership_owner [OF cu ow m(2,1,3), where n = n and p = p and m' = "m\<lparr>lock_count := 1\<rparr>"])
        (use step pc L_SetCount m ok in \<open>auto simp: with_rec_def n_def p_def fun_upd_idem split: cont.splits\<close>)
    then show ?thesis using pc L_SetCount by (simp add: next_place_def)
  qed (use step pc ref in \<open>auto simp: with_rec_def next_place_def intro!: ownership_cong [OF ow] split: option.splits if_splits\<close>)+
qed

lemma ownership_unlock:
  assumes safe: "safe pl s" and step: "vm_object_unlock t ob k u s = Some s'" and pc: "pcs s t = Unlock ob k u"
  shows "ownership (next_place t c s pl) s'"
proof -
  note cu = safe_parts(1) [OF safe] and ow = safe_parts(2) [OF safe]
  have ok: "unlock_ok k u" using safe_ok [OF safe, of t] pc by simp
  have ref: "\<exists>m. recs s r = Some m" if "r \<in> unlock_refs u" for r using safe_ref [OF safe, of r t] pc that by simp
  show ?thesis
  proof (cases u)
    case U_Rec
    show ?thesis
    proof (cases k)
      case Ret
      then show ?thesis
        using step pc U_Rec by (intro ownership_cong [OF ow]) (auto simp: next_place_def split: option.splits)
    next
      case (WaitRet r n)
      then have "mon s ob = Some r" using ownsD [OF safe, of t ob r] pc U_Rec by auto
      then show ?thesis
        using step pc U_Rec WaitRet by (intro ownership_cong [OF ow]) (auto simp: next_place_def)
    qed
  next
    case (U_Own r)
    show ?thesis
    proof (cases k)
      case Ret
      then show ?thesis
        using step pc U_Own ref by (intro ownership_cong [OF ow]) (auto simp: next_place_def with_rec_def split: if_splits)
    next
      case (WaitRet r' n)
      then obtain m where "recs s r = Some m" "owner m = Some t" using ownsD [OF safe, of t ob r] pc U_Own by auto
      then show ?thesis
        using step pc U_Own WaitRet by (intro ownership_cong [OF ow]) (auto simp: next_place_def with_rec_def)
    qed
  next
    case (U_Cnt r)
    show ?thesis
    proof (cases k)
      case Ret
      then obtain m where m: "recs s r = Some m" "pl r = Att ob" "owner m = Some t" "0 < held s t ob" "lock_count m = held s t ob"
        using checkedD [OF safe, of t ob r] pc U_Cnt by auto
      define m' where "m' = (if lock_count m > 1 then m\<lparr>lock_count := lock_count m - 1\<rparr> else m)"
      define p where "p = (if lock_count m > 1 then Idle else Unlock ob Ret (U_Blocked r))"
      have "ownership pl s'"
        by (rule ownership_owner [OF cu ow m(2,1,3), where n = "held s t ob - 1" and p = p and m' = m'])
          (use step pc U_Cnt Ret m in \<open>auto simp: with_rec_def m'_def p_def fun_upd_idem split: if_splits\<close>)
      then show ?thesis using pc U_Cnt by (simp add: next_place_def)
    next
      case (WaitRet r' n)
      then obtain m where "recs s r = Some m" "lock_count m = 1" using ownsD [OF safe, of t ob r] pc U_Cnt by auto
      then show ?thesis
        using step pc U_Cnt WaitRet by (intro ownership_cong [OF ow]) (auto simp: next_place_def with_rec_def)
    qed
  next
    case (U_Release r)
    obtain m where m: "recs s r = Some m" "pl r = Att ob" "owner m = Some t" "held s t ob = 0"
      using ownsD [OF safe, of t ob r] pc U_Release by auto
    then show ?thesis
      using ownership_release [OF ow m(2,1,3), of s' "m\<lparr>owner := None\<rparr>" "Unlock ob k (U_Wake r)"] step pc U_Release
      by (auto simp: with_rec_def next_place_def)
  next
    case (U_Deflate r)
    obtain m where m: "recs s r = Some m" "pl r = Att ob" "owner m = Some t" "held s t ob = 0" "lock_count m = 1"
      using ownsD [OF safe, of t ob r] pc U_Deflate by auto
    have "ownership (pl(r := Hand t)) s'"
      by (rule ownership_move [OF cu ow, where t = t and m = m and p = "Unlock ob k (U_Flush r)"])
        (use m step pc U_Deflate in \<open>auto simp: fun_upd_idem\<close>)
    then show ?thesis using pc U_Deflate by (simp add: next_place_def)
  next
    case (U_Put r)
    obtain m where m: "pl r = Hand t" "recs s r = Some m" "owner m = Some t" "lock_count m = 1"
      using hand_record [OF safe, of t r] pc U_Put by auto
    have "ownership (pl(r := InPool t)) s'"
      by (rule ownership_move [OF cu ow, where t = t and m = m and p = "case k of Ret \<Rightarrow> Idle | WaitRet r n \<Rightarrow> Wait ob (W_Cond r n)"])
        (use m step pc U_Put in \<open>auto simp: put_monitor_record_def fun_upd_idem\<close>)
    then show ?thesis using pc U_Put by (simp add: next_place_def)
  qed (use step pc ref in \<open>auto simp: with_rec_def next_place_def intro!: ownership_cong [OF ow]
      split: option.splits if_splits nat.splits cont.splits\<close>)+
qed

lemma ownership_wait:
  assumes safe: "safe pl s" and step: "vm_object_do_wait t c ob w s = Some s'" and pc: "pcs s t = Wait ob w"
  shows "ownership (next_place t c s pl) s'"
proof -
  note cu = safe_parts(1) [OF safe] and ow = safe_parts(2) [OF safe]
  have ok: "wait_ok w" using safe_ok [OF safe, of t] pc by simp
  have ref: "\<exists>m. recs s r = Some m" if "r \<in> wait_refs w" for r using safe_ref [OF safe, of r t] pc that by simp
  show ?thesis
  proof (cases w)
    case (W_Save r)
    obtain m where m: "recs s r = Some m" "pl r = Att ob" "owner m = Some t"
      using checkedD [OF safe, of t ob r] pc W_Save by auto
    have "ownership pl s'"
      by (rule ownership_owner [OF cu ow m(2,1,3), where n = 0 and p = "Wait ob (W_Inc r (lock_count m))"
            and m' = "m\<lparr>lock_count := 1\<rparr>"]) (use step pc W_Save m in \<open>auto simp: with_rec_def\<close>)
    then show ?thesis using pc by (simp add: next_place_def)
  next
    case (W_Assert r n)
    then have "mon s ob = Some r" using ownsD [OF safe, of t ob r] pc by auto
    then show ?thesis using step pc W_Assert by (intro ownership_cong [OF ow]) (auto simp: next_place_def)
  next
    case (W_Restore r n)
    obtain m where m: "recs s r = Some m" "pl r = Att ob" "owner m = Some t"
      using ownsD [OF safe, of t ob r] pc W_Restore by auto
    have "ownership pl s'"
      by (rule ownership_owner [OF cu ow m(2,1,3), where n = n and p = Idle and m' = "m\<lparr>lock_count := n\<rparr>"])
        (use step pc W_Restore m ok in \<open>auto simp: with_rec_def\<close>)
    then show ?thesis using pc by (simp add: next_place_def)
  qed (use step pc ref in \<open>auto simp: with_rec_def next_place_def intro!: ownership_cong [OF ow]
      split: option.splits if_splits\<close>)+
qed

lemma ownership_step:
  assumes safe: "safe pl s" and step: "mstep t c s = Some s'"
  shows "ownership (next_place t c s pl) s'"
proof (cases "pcs s t")
  case Idle
  then show ?thesis
    using step by (intro ownership_cong [OF safe_parts(2) [OF safe]])
      (auto simp: mstep_def next_place_def split: choice.splits)
qed (use step ownership_lock [OF safe] ownership_unlock [OF safe] ownership_wait [OF safe] in \<open>auto simp: mstep_def\<close>)

section \<open>What a step leaves alone\<close>

lemma step_pcs: "mstep t c s = Some s' \<Longrightarrow> t' \<noteq> t \<Longrightarrow> pcs s' t' = pcs s t'"
proof (cases "pcs s t")
  case (Lock ob k l)
  then show "mstep t c s = Some s' \<Longrightarrow> t' \<noteq> t \<Longrightarrow> pcs s' t' = pcs s t'"
    by (cases l) (auto simp: mon_steps split: list.splits choice.splits option.splits if_splits)
next
  case (Unlock ob k u)
  then show "mstep t c s = Some s' \<Longrightarrow> t' \<noteq> t \<Longrightarrow> pcs s' t' = pcs s t'"
    by (cases u) (auto simp: mon_steps split: option.splits if_splits nat.splits)
next
  case (Wait ob w)
  then show "mstep t c s = Some s' \<Longrightarrow> t' \<noteq> t \<Longrightarrow> pcs s' t' = pcs s t'"
    by (cases w) (auto simp: mon_steps split: option.splits if_splits)
qed (auto simp: mstep_def split: choice.splits)

lemma step_held: "mstep t c s = Some s' \<Longrightarrow> t' \<noteq> t \<Longrightarrow> held s' t' = held s t'"
proof (cases "pcs s t")
  case (Lock ob k l)
  then show "mstep t c s = Some s' \<Longrightarrow> t' \<noteq> t \<Longrightarrow> held s' t' = held s t'"
    by (cases l) (auto simp: mon_steps split: list.splits choice.splits option.splits if_splits)
next
  case (Unlock ob k u)
  then show "mstep t c s = Some s' \<Longrightarrow> t' \<noteq> t \<Longrightarrow> held s' t' = held s t'"
    by (cases u) (auto simp: mon_steps split: option.splits if_splits nat.splits)
next
  case (Wait ob w)
  then show "mstep t c s = Some s' \<Longrightarrow> t' \<noteq> t \<Longrightarrow> held s' t' = held s t'"
    by (cases w) (auto simp: mon_steps split: option.splits if_splits)
qed (auto simp: mstep_def split: choice.splits)

text \<open>What a step of \<open>t\<close> may do to a record: of another owner it changes neither the owner nor the lock count, and it
  makes no other thread the owner.\<close>

definition rec_step :: "tid \<Rightarrow> vm_monitor_record \<Rightarrow> vm_monitor_record \<Rightarrow> bool" where
  "rec_step t m m' \<longleftrightarrow>
     (\<forall>t'. t' \<noteq> t \<longrightarrow> owner m = Some t' \<longrightarrow>
        owner m' = Some t' \<and> lock_count m' = lock_count m \<and> nr_waiting m' \<le> nr_waiting m) \<and>
     (\<forall>t'. t' \<noteq> t \<longrightarrow> owner m' = Some t' \<longrightarrow> owner m = Some t')"

lemma rec_step_refl: "rec_step t m m"
  by (simp add: rec_step_def)

lemma rec_step_own: "owner m = Some t \<Longrightarrow> owner m' = Some t \<or> owner m' = None \<Longrightarrow> rec_step t m m'"
  by (auto simp: rec_step_def)

lemma rec_step_keep:
  "owner m' = owner m \<Longrightarrow> lock_count m' = lock_count m \<Longrightarrow> nr_waiting m' \<le> nr_waiting m \<Longrightarrow> rec_step t m m'"
  by (simp add: rec_step_def)

lemma rec_step_acquire: "owner m = None \<Longrightarrow> rec_step t m (m\<lparr>owner := Some t\<rparr>)"
  by (simp add: rec_step_def)

lemma rec_stepD:
  assumes "rec_step t m m'" "t' \<noteq> t"
  shows "owner m = Some t' \<Longrightarrow> owner m' = Some t' \<and> lock_count m' = lock_count m \<and> nr_waiting m' \<le> nr_waiting m"
    and "owner m' = Some t' \<Longrightarrow> owner m = Some t'"
  using assms unfolding rec_step_def by blast+

lemmas rec_steps = rec_step_refl rec_step_own rec_step_keep rec_step_acquire

lemma step_rec:
  assumes safe: "safe pl s" and step: "mstep t c s = Some s'" and m: "recs s r = Some m"
  shows "\<exists>m'. recs s' r = Some m' \<and> rec_step t m m'"
proof (cases "pcs s t")
  case (Lock ob k l)
  have own: "owner m = Some t" if "owns (pcs s t) = Some (ob, r) \<or> checked (pcs s t) = Some (ob, r)"
    using that ownsD [OF safe, of t ob r] checkedD [OF safe, of t ob r] m by (metis option.inject)
  show ?thesis using Lock step m own
    by (cases l) (auto simp: mon_steps rec_steps split: list.splits choice.splits option.splits if_splits)
next
  case (Unlock ob k u)
  have own: "owner m = Some t" if "owns (pcs s t) = Some (ob, r) \<or> checked (pcs s t) = Some (ob, r)"
    using that ownsD [OF safe, of t ob r] checkedD [OF safe, of t ob r] m by (metis option.inject)
  show ?thesis using Unlock step m own
    by (cases u; cases k) (auto simp: mon_steps rec_steps split: option.splits if_splits nat.splits)
next
  case (Wait ob w)
  have own: "owner m = Some t" if "owns (pcs s t) = Some (ob, r) \<or> checked (pcs s t) = Some (ob, r)"
    using that ownsD [OF safe, of t ob r] checkedD [OF safe, of t ob r] m by (metis option.inject)
  show ?thesis using Wait step m own
    by (cases w) (auto simp: mon_steps rec_steps split: option.splits if_splits)
qed (use step m in \<open>auto simp: mstep_def rec_steps split: choice.splits\<close>)

text \<open>Only the owner moves a record.\<close>

lemma step_place:
  assumes safe: "safe pl s" and step: "mstep t c s = Some s'" and moved: "next_place t c s pl r \<noteq> pl r"
  shows "recs s r = None \<or> (\<exists>m. recs s r = Some m \<and> owner m = Some t)"
proof (cases "pcs s t")
  case (Lock ob k l)
  have hand: "\<exists>m. recs s r = Some m \<and> owner m = Some t" if "hand (pcs s t) = Some r"
    using hand_record [OF safe that] by blast
  have pool: "\<exists>m. recs s r = Some m \<and> owner m = Some t" if "r \<in> set (pools s t)"
  proof -
    have p: "pl r = InPool t" using custodyD(2) [OF safe_parts(1) [OF safe]] that by blast
    then obtain m where "recs s r = Some m" using custodyD(5) [OF safe_parts(1) [OF safe], of r] by (cases "recs s r") auto
    then show ?thesis using ownershipD(1) [OF safe_parts(2) [OF safe]] p by blast
  qed
  show ?thesis using Lock moved hand pool
    by (cases l) (auto simp: next_place_def get_monitor_record_def split: list.splits choice.splits option.splits if_splits)
next
  case (Unlock ob k u)
  have "\<exists>m. recs s r = Some m \<and> owner m = Some t" if "hand (pcs s t) = Some r"
    using hand_record [OF safe that] by blast
  moreover have "\<exists>m. recs s r = Some m \<and> owner m = Some t" if "owns (pcs s t) = Some (ob, r)"
    using ownsD [OF safe that] by blast
  ultimately show ?thesis using Unlock moved by (cases u) (auto simp: next_place_def split: if_splits)
qed (use moved in \<open>auto simp: next_place_def\<close>)

lemma step_att:
  assumes safe: "safe pl s" and step: "mstep t c s = Some s'" and att: "pl r = Att ob" "next_place t c s pl r \<noteq> Att ob"
  shows "(\<exists>k. pcs s t = Unlock ob k (U_Deflate r)) \<and> next_place t c s pl r = Hand t \<and> flushing (pcs s' t)"
proof -
  note cu = custodyD [OF safe_parts(1) [OF safe]]
  show ?thesis
  proof (cases "pcs s t")
    case (Lock ob' k l)
    have "hand (pcs s t) \<noteq> Some r" "r \<notin> set (pools s t)" "recs s r \<noteq> None"
      using cu(4) [of t r] cu(2) [of r t] cu(5) [of r] att(1) by auto
    then show ?thesis using Lock att
      by (cases l) (auto simp: next_place_def get_monitor_record_def split: list.splits choice.splits option.splits if_splits)
  next
    case (Unlock ob' k u)
    have "hand (pcs s t) \<noteq> Some r" using cu(4) [of t r] att(1) by auto
    moreover have "ob' = ob" if "u = U_Deflate r" using ownsD [OF safe, of t ob' r] Unlock that att(1) by auto
    ultimately show ?thesis using Unlock step att
      by (cases u) (auto simp: next_place_def mstep_def split: if_splits)
  qed (use att in \<open>auto simp: next_place_def\<close>)
qed

lemma step_flush:
  assumes safe: "safe pl s" and step: "mstep t c s = Some s'"
    and fl: "pl r = Hand t2" "flushing (pcs s t2)" and bl: "blocked (pcs s t') = Some r"
  shows "next_place t c s pl r = Hand t2 \<and> flushing (pcs s' t2)"
proof (cases "t2 = t")
  case False
  have "hand (pcs s t2) = Some r" using custodyD(4) [OF safe_parts(1) [OF safe]] fl(1) by blast
  then have "\<exists>m. recs s r = Some m \<and> owner m = Some t2" using hand_record [OF safe] by blast
  then have "next_place t c s pl r = pl r" using step_place [OF safe step, of r] False
    by (cases "next_place t c s pl r = pl r") auto
  then show ?thesis using fl step_pcs [OF step False] by simp
next
  case True
  have h: "hand (pcs s t) = Some r" using custodyD(4) [OF safe_parts(1) [OF safe]] fl(1) True by blast
  obtain m where m: "recs s r = Some m" using hand_record [OF safe h] by blast
  have cnt: "counting s" by (rule safe_parts(3) [OF safe])
  have "finite {x. blocked (pcs s x) = Some r}"
    by (rule finite_subset [of _ "{x. pcs s x \<noteq> Idle}"]) (use cnt in \<open>auto simp: counting_def\<close>)
  then have "0 < nr_blocked m"
    using cnt m bl by (auto simp: counting_def card_gt_0_iff)
  then show ?thesis
    using True fl h step m
    by (cases "pcs s t") (auto simp: mstep_def with_rec_def next_place_def split: unlock_pc.splits nat.splits)
qed

section \<open>The other threads\<close>

lemma thread_invI:
  assumes "pc_ok (pcs s t)" "\<And>r. r \<in> refs (pcs s t) \<Longrightarrow> recs s r \<noteq> None"
    "\<And>ob r m. owns (pcs s t) = Some (ob, r) \<Longrightarrow> recs s r = Some m \<Longrightarrow>
        pl r = Att ob \<and> owner m = Some t \<and> held s t ob = 0 \<and> (\<not> in_lock (pcs s t) \<longrightarrow> lock_count m = 1)"
    "\<And>ob r m. checked (pcs s t) = Some (ob, r) \<Longrightarrow> recs s r = Some m \<Longrightarrow> pl r = Att ob \<and> owner m = Some t \<and> 0 < held s t ob"
    "\<And>ob r m. found (pcs s t) = Some (ob, r) \<Longrightarrow> recs s r = Some m \<Longrightarrow> owner m = Some t \<Longrightarrow> pl r = Att ob"
    "\<And>ob r. trying (pcs s t) = Some (ob, r) \<Longrightarrow> pl r = Att ob \<or> (\<exists>t'. pl r = Hand t' \<and> flushing (pcs s t'))"
    "\<And>ob r. waits (pcs s t) = Some (ob, r) \<Longrightarrow> pl r = Att ob \<and> held s t ob = 0"
    "\<And>ob k r m. pcs s t = Unlock ob k (U_Deflate r) \<Longrightarrow> recs s r = Some m \<Longrightarrow> nr_waiting m = 0"
  shows "thread_inv pl s t"
  using assms unfolding thread_inv_def by blast

lemma trying_blocked: "trying p = Some (ob, r) \<Longrightarrow> blocked p = Some r"
proof (cases p)
  case (Lock ob k l)
  then show "trying p = Some (ob', r) \<Longrightarrow> blocked p = Some r" for ob' by (cases l) auto
qed auto

lemma found_refs: "found p = Some (ob, r) \<Longrightarrow> r \<in> refs p"
proof (cases p)
  case (Lock ob k l)
  then show "found p = Some (ob', r) \<Longrightarrow> r \<in> refs p" for ob' by (cases l) auto
next
  case (Unlock ob k u)
  then show "found p = Some (ob', r) \<Longrightarrow> r \<in> refs p" for ob' by (cases u) auto
next
  case (Wait ob w)
  then show "found p = Some (ob', r) \<Longrightarrow> r \<in> refs p" for ob' by (cases w) auto
qed auto

text \<open>A waiting thread keeps the record from being deflated.\<close>

lemma waits_count:
  assumes safe: "safe pl s" and w: "waits (pcs s t') = Some (ob, r)" and m: "recs s r = Some m"
  shows "0 < nr_waiting m"
proof -
  have cnt: "counting s" by (rule safe_parts(3) [OF safe])
  have "finite {x. \<exists>ob. waits (pcs s x) = Some (ob, r)}"
    by (rule finite_subset [of _ "{x. pcs s x \<noteq> Idle}"]) (use cnt in \<open>auto simp: counting_def\<close>)
  then show ?thesis using cnt m w by (auto simp: counting_def card_gt_0_iff)
qed

lemma other_inv:
  assumes safe: "safe pl s" and step: "mstep t c s = Some s'" and ne: "t' \<noteq> t"
  shows "thread_inv (next_place t c s pl) s' t'"
proof -
  let ?pl = "next_place t c s pl"
  note inv = thread_invD [OF safe_parts(4) [OF safe, of t']]
  note same = step_pcs [OF step ne] step_held [OF step ne]
  have stay: "?pl r = pl r" if "recs s r = Some m" "owner m = Some t'" for r m
    using step_place [OF safe step, of r] that ne by (cases "?pl r = pl r") auto
  have rec: "\<exists>m. recs s r = Some m \<and> rec_step t m m'" if h: "r \<in> refs (pcs s t')" "recs s' r = Some m'" for r m'
  proof -
    obtain m where "recs s r = Some m" using inv(2) h(1) by blast
    then show ?thesis using step_rec [OF safe step, of r m] h(2) by auto
  qed
  show ?thesis
  proof (rule thread_invI; unfold same)
    show "pc_ok (pcs s t')" by (rule inv(1))
    show "recs s' r \<noteq> None" if "r \<in> refs (pcs s t')" for r
      using inv(2) [OF that] step_rec [OF safe step] by fastforce
    show "?pl r = Att ob \<and> owner m' = Some t' \<and> held s t' ob = 0 \<and> (\<not> in_lock (pcs s t') \<longrightarrow> lock_count m' = 1)"
      if h: "owns (pcs s t') = Some (ob, r)" "recs s' r = Some m'" for ob r m'
    proof -
      obtain m where m: "recs s r = Some m" "rec_step t m m'" using rec [OF owns_refs [OF h(1)] h(2)] by blast
      show ?thesis using inv(3) [OF h(1) m(1)] stay [OF m(1)] rec_stepD(1) [OF m(2) ne] by simp
    qed
    show "?pl r = Att ob \<and> owner m' = Some t' \<and> 0 < held s t' ob"
      if h: "checked (pcs s t') = Some (ob, r)" "recs s' r = Some m'" for ob r m'
    proof -
      obtain m where m: "recs s r = Some m" "rec_step t m m'" using rec [OF checked_refs [OF h(1)] h(2)] by blast
      show ?thesis using inv(4) [OF h(1) m(1)] stay [OF m(1)] rec_stepD(1) [OF m(2) ne] by simp
    qed
    show "?pl r = Att ob" if h: "found (pcs s t') = Some (ob, r)" "recs s' r = Some m'" "owner m' = Some t'" for ob r m'
    proof -
      obtain m where m: "recs s r = Some m" "rec_step t m m'" using rec [OF found_refs [OF h(1)] h(2)] by blast
      have "owner m = Some t'" using rec_stepD(2) [OF m(2) ne h(3)] .
      then show ?thesis using inv(5) [OF h(1) m(1)] stay [OF m(1)] by simp
    qed
    show "?pl r = Att ob \<or> (\<exists>t'. ?pl r = Hand t' \<and> flushing (pcs s' t'))" if "trying (pcs s t') = Some (ob, r)" for ob r
      using inv(6) [OF that] step_att [OF safe step, of r ob] step_flush [OF safe step _ _ trying_blocked [OF that]] by blast
    show "?pl r = Att ob \<and> held s t' ob = 0" if h: "waits (pcs s t') = Some (ob, r)" for ob r
    proof -
      have w: "pl r = Att ob" "held s t' ob = 0" using inv(7) [OF h] by simp_all
      obtain m where m: "recs s r = Some m" using inv(2) [OF waits_refs [OF h]] by blast
      have "?pl r = Att ob"
        using step_att [OF safe step w(1)] waits_count [OF safe h m] thread_invD(8) [OF safe_parts(4) [OF safe, of t] _ m]
        by (cases "?pl r = Att ob") auto
      then show ?thesis using w(2) by simp
    qed
    show "nr_waiting m' = 0" if h: "pcs s t' = Unlock ob k (U_Deflate r)" "recs s' r = Some m'" for ob k r m'
    proof -
      have ow: "owns (pcs s t') = Some (ob, r)" using h(1) by simp
      obtain m where m: "recs s r = Some m" "rec_step t m m'" using rec [OF owns_refs [OF ow] h(2)] by blast
      show ?thesis using inv(3) [OF ow m(1)] inv(8) [OF h(1) m(1)] rec_stepD(1) [OF m(2) ne] by simp
    qed
  qed
qed

section \<open>The thread itself\<close>

lemma mon_record:
  assumes "safe pl s" "mon s ob = Some r"
  shows "pl r = Att ob \<and> (\<exists>m. recs s r = Some m)"
proof -
  note cu = custodyD [OF safe_parts(1) [OF assms(1)]]
  have "pl r = Att ob" using cu(1) assms(2) by blast
  then show ?thesis using cu(5) [of r] by (cases "recs s r") auto
qed

text \<open>The owner of the record that is attached to an object holds it, or owns it inside of a call.\<close>

lemma found_held:
  assumes "safe pl s" "found (pcs s t) = Some (ob, r)" "recs s r = Some m" "owner m = Some t" "owns (pcs s t) = None"
  shows "pl r = Att ob \<and> 0 < held s t ob"
proof -
  have "pl r = Att ob" using thread_invD(5) [OF safe_parts(4) [OF assms(1)] assms(2-4)] .
  then show ?thesis using ownershipD(2) [OF safe_parts(2) [OF assms(1)] _ assms(3,4)] assms(5) by fastforce
qed

text \<open>A thread that takes a free record does not hold its object.\<close>

lemma free_not_held:
  assumes "safe pl s" "pl r = Att ob" "recs s r = Some m" "owner m = None"
  shows "held s t ob = 0"
proof (rule ccontr)
  assume "held s t ob \<noteq> 0"
  then have "0 < held s t ob" by simp
  then obtain r' m' where "recs s r' = Some m'" "pl r' = Att ob" "owner m' = Some t" by (rule heldD [OF assms(1)])
  then show False using att_unique [OF safe_parts(1) [OF assms(1)] assms(2), of r'] assms(3,4) by auto
qed

lemma lock_inv:
  assumes safe: "safe pl s" and step: "vm_object_lock t c ob k l s = Some s'" and pc: "pcs s t = Lock ob k l"
  shows "thread_inv (next_place t c s pl) s' t"
proof -
  note inv = thread_invD [OF safe_parts(4) [OF safe, of t], unfolded pc]
  have ok: "lock_ok k l" using inv(1) by simp
  have ref: "\<exists>m. recs s r = Some m" if "r \<in> lock_refs l" for r using inv(2) that by simp
  have kref: "pl r = Att ob \<and> held s t ob = 0 \<and> mon s ob = Some r \<and> (\<exists>m. recs s r = Some m)" if "k = WaitRet r n" for r n
    using inv(7) [of ob r] inv(2) [of r] that custodyD(1) [OF safe_parts(1) [OF safe]] by auto
  have idle: "thread_inv q s1 t" if "pcs s1 t = Idle" for q s1 using that by (intro thread_invI) auto
  show ?thesis
  proof (cases l)
    case L_Read
    show ?thesis
    proof (cases "mon s ob")
      case None
      then show ?thesis
        using step pc L_Read kref by (cases k) (auto simp: next_place_def intro!: thread_invI)
    next
      case (Some r)
      then show ?thesis
        using step pc L_Read kref ok mon_record [OF safe Some]
        by (cases k) (auto simp: next_place_def intro!: thread_invI)
    qed
  next
    case L_Get
    then have kr: "k = Ret" using ok by (cases k) auto
    consider (take) r rs where "pools s t = r # rs" "s' = goto (set_pool s t rs) t (Lock ob k (L_Install r))"
      | (new) r where "recs s r = None" "s' = goto (set_rec s r (new_record t)) t (Lock ob k (L_Install r))"
      | (fail) "s' = java_return (signal_new_exception s t OutOfMemoryError) t (-1)"
      using step pc L_Get kr
      by (auto simp: get_monitor_record_def split: list.splits choice.splits option.splits if_splits)
    then show ?thesis
    proof cases
      case take
      have "pl r = InPool t" using custodyD(2) [OF safe_parts(1) [OF safe], of r t] take(1) by simp
      then have "recs s r \<noteq> None" using custodyD(5) [OF safe_parts(1) [OF safe], of r] by auto
      then show ?thesis using take(2) kr by (intro thread_invI) auto
    qed (use kr idle in \<open>auto intro!: thread_invI\<close>)
  next
    case (L_Install r)
    then have kr: "k = Ret" using ok by (cases k) auto
    then show ?thesis
      using step pc L_Install ref idle by (cases "mon s ob = None") (auto intro!: thread_invI)
  next
    case (L_Put r)
    then have "k = Ret" using ok by (cases k) auto
    then show ?thesis using step pc L_Put by (auto intro!: thread_invI)
  next
    case (L_Owner r)
    obtain m where m: "recs s r = Some m" using ref L_Owner by auto
    have "pl r = Att ob \<and> 0 < held s t ob" if "owner m = Some t"
      using found_held [OF safe _ m that] pc L_Owner by simp
    then show ?thesis
      using step pc L_Owner m kref ok by (cases k; cases "owner m = Some t") (auto simp: with_rec_def next_place_def intro!: thread_invI)
  next
    case (L_Count r)
    then have "k = Ret" using ok by (cases k) auto
    then show ?thesis using step pc L_Count ref idle by (auto simp: with_rec_def)
  next
    case (L_Check r)
    then show ?thesis
      using step pc ref kref ok mon_record [OF safe, of ob r]
      by (cases k; cases "mon s ob = Some r") (auto simp: next_place_def intro!: thread_invI)
  next
    case (L_Cand r)
    then obtain m where m: "recs s r = Some m" using ref by auto
    have "pl r = Att ob \<or> (\<exists>t'. pl r = Hand t' \<and> flushing (pcs s' t'))"
      using inv(6) [of ob r] L_Cand step_flush [OF safe, of t c s' r _ t] pc step by (auto simp: mstep_def next_place_def)
    then show ?thesis
      using step pc L_Cand m kref ok by (cases k) (auto simp: with_rec_def next_place_def intro!: thread_invI)
  next
    case (L_Cas r)
    then obtain m where m: "recs s r = Some m" using ref by auto
    have tr: "pl r = Att ob \<or> (\<exists>t'. pl r = Hand t' \<and> flushing (pcs s' t'))"
      using inv(6) [of ob r] L_Cas step_flush [OF safe, of t c s' r _ t] pc step by (auto simp: mstep_def next_place_def)
    have "pl r = Att ob \<and> held s t ob = 0" if "owner m = None"
      using trying_free_att [OF safe _ m that, of t ob] free_not_held [OF safe _ m that] pc L_Cas by simp
    then show ?thesis
      using step pc L_Cas m kref ok tr by (cases k; cases "owner m = None") (auto simp: with_rec_def next_place_def intro!: thread_invI)
  next
    case (L_DecOwn r)
    obtain m where m: "recs s r = Some m" "pl r = Att ob" "owner m = Some t" "held s t ob = 0"
      using ownsD [OF safe, of t ob r] pc L_DecOwn by auto
    then show ?thesis
      using step pc L_DecOwn kref ok by (cases k) (auto simp: with_rec_def next_place_def intro!: thread_invI)
  next
    case (L_SetCount r)
    obtain m where m: "recs s r = Some m" "pl r = Att ob" "owner m = Some t" "held s t ob = 0"
      using ownsD [OF safe, of t ob r] pc L_SetCount by auto
    then show ?thesis
      using step pc L_SetCount kref ok idle by (cases k) (auto simp: with_rec_def next_place_def intro!: thread_invI)
  qed (use step pc ref kref ok in \<open>cases k; auto simp: with_rec_def next_place_def intro!: thread_invI
      split: option.splits if_splits\<close>)+
qed

lemma unlock_inv:
  assumes safe: "safe pl s" and step: "vm_object_unlock t ob k u s = Some s'" and pc: "pcs s t = Unlock ob k u"
  shows "thread_inv (next_place t c s pl) s' t"
proof -
  note inv = thread_invD [OF safe_parts(4) [OF safe, of t], unfolded pc]
  have ok: "unlock_ok k u" using inv(1) by simp
  have ref: "\<exists>m. recs s r = Some m" if "r \<in> unlock_refs u" for r using inv(2) that by simp
  have kref: "pl r = Att ob \<and> held s t ob = 0 \<and> mon s ob = Some r \<and> (\<exists>m. recs s r = Some m)" if "k = WaitRet r n" for r n
    using inv(7) [of ob r] inv(2) [of r] that custodyD(1) [OF safe_parts(1) [OF safe]] by auto
  have idle: "thread_inv q s1 t" if "pcs s1 t = Idle" for q s1 using that by (intro thread_invI) auto
  have own: "\<exists>m. recs s r = Some m \<and> pl r = Att ob \<and> owner m = Some t \<and> held s t ob = 0 \<and> lock_count m = 1"
    if "unlock_owns k u = Some r" for r using ownsD [OF safe, of t ob r] pc that by auto
  show ?thesis
  proof (cases u)
    case U_Rec
    show ?thesis
    proof (cases "mon s ob")
      case None
      then show ?thesis using step pc U_Rec kref idle by (cases k) auto
    next
      case (Some r)
      then show ?thesis
        using step pc U_Rec kref ok own mon_record [OF safe Some]
        by (cases k) (auto simp: next_place_def intro!: thread_invI)
    qed
  next
    case (U_Own r)
    obtain m where m: "recs s r = Some m" using ref U_Own by auto
    show ?thesis
    proof (cases k)
      case Ret
      have "pl r = Att ob \<and> 0 < held s t ob" if "owner m = Some t"
        using found_held [OF safe _ m that] pc U_Own Ret by simp
      then show ?thesis
        using step pc U_Own m Ret idle
        by (cases "owner m = Some t") (auto simp: with_rec_def next_place_def intro!: thread_invI)
    next
      case (WaitRet r' n)
      then show ?thesis
        using step pc U_Own m kref ok own [of r] by (auto simp: with_rec_def next_place_def intro!: thread_invI)
    qed
  next
    case (U_Cnt r)
    show ?thesis
    proof (cases k)
      case Ret
      then obtain m where "recs s r = Some m" "pl r = Att ob" "owner m = Some t" "0 < held s t ob" "lock_count m = held s t ob"
        using checkedD [OF safe, of t ob r] pc U_Cnt by auto
      then show ?thesis
        using step pc U_Cnt Ret idle
        by (cases "lock_count m > 1") (auto simp: with_rec_def next_place_def intro!: thread_invI)
    next
      case (WaitRet r' n)
      then show ?thesis
        using step pc U_Cnt kref ok own [of r] by (auto simp: with_rec_def next_place_def intro!: thread_invI)
    qed
  next
    case (U_Blocked r)
    then obtain m where "recs s r = Some m" "pl r = Att ob" "owner m = Some t" "held s t ob = 0" "lock_count m = 1"
      using own [of r] by auto
    then show ?thesis
      using step pc U_Blocked kref ok
      by (cases k; cases "nr_blocked m > 0") (auto simp: with_rec_def next_place_def intro!: thread_invI)
  next
    case (U_Waiting r)
    then obtain m where m: "recs s r = Some m" "pl r = Att ob" "owner m = Some t" "held s t ob = 0" "lock_count m = 1"
      using own [of r] by auto
    have "nr_waiting m > 0" if "k = WaitRet r n" for n
      using waits_count [OF safe _ m(1), of t ob] pc that by simp
    then show ?thesis
      using step pc U_Waiting kref ok m
      by (cases k; cases "nr_waiting m > 0") (auto simp: with_rec_def next_place_def intro!: thread_invI)
  next
    case (U_Wake r)
    then obtain m where "recs s r = Some m" using ref by auto
    then show ?thesis
      using step pc U_Wake kref ok idle
      by (cases k; cases "candidate m") (auto simp: with_rec_def next_place_def intro!: thread_invI)
  next
    case (U_Deflate r)
    then have "k = Ret" using ok by (cases k) auto
    then show ?thesis using step pc U_Deflate ref by (auto simp: next_place_def intro!: thread_invI)
  next
    case (U_Flush r)
    then have "k = Ret" using ok by (cases k) auto
    moreover obtain m where "recs s r = Some m" using ref U_Flush by auto
    ultimately show ?thesis
      using step pc U_Flush by (cases "nr_blocked m > 0") (auto simp: with_rec_def next_place_def intro!: thread_invI)
  next
    case (U_Posts r n)
    then have "k = Ret" using ok by (cases k) auto
    then show ?thesis
      using step pc U_Posts ref by (cases n) (auto simp: with_rec_def next_place_def intro!: thread_invI)
  next
    case (U_Spin r)
    then have kr: "k = Ret" using ok by (cases k) auto
    obtain m where "recs s r = Some m" using ref U_Spin by auto
    then show ?thesis
      using step pc U_Spin kr by (cases "nr_blocked m > 0") (auto simp: with_rec_def next_place_def intro!: thread_invI)
  qed (use step pc ref kref ok idle in \<open>cases k; auto simp: with_rec_def next_place_def intro!: thread_invI\<close>)+
qed

lemma wait_inv:
  assumes safe: "safe pl s" and step: "vm_object_do_wait t c ob w s = Some s'" and pc: "pcs s t = Wait ob w"
  shows "thread_inv (next_place t c s pl) s' t"
proof -
  note inv = thread_invD [OF safe_parts(4) [OF safe, of t], unfolded pc]
  have ok: "wait_ok w" using inv(1) by simp
  have ref: "\<exists>m. recs s r = Some m" if "r \<in> wait_refs w" for r using inv(2) that by simp
  have idle: "thread_inv q s1 t" if "pcs s1 t = Idle" for q s1 using that by (intro thread_invI) auto
  have own: "\<exists>m. recs s r = Some m \<and> pl r = Att ob \<and> mon s ob = Some r \<and> owner m = Some t \<and> held s t ob = 0 \<and> lock_count m = 1"
    if "wait_owns w = Some r" for r using ownsD [OF safe, of t ob r] pc that by auto
  have pl: "next_place t c s pl = pl" using pc by (simp add: next_place_def)
  show ?thesis
  proof (cases w)
    case W_Rec
    then show ?thesis
      using step pc idle mon_record [OF safe, of ob] by (cases "mon s ob") (auto simp: pl intro!: thread_invI)
  next
    case (W_Own r)
    obtain m where m: "recs s r = Some m" using ref W_Own by auto
    have "pl r = Att ob \<and> 0 < held s t ob" if "owner m = Some t"
      using found_held [OF safe _ m that] pc W_Own by simp
    then show ?thesis
      using step pc W_Own m idle by (cases "owner m = Some t") (auto simp: with_rec_def pl intro!: thread_invI)
  next
    case (W_Save r)
    obtain m where "recs s r = Some m" "pl r = Att ob" "owner m = Some t" "0 < held s t ob" "lock_count m = held s t ob"
      using checkedD [OF safe, of t ob r] pc W_Save by auto
    then show ?thesis using step pc W_Save by (auto simp: with_rec_def pl intro!: thread_invI)
  next
    case (W_Cond r n)
    then show ?thesis
      using step pc ref ok inv(7) [of ob r] by (auto simp: pl intro!: thread_invI)
  qed (use step pc own ok idle in \<open>auto simp: with_rec_def pl intro!: thread_invI\<close>)+
qed

lemma self_inv:
  assumes safe: "safe pl s" and step: "mstep t c s = Some s'"
  shows "thread_inv (next_place t c s pl) s' t"
proof (cases "pcs s t")
  case Idle
  then show ?thesis
    using step by (auto simp: mstep_def intro!: thread_invI split: choice.splits)
qed (use step lock_inv [OF safe] unlock_inv [OF safe] wait_inv [OF safe] in \<open>auto simp: mstep_def\<close>)

section \<open>Safety\<close>

lemma safe_init: "safe (\<lambda>_. NoWhere) init_state"
  by (simp add: safe_def custody_def ownership_def counting_def thread_inv_def init_state_def)

lemma safe_step:
  assumes safe: "safe pl s" and step: "mstep t c s = Some s'"
  shows "safe (next_place t c s pl) s'"
proof -
  have ref: "\<forall>r\<in>refs (pcs s t'). recs s r \<noteq> None" for t' using safe_ref [OF safe] by auto
  have "mon s ob = Some r" if "pcs s t = Unlock ob k (U_Deflate r)" for ob k r
    using ownsD [OF safe, of t ob r] that by auto
  then have "custody (next_place t c s pl) s'" using custody_step [OF safe_parts(1) [OF safe] step ref] by blast
  moreover have "counting s'" using counting_step [OF safe_parts(3) [OF safe] step ref safe_ok [OF safe]] .
  moreover have "thread_inv (next_place t c s pl) s' t'" for t'
    using self_inv [OF safe step] other_inv [OF safe step] by (cases "t' = t") auto
  ultimately show ?thesis using ownership_step [OF safe step] by (simp add: safe_def)
qed

lemma reachable_safe: "reachable s \<Longrightarrow> \<exists>pl. safe pl s"
  by (induction rule: reachable.induct) (use safe_init safe_step in blast)+

end
