(* ===== verification/Monitor_Spec.thy ===== *)
theory Monitor_Spec
  imports Monitor_Mutex
begin

text \<open>
  What the monitors promise to Java code. The specification is a table of reentrant locks: how many times each
  thread holds each object, and the count that a waiting thread gave up. The interleaved steps of
  \<open>vm/monitor.c\<close> refine it; mutual exclusion, the exactness of the owner check and the absence of aborts are
  stated on the reachable states.
\<close>

section \<open>Specification\<close>

text \<open>The lock that a waiting thread gave up and will take again.\<close>

primrec cont_saved :: "cont \<Rightarrow> nat option" where
  "cont_saved Ret = None"
| "cont_saved (WaitRet r n) = Some n"

primrec wait_saved :: "wait_pc \<Rightarrow> nat option" where
  "wait_saved W_Rec = None"
| "wait_saved (W_Own r) = None"
| "wait_saved (W_Save r) = None"
| "wait_saved (W_Inc r n) = Some n"
| "wait_saved (W_Cond r n) = Some n"
| "wait_saved (W_DecW r n) = Some n"
| "wait_saved (W_Assert r n) = Some n"
| "wait_saved (W_Restore r n) = Some n"

primrec saved :: "pc \<Rightarrow> (oid \<times> nat) option" where
  "saved Idle = None"
| "saved (Lock ob k l) = map_option (Pair ob) (cont_saved k)"
| "saved (Unlock ob k u) = map_option (Pair ob) (cont_saved k)"
| "saved (Wait ob w) = map_option (Pair ob) (wait_saved w)"
| "saved Abort = None"

record lock_table =
  locks :: "tid \<Rightarrow> oid \<Rightarrow> nat"
  given :: "tid \<Rightarrow> (oid \<times> nat) option"

definition set_locks :: "lock_table \<Rightarrow> tid \<Rightarrow> oid \<Rightarrow> nat \<Rightarrow> lock_table" where
  "set_locks a t ob n = a\<lparr>locks := (locks a)(t := (locks a t)(ob := n))\<rparr>"

definition set_given :: "lock_table \<Rightarrow> tid \<Rightarrow> (oid \<times> nat) option \<Rightarrow> lock_table" where
  "set_given a t g = a\<lparr>given := (given a)(t := g)\<rparr>"

definition free_for :: "lock_table \<Rightarrow> tid \<Rightarrow> oid \<Rightarrow> bool" where
  "free_for a t ob \<longleftrightarrow> (\<forall>t'. t' \<noteq> t \<longrightarrow> locks a t' ob = 0)"

text \<open>One step of a thread, as Java sees it.\<close>

inductive java_step :: "tid \<Rightarrow> lock_table \<Rightarrow> lock_table \<Rightarrow> bool" where
  internal: "java_step t a a"
| enter: "free_for a t ob \<Longrightarrow> given a t = None \<Longrightarrow> java_step t a (set_locks a t ob (locks a t ob + 1))"
| exit: "0 < locks a t ob \<Longrightarrow> given a t = None \<Longrightarrow> java_step t a (set_locks a t ob (locks a t ob - 1))"
| wait: "0 < locks a t ob \<Longrightarrow> given a t = None \<Longrightarrow>
    java_step t a (set_given (set_locks a t ob 0) t (Some (ob, locks a t ob)))"
| resume: "free_for a t ob \<Longrightarrow> given a t = Some (ob, n) \<Longrightarrow> locks a t ob = 0 \<Longrightarrow> 0 < n \<Longrightarrow>
    java_step t a (set_given (set_locks a t ob n) t None)"

definition abs_table :: "mstate \<Rightarrow> lock_table" where
  "abs_table s = \<lparr>locks = held s, given = (\<lambda>t. saved (pcs s t))\<rparr>"

lemma abs_simps [simp]: "locks (abs_table s) = held s" "given (abs_table s) = (\<lambda>t. saved (pcs s t))"
  by (simp_all add: abs_table_def)

lemma abs_eqI:
  assumes "locks a = held s" "given a = (\<lambda>t. saved (pcs s t))"
  shows "abs_table s = a"
  using assms by (cases a) (simp add: abs_table_def)

section \<open>Exclusion\<close>

lemma owner_excludes:
  assumes "safe pl s" "mon s ob = Some r" "recs s r = Some m" "owner m = Some t"
  shows "free_for (abs_table s) t ob"
proof (unfold free_for_def, intro allI impI)
  fix t' assume "t' \<noteq> t"
  show "locks (abs_table s) t' ob = 0"
  proof (rule ccontr)
    assume "locks (abs_table s) t' ob \<noteq> 0"
    then have "0 < held s t' ob" by simp
    then obtain r' m' where "recs s r' = Some m'" "mon s ob = Some r'" "owner m' = Some t'" by (rule heldD [OF assms(1)])
    with assms(2-4) \<open>t' \<noteq> t\<close> show False by simp
  qed
qed

lemma detached_free:
  assumes "safe pl s" "mon s ob = None"
  shows "held s t ob = 0"
  using heldD [OF assms(1), of t ob] assms(2) by (metis option.distinct(1) neq0_conv)

lemma owns_excludes:
  assumes "safe pl s" "owns (pcs s t) = Some (ob, r)"
  shows "free_for (abs_table s) t ob \<and> held s t ob = 0"
proof -
  obtain m where "recs s r = Some m" "mon s ob = Some r" "owner m = Some t" "held s t ob = 0"
    using ownsD [OF assms] by metis
  then show ?thesis using owner_excludes [OF assms(1)] by simp
qed

lemma checked_excludes:
  assumes "safe pl s" "checked (pcs s t) = Some (ob, r)"
  shows "free_for (abs_table s) t ob \<and> 0 < held s t ob \<and> (\<exists>m. recs s r = Some m \<and> lock_count m = held s t ob)"
proof -
  obtain m where "recs s r = Some m" "mon s ob = Some r" "owner m = Some t" "0 < held s t ob" "lock_count m = held s t ob"
    using checkedD [OF assms] by metis
  then show ?thesis using owner_excludes [OF assms(1)] by simp
qed

section \<open>Refinement\<close>

lemma safe_records:
  assumes "safe pl s"
  obtains R where "\<And>t r. r \<in> refs (pcs s t) \<Longrightarrow> recs s r = Some (R r)"
proof
  fix t r assume "r \<in> refs (pcs s t)"
  then show "recs s r = Some ((\<lambda>r. the (recs s r)) r)" using safe_ref [OF assms] by fastforce
qed

lemma java_internal:
  assumes "held s' = held s" "pcs s' = (pcs s)(t := p)" "saved p = saved (pcs s t)"
  shows "java_step t (abs_table s) (abs_table s')"
proof -
  have "abs_table s' = abs_table s" by (rule abs_eqI) (use assms in \<open>auto simp: fun_eq_iff\<close>)
  then show ?thesis by (simp add: java_step.internal)
qed

lemma java_enter:
  assumes "free_for (abs_table s) t ob" "saved (pcs s t) = None"
    and "held s' = (held s)(t := (held s t)(ob := held s t ob + 1))" "pcs s' = (pcs s)(t := p)" "saved p = None"
  shows "java_step t (abs_table s) (abs_table s')"
proof -
  have "abs_table s' = set_locks (abs_table s) t ob (locks (abs_table s) t ob + 1)"
    by (rule abs_eqI) (use assms in \<open>auto simp: fun_eq_iff set_locks_def\<close>)
  then show ?thesis using java_step.enter [of "abs_table s" t ob] assms(1,2) by simp
qed

lemma java_lock:
  assumes safe: "safe pl s" and step: "vm_object_lock t c ob k l s = Some s'" and pc: "pcs s t = Lock ob k l"
  shows "java_step t (abs_table s) (abs_table s')"
proof -
  have ok: "lock_ok k l" using safe_ok [OF safe, of t] pc by simp
  obtain R where R: "\<And>t r. r \<in> refs (pcs s t) \<Longrightarrow> recs s r = Some (R r)" by (rule safe_records [OF safe]) blast
  have ref: "recs s r = Some (R r)" if "r \<in> lock_refs l" for r using R [of r t] pc that by simp
  have own: "free_for (abs_table s) t ob" if "lock_owns l = Some r" for r
    using owns_excludes [OF safe, of t ob r] pc that by simp
  have chk: "free_for (abs_table s) t ob" if "lock_checked l = Some r" for r
    using checked_excludes [OF safe, of t ob r] pc that by simp
  have det: "free_for (abs_table s) t ob" if "mon s ob = None"
    using detached_free [OF safe that] by (simp add: free_for_def)
  note [simp] = with_rec_def put_monitor_record_def
  show ?thesis
  proof (cases l)
    case L_Get
    then have "k = Ret" using ok by (cases k) auto
    then show ?thesis
      using step L_Get pc
      by (auto simp: get_monitor_record_def intro!: java_internal split: list.splits choice.splits option.splits if_splits)
  next
    case (L_Install r)
    then have k: "k = Ret" using ok by (cases k) auto
    show ?thesis
    proof (cases "mon s ob")
      case None
      then show ?thesis using step L_Install pc det k by (auto intro!: java_enter [of s t ob])
    next
      case (Some r')
      then show ?thesis using step L_Install pc by (auto intro!: java_internal)
    qed
  next
    case (L_Count r)
    then have "k = Ret" using ok by (cases k) auto
    moreover have "recs s r = Some (R r)" using ref L_Count by simp
    ultimately show ?thesis using step L_Count pc chk by (auto intro!: java_enter [of s t ob])
  next
    case (L_SetCount r)
    have "recs s r = Some (R r)" using ref L_SetCount by simp
    then show ?thesis
      using step L_SetCount pc own by (cases k) (fastforce intro!: java_enter [of s t ob], fastforce intro!: java_internal)
  qed (use step pc ref in \<open>auto intro!: java_internal split: if_splits\<close>)+
qed

lemma java_unlock:
  assumes safe: "safe pl s" and step: "vm_object_unlock t ob k u s = Some s'" and pc: "pcs s t = Unlock ob k u"
  shows "java_step t (abs_table s) (abs_table s')"
proof -
  obtain R where R: "\<And>t r. r \<in> refs (pcs s t) \<Longrightarrow> recs s r = Some (R r)" by (rule safe_records [OF safe]) blast
  have ref: "recs s r = Some (R r)" if "r \<in> unlock_refs u" for r using R [of r t] pc that by simp
  have ret: "java_step t (abs_table s) (abs_table (unlock_return t ob k n s1))" if "held s1 = held s" "pcs s1 = pcs s" for n s1
    by (rule java_internal [of _ _ t "case k of Ret \<Rightarrow> Idle | WaitRet r n \<Rightarrow> Wait ob (W_Cond r n)"])
      (use that pc in \<open>auto simp: unlock_return_def split: cont.splits\<close>)
  note [simp] = with_rec_def put_monitor_record_def
  show ?thesis
  proof (cases u)
    case (U_Cnt r)
    have m: "recs s r = Some (R r)" using ref U_Cnt by simp
    show ?thesis
    proof (cases k)
      case Ret
      then have "0 < held s t ob" using checked_excludes [OF safe, of t ob r] pc U_Cnt by simp
      moreover have "abs_table s' = set_locks (abs_table s) t ob (locks (abs_table s) t ob - 1)"
        by (rule abs_eqI) (use step U_Cnt m Ret pc in \<open>auto simp: fun_eq_iff set_locks_def split: if_splits\<close>)
      ultimately show ?thesis using java_step.exit [of "abs_table s" t ob] pc Ret by simp
    next
      case (WaitRet r' n)
      then show ?thesis using step U_Cnt m pc by (auto intro!: java_internal ret split: if_splits)
    qed
  next
    case U_Rec
    then show ?thesis using step pc by (auto intro!: java_internal ret split: option.splits)
  next
    case (U_Spin r)
    then show ?thesis using step pc ref java_step.internal by (auto intro!: java_internal split: if_splits)
  qed (use step pc ref in \<open>auto intro!: java_internal ret split: if_splits nat.splits\<close>)+
qed

lemma java_wait:
  assumes safe: "safe pl s" and step: "vm_object_do_wait t c ob w s = Some s'" and pc: "pcs s t = Wait ob w"
  shows "java_step t (abs_table s) (abs_table s')"
proof -
  obtain R where R: "\<And>t r. r \<in> refs (pcs s t) \<Longrightarrow> recs s r = Some (R r)" by (rule safe_records [OF safe]) blast
  have ref: "recs s r = Some (R r)" if "r \<in> wait_refs w" for r using R [of r t] pc that by simp
  have own: "free_for (abs_table s) t ob \<and> held s t ob = 0 \<and> mon s ob = Some r" if "wait_owns w = Some r" for r
    using owns_excludes [OF safe, of t ob r] ownsD [OF safe, of t ob r] pc that by auto
  note [simp] = with_rec_def
  show ?thesis
  proof (cases w)
    case (W_Save r)
    then obtain m where m: "recs s r = Some m" "0 < held s t ob" "lock_count m = held s t ob"
      using checked_excludes [OF safe, of t ob r] pc by auto
    have "abs_table s' = set_given (set_locks (abs_table s) t ob 0) t (Some (ob, locks (abs_table s) t ob))"
      by (rule abs_eqI) (use step W_Save m pc in \<open>auto simp: fun_eq_iff set_locks_def set_given_def\<close>)
    then show ?thesis using java_step.wait [of "abs_table s" t ob] m pc W_Save by simp
  next
    case (W_Restore r n)
    have m: "recs s r = Some (R r)" using ref W_Restore by simp
    have n: "0 < n" using safe_ok [OF safe, of t] pc W_Restore by simp
    have "abs_table s' = set_given (set_locks (abs_table s) t ob n) t None"
      by (rule abs_eqI) (use step W_Restore m pc in \<open>auto simp: fun_eq_iff set_locks_def set_given_def\<close>)
    then show ?thesis using java_step.resume [of "abs_table s" t ob n] own m n pc W_Restore by simp
  next
    case (W_Assert r n)
    then show ?thesis using step pc own by (auto intro!: java_internal)
  qed (use step pc ref in \<open>auto intro!: java_internal split: if_splits option.splits\<close>)+
qed

lemma java_refines:
  assumes "safe pl s" "mstep t c s = Some s'"
  shows "java_step t (abs_table s) (abs_table s')"
proof (cases "pcs s t")
  case Idle
  then show ?thesis using assms(2) by (auto simp: mstep_def intro!: java_internal split: choice.splits)
qed (use assms java_lock java_unlock java_wait in \<open>auto simp: mstep_def\<close>)

section \<open>The owner check\<close>

text \<open>A holder that has read the record of its object reads it again and again: nobody can detach it.\<close>

definition found_attached :: "mstate \<Rightarrow> bool" where
  "found_attached s \<longleftrightarrow> (\<forall>t ob r. found (pcs s t) = Some (ob, r) \<longrightarrow> 0 < held s t ob \<longrightarrow> mon s ob = Some r)"

lemma step_mon:
  assumes safe: "safe pl s" and step: "mstep t' c s = Some s'" and "t' \<noteq> t" "0 < held s t ob" "mon s ob = Some r"
  shows "mon s' ob = Some r"
proof -
  have no: "ob' \<noteq> ob" if "pcs s t' = Unlock ob' k (U_Deflate r')" for ob' k r'
    using owns_excludes [OF safe, of t' ob' r'] that assms(3,4) by (auto simp: free_for_def)
  show ?thesis
  proof (cases "pcs s t'")
    case (Unlock ob' k u)
    then show ?thesis
      using step assms(5) no
      by (cases u) (auto simp: mon_steps split: option.splits if_splits nat.splits)
  next
    case (Lock ob' k l)
    then show ?thesis
      using step assms(5)
      by (cases l; cases k) (auto simp: mon_steps split: option.splits if_splits list.splits choice.splits)
  next
    case (Wait ob' w)
    then show ?thesis using step assms(5) by (cases w) (auto simp: mon_steps split: option.splits if_splits)
  qed (use step assms(5) in \<open>auto simp: mon_steps split: choice.splits\<close>)
qed

lemma step_found:
  assumes "mstep t c s = Some s'" "found (pcs s' t) = Some (ob, r)"
  shows "mon s' ob = Some r"
proof (cases "pcs s t")
  case (Unlock ob' k u)
  then show ?thesis
    using assms by (cases u; cases k) (auto simp: mon_steps unlock_return_def split: option.splits if_splits nat.splits)
next
  case (Lock ob' k l)
  then show ?thesis
    using assms by (cases l; cases k) (auto simp: mon_steps split: option.splits if_splits list.splits choice.splits)
next
  case (Wait ob' w)
  then show ?thesis using assms by (cases w) (auto simp: mon_steps split: option.splits if_splits)
qed (use assms in \<open>auto simp: mon_steps split: choice.splits\<close>)

lemma found_attached_step:
  assumes "found_attached s" "safe pl s" "mstep t c s = Some s'"
  shows "found_attached s'"
  unfolding found_attached_def
proof (intro allI impI)
  fix t' ob r assume h: "found (pcs s' t') = Some (ob, r)" "0 < held s' t' ob"
  show "mon s' ob = Some r"
  proof (cases "t' = t")
    case True
    then show ?thesis using step_found [OF assms(3)] h by simp
  next
    case False
    then have "0 < held s t' ob" "found (pcs s t') = Some (ob, r)"
      using h step_pcs [OF assms(3)] step_held [OF assms(3)] by simp_all
    moreover from this have "mon s ob = Some r" using assms(1) unfolding found_attached_def by blast
    ultimately show ?thesis using step_mon [OF assms(2,3), of t' ob r] False by simp
  qed
qed

lemma reachable_found: "reachable s \<Longrightarrow> found_attached s"
proof (induction rule: reachable.induct)
  case start
  show ?case by (simp add: found_attached_def init_state_def)
next
  case (step s t c s')
  then show ?case using found_attached_step reachable_safe by blast
qed

lemma owner_check:
  assumes "reachable s" "found (pcs s t) = Some (ob, r)" "owns (pcs s t) = None"
  shows "\<exists>m. recs s r = Some m \<and> (owner m = Some t \<longleftrightarrow> 0 < held s t ob)"
proof -
  obtain pl where safe: "safe pl s" using reachable_safe [OF assms(1)] by blast
  obtain m where m: "recs s r = Some m" using safe_ref [OF safe found_refs [OF assms(2)]] by blast
  have "owner m = Some t" if h: "0 < held s t ob"
  proof -
    obtain r' m' where r': "recs s r' = Some m'" "mon s ob = Some r'" "owner m' = Some t" using heldD [OF safe h] by metis
    moreover have "mon s ob = Some r" using reachable_found [OF assms(1)] assms(2) h by (auto simp: found_attached_def)
    ultimately show ?thesis using m by simp
  qed
  moreover have "0 < held s t ob" if "owner m = Some t" using found_held [OF safe assms(2) m that assms(3)] by simp
  ultimately have "owner m = Some t \<longleftrightarrow> 0 < held s t ob" by (rule iffI [rotated])
  then show ?thesis using m by (intro exI [of _ m] conjI)
qed

section \<open>Runs\<close>

text \<open>A run of given steps.\<close>

fun mrun :: "(tid \<times> choice) list \<Rightarrow> mstate \<Rightarrow> mstate option" where
  "mrun [] s = Some s"
| "mrun ((t, c) # tcs) s = (case mstep t c s of None \<Rightarrow> None | Some s' \<Rightarrow> mrun tcs s')"

lemma mrun_reachable: "reachable s \<Longrightarrow> mrun tcs s = Some s' \<Longrightarrow> reachable s'"
  by (induction tcs s rule: mrun.induct) (auto split: option.splits intro: reachable.step)

lemmas run_simps = mstep_def init_state_def with_rec_def put_monitor_record_def get_monitor_record_def new_record_def
  unlock_return_def drop_held_def java_return_def signal_new_exception_def owner_check_failed_def wait_return_def

text \<open>Thread 0 locks object 5 twice and thread 1 blocks on it.\<close>

definition contended :: "(tid \<times> choice) list" where
  "contended =
     [(0, Call_lock 5), (0, Malloc None), (0, Malloc (Some 9)), (0, Malloc None),
      (0, Call_lock 5), (0, Malloc None), (0, Malloc None), (0, Malloc None)] @
     (1, Call_lock 5) # replicate 6 (1, Malloc None)"

lemma contended_run:
  "\<exists>s. mrun contended init_state = Some s \<and> held s 0 5 = 2 \<and> held s 1 5 = 0 \<and> pcs s 0 = Idle \<and>
     pcs s 1 = Lock 5 Ret (L_Wait 9) \<and> mon s 5 = Some 9"
  by (simp add: contended_def run_simps numeral_eq_Suc)

section \<open>The properties\<close>

text \<open>C1: The monitors refine the table of reentrant locks. In every state that any interleaving reaches, a step of a
  thread is invisible, or enters an object that no other thread holds, or gives up one lock that the thread has,
  or gives up all its locks of an object for a wait, or takes back, of an object that nobody holds, exactly as many
  locks as the wait gave up.\<close>

theorem monitor_refines_lock_table:
  assumes "reachable s" "mstep t c s = Some s'"
  shows "java_step t (abs_table s) (abs_table s')"
  using reachable_safe [OF assms(1)] java_refines assms(2) by blast

theorem monitor_refines_lock_table_witness:
  "\<exists>s s'. mrun (take 3 contended) init_state = Some s \<and> mstep 0 (Malloc None) s = Some s' \<and>
     java_step 0 (abs_table s) (abs_table s') \<and> locks (abs_table s) 0 5 = 0 \<and> locks (abs_table s') 0 5 = 1"
proof -
  obtain s where s: "mrun (take 3 contended) init_state = Some s" "pcs s 0 = Lock 5 Ret (L_Install 9)" "mon s 5 = None"
      "held s 0 5 = 0"
    by (simp add: contended_def run_simps numeral_eq_Suc)
  then obtain s' where "mstep 0 (Malloc None) s = Some s'" "held s' 0 5 = 1" by (simp add: mstep_def)
  then show ?thesis
    using s monitor_refines_lock_table [OF mrun_reachable [OF reachable.start s(1)], of 0 "Malloc None" s'] by auto
qed

text \<open>C3: Mutual exclusion. When a thread holds an object, no other thread holds it; a record is attached to the
  object, its owner is the thread, and its lock count is the number of times the thread holds the object.\<close>

theorem monitor_mutual_exclusion:
  assumes "reachable s" "0 < held s t ob"
  shows "(\<forall>t'. t' \<noteq> t \<longrightarrow> held s t' ob = 0) \<and>
    (\<exists>r m. mon s ob = Some r \<and> recs s r = Some m \<and> owner m = Some t \<and> lock_count m = held s t ob)"
proof -
  obtain pl where safe: "safe pl s" using reachable_safe [OF assms(1)] by blast
  obtain r m where "recs s r = Some m" "mon s ob = Some r" "owner m = Some t" "lock_count m = held s t ob"
    using heldD [OF safe assms(2)] by metis
  then show ?thesis using owner_excludes [OF safe] by (auto simp: free_for_def)
qed

theorem monitor_mutual_exclusion_witness:
  "\<exists>s. mrun contended init_state = Some s \<and> held s 0 5 = 2 \<and> pcs s 1 = Lock 5 Ret (L_Wait 9) \<and> held s 1 5 = 0 \<and>
     (\<exists>r m. mon s 5 = Some r \<and> recs s r = Some m \<and> owner m = Some 0 \<and> lock_count m = 2)"
proof -
  obtain s where s: "mrun contended init_state = Some s" "held s 0 5 = 2" "pcs s 1 = Lock 5 Ret (L_Wait 9)"
    using contended_run by blast
  then show ?thesis
    using monitor_mutual_exclusion [OF mrun_reachable [OF reachable.start s(1)], of 0 5] by auto
qed

text \<open>The outcome of the owner check: the call has ended with an error and the exception, or it goes on.\<close>

definition refused :: "tid \<Rightarrow> mstate \<Rightarrow> bool" where
  "refused t s \<longleftrightarrow> pcs s t = Idle \<and> rets s t = -1 \<and> exns s t = Some IllegalMonitorStateException"

definition goes_on :: "tid \<Rightarrow> pc \<Rightarrow> mstate \<Rightarrow> mstate \<Rightarrow> bool" where
  "goes_on t p s s' \<longleftrightarrow> pcs s' t = p \<and> exns s' = exns s \<and> rets s' = rets s"

fun unlock_checked :: "unlock_pc \<Rightarrow> bool" where
  "unlock_checked U_Rec = False"
| "unlock_checked (U_Own r) = False"
| "unlock_checked u = True"

lemma outcome_simps [simp]:
  "exns (goto s t p) = exns s" "rets (goto s t p) = rets s" "exns (set_rec s r m) = exns s" "rets (set_rec s r m) = rets s"
  "exns (set_pool s t rs) = exns s" "exns (drop_held t ob k s) = exns s" "rets (java_return s t n) = (rets s)(t := n)"
  "exns (java_return s t n) = exns s" "exns (owner_check_failed t s) = (exns s)(t \<mapsto> IllegalMonitorStateException)"
  by (simp_all add: goto_def set_rec_def set_pool_def drop_held_def set_held_def java_return_def owner_check_failed_def
      signal_new_exception_def)

lemma unlock_outcome:
  assumes "vm_object_unlock t ob Ret u s = Some s'" "unlock_checked u" "pcs s t \<noteq> Idle" "pcs s' t = Idle"
  shows "rets s' t = 0 \<and> exns s' = exns s"
  using assms
  by (cases u) (auto simp: with_rec_def unlock_return_def put_monitor_record_def split: option.splits if_splits nat.splits)

text \<open>C11: The owner check is exact. An unlock goes on to release, and a wait goes on to wait, if and only if the thread
  holds the object; otherwise the call ends with the result \<open>-1\<close> and an \<open>IllegalMonitorStateException\<close>, and no lock
  changes. An unlock that has passed the check returns zero and signals nothing. A lock counts as recursive if and only
  if the thread holds the object. In particular an object without a record is not held.\<close>

theorem monitor_owner_check_exact:
  assumes "reachable s"
  shows "(pcs s t = Unlock ob Ret U_Rec \<and> mon s ob = None \<longrightarrow>
      held s t ob = 0 \<and> (\<exists>s'. mstep t c s = Some s' \<and> held s' = held s \<and> refused t s')) \<and>
    (pcs s t = Unlock ob Ret (U_Own r) \<longrightarrow>
      (\<exists>s'. mstep t c s = Some s' \<and> held s' = held s \<and>
         (if 0 < held s t ob then goes_on t (Unlock ob Ret (U_Cnt r)) s s' else refused t s'))) \<and>
    (\<forall>u s'. pcs s t = Unlock ob Ret u \<and> unlock_checked u \<and> mstep t c s = Some s' \<and> pcs s' t = Idle \<longrightarrow>
      rets s' t = 0 \<and> exns s' = exns s) \<and>
    (pcs s t = Wait ob W_Rec \<and> mon s ob = None \<longrightarrow>
      held s t ob = 0 \<and> (\<exists>s'. mstep t c s = Some s' \<and> held s' = held s \<and> refused t s')) \<and>
    (pcs s t = Wait ob (W_Own r) \<longrightarrow>
      (\<exists>s'. mstep t c s = Some s' \<and> held s' = held s \<and>
         (if 0 < held s t ob then goes_on t (Wait ob (W_Save r)) s s' else refused t s'))) \<and>
    (pcs s t = Lock ob Ret (L_Owner r) \<longrightarrow>
      (\<exists>s'. mstep t c s = Some s' \<and> held s' = held s \<and>
         goes_on t (Lock ob Ret (if 0 < held s t ob then L_Count r else L_Inc r)) s s'))"
proof -
  obtain pl where safe: "safe pl s" using reachable_safe [OF assms] by blast
  have ck: "\<exists>m. recs s r = Some m \<and> (owner m = Some t \<longleftrightarrow> 0 < held s t ob)"
    if "found (pcs s t) = Some (ob, r)" "owns (pcs s t) = None"
    by (rule owner_check [OF assms that])
  have un: "rets s' t = 0 \<and> exns s' = exns s"
    if "pcs s t = Unlock ob Ret u" "unlock_checked u" "mstep t c s = Some s'" "pcs s' t = Idle" for u s'
    using unlock_outcome [of t ob u s s'] that by (simp add: mstep_def)
  note [simp] = mstep_def with_rec_def refused_def goes_on_def unlock_return_def
  show ?thesis
  proof (intro conjI)
    show "\<forall>u s'. pcs s t = Unlock ob Ret u \<and> unlock_checked u \<and> mstep t c s = Some s' \<and> pcs s' t = Idle \<longrightarrow>
      rets s' t = 0 \<and> exns s' = exns s" using un by blast
  qed (use ck detached_free [OF safe] in auto)
qed

theorem monitor_owner_check_exact_witness:
  "\<exists>s s'. mrun (contended @ [(2, Call_unlock 5), (2, Malloc None)]) init_state = Some s \<and>
     pcs s 2 = Unlock 5 Ret (U_Own 9) \<and> mstep 2 (Malloc None) s = Some s' \<and> held s 2 5 = 0 \<and> refused 2 s'"
proof -
  obtain s where s: "mrun (contended @ [(2, Call_unlock 5), (2, Malloc None)]) init_state = Some s"
      "pcs s 2 = Unlock 5 Ret (U_Own 9)" "held s 2 5 = 0"
    by (simp add: contended_def run_simps numeral_eq_Suc)
  then show ?thesis
    using monitor_owner_check_exact [OF mrun_reachable [OF reachable.start s(1)], of 2 5 "Malloc None" 9] by auto
qed

end
