(* ===== verification/Monitor_Wakeup.thy ===== *)
theory Monitor_Wakeup
  imports Monitor_Spec
begin

text \<open>
  No wakeup is lost: a thread that sleeps on the semaphore of a record is woken by the release of the monitor, and
  the flush after a deflation ends. A thread that sleeps or is about to sleep has announced itself in the
  \<open>candidate\<close> field, or somebody is on the way who will look at the monitor again: a post of the semaphore, or
  a thread inside of the loop of \<open>vm_object_lock\<close>.
\<close>

section \<open>Who is on the way\<close>

definition any :: "(pc \<Rightarrow> bool) \<Rightarrow> mstate \<Rightarrow> bool" where
  "any Q s \<longleftrightarrow> (\<exists>t. Q (pcs s t))"

definition others :: "tid \<Rightarrow> (pc \<Rightarrow> bool) \<Rightarrow> mstate \<Rightarrow> bool" where
  "others t Q s \<longleftrightarrow> (\<exists>t'. t' \<noteq> t \<and> Q (pcs s t'))"

lemma any_split: "any Q s \<longleftrightarrow> Q (pcs s t) \<or> others t Q s"
  by (auto simp: any_def others_def)

lemma others_step: "pcs s' = (pcs s)(t := p) \<Longrightarrow> others t Q s' \<longleftrightarrow> others t Q s"
  by (auto simp: others_def)

fun queued :: "rid \<Rightarrow> pc \<Rightarrow> bool" where
  "queued r (Lock ob k (L_Cas r')) = (r' = r)"
| "queued r (Lock ob k (L_Wait r')) = (r' = r)"
| "queued r _ = False"

fun asleep :: "rid \<Rightarrow> pc \<Rightarrow> bool" where
  "asleep r (Lock ob k (L_Wait r')) = (r' = r)"
| "asleep r _ = False"

fun posting :: "rid \<Rightarrow> pc \<Rightarrow> bool" where
  "posting r (Unlock ob k (U_Post r')) = (r' = r)"
| "posting r _ = False"

fun looking :: "rid \<Rightarrow> (oid \<Rightarrow> rid option) \<Rightarrow> pc \<Rightarrow> bool" where
  "looking r mn (Lock ob k (L_Check r')) = (r' = r \<and> mn ob = Some r)"
| "looking r mn (Lock ob k (L_Cand r')) = (r' = r)"
| "looking r mn _ = False"

fun taking :: "rid \<Rightarrow> pc \<Rightarrow> bool" where
  "taking r (Lock ob k (L_Cas r')) = (r' = r)"
| "taking r (Unlock ob k (U_Wake r')) = (r' = r)"
| "taking r _ = False"

fun flushes :: "rid \<Rightarrow> pc \<Rightarrow> bool" where
  "flushes r (Unlock ob k (U_Flush r')) = (r' = r)"
| "flushes r (Unlock ob k (U_Posts r' n)) = (r' = r)"
| "flushes r (Unlock ob k (U_Spin r')) = (r' = r)"
| "flushes r _ = False"

definition roused :: "mstate \<Rightarrow> rid \<Rightarrow> vm_monitor_record \<Rightarrow> bool" where
  "roused s r m \<longleftrightarrow> 0 < sem m \<or> any (posting r) s \<or> any (looking r (mon s)) s"

definition alert :: "rid \<Rightarrow> mstate \<Rightarrow> bool" where
  "alert r s \<longleftrightarrow> (\<forall>m. recs s r = Some m \<longrightarrow>
     (any (queued r) s \<longrightarrow> candidate m \<or> roused s r m \<or> any (flushes r) s) \<and>
     (any (asleep r) s \<longrightarrow> owner m = None \<longrightarrow> roused s r m \<or> any (taking r) s))"

section \<open>What the safety invariant says\<close>

lemma queued_trying: "queued r p \<Longrightarrow> \<exists>ob. trying p = Some (ob, r)"
  by (cases "(r, p)" rule: queued.cases) auto

lemma asleep_queued: "asleep r p \<Longrightarrow> queued r p"
  by (cases "(r, p)" rule: asleep.cases) auto

lemma flushes_iff: "flushes r p \<longleftrightarrow> hand p = Some r \<and> flushing p"
  by (cases "(r, p)" rule: flushes.cases) auto

lemma trying_place:
  assumes "safe pl s" "trying (pcs s t) = Some (ob, r)"
  shows "mon s ob = Some r \<or> any (flushes r) s"
  using thread_invD(6) [OF safe_parts(4) [OF assms(1)] assms(2)] custodyD(1,4) [OF safe_parts(1) [OF assms(1)]]
  unfolding any_def flushes_iff by blast

lemma unblocked_idle:
  assumes "safe pl s" "recs s r = Some m" "nr_blocked m = 0"
  shows "\<not> any (queued r) s"
proof -
  have "counting s" by (rule safe_parts(3) [OF assms(1)])
  then have "finite {t. pcs s t \<noteq> Idle}" "card {t. blocked (pcs s t) = Some r} = 0"
    using assms(2,3) by (auto simp: counting_def)
  moreover from this(1) have "finite {t. blocked (pcs s t) = Some r}" by (rule finite_subset [rotated]) auto
  ultimately have "\<And>t. blocked (pcs s t) \<noteq> Some r" by auto
  then show ?thesis unfolding any_def using queued_trying trying_blocked by blast
qed

lemma unflushed_idle:
  assumes "safe pl s" "hand (pcs s t) = Some r" "\<not> flushing (pcs s t)"
  shows "\<not> any (queued r) s"
proof
  note cu = custodyD(1,4) [OF safe_parts(1) [OF assms(1)]]
  assume "any (queued r) s"
  then obtain t' ob where "trying (pcs s t') = Some (ob, r)" unfolding any_def using queued_trying by blast
  then have "mon s ob = Some r \<or> any (flushes r) s" by (rule trying_place [OF assms(1)])
  moreover have pl: "pl r = Hand t" using cu(2) assms(2) by simp
  moreover have "\<not> any (flushes r) s"
  proof
    assume "any (flushes r) s"
    then obtain t'' where "hand (pcs s t'') = Some r" "flushing (pcs s t'')" by (auto simp: any_def flushes_iff)
    then show False using cu(2) [of t'' r] pl assms(3) by simp
  qed
  ultimately show False using cu(1) [of ob r] by simp
qed

lemma fresh_idle:
  assumes "safe pl s" "recs s r = None"
  shows "\<not> any (queued r) s"
proof
  assume "any (queued r) s"
  then obtain t ob where "trying (pcs s t) = Some (ob, r)" unfolding any_def using queued_trying by blast
  then have "r \<in> refs (pcs s t)" by (intro blocked_refs trying_blocked)
  then show False using safe_ref [OF assms(1)] assms(2) by fastforce
qed

lemma flush_owned:
  assumes "safe pl s" "any (flushes r) s" "recs s r = Some m"
  shows "owner m \<noteq> None"
proof -
  obtain t where "hand (pcs s t) = Some r" using assms(2) by (auto simp: any_def flushes_iff)
  then have "pl r = Hand t" using custodyD(4) [OF safe_parts(1) [OF assms(1)]] by simp
  then show ?thesis using ownershipD(1) [OF safe_parts(2) [OF assms(1)] _ assms(3)] by auto
qed

section \<open>The invariant is kept\<close>

lemma alertI:
  assumes "\<And>m. recs s r = Some m \<Longrightarrow> any (queued r) s \<Longrightarrow> candidate m \<or> roused s r m \<or> any (flushes r) s"
    and "\<And>m. recs s r = Some m \<Longrightarrow> any (asleep r) s \<Longrightarrow> owner m = None \<Longrightarrow> roused s r m \<or> any (taking r) s"
  shows "alert r s"
  using assms by (simp add: alert_def)

lemma alert_idle: "\<not> any (queued r) s \<Longrightarrow> alert r s"
  using asleep_queued by (auto simp: alert_def any_def)

text \<open>A step, seen from a record: the program counter of the thread, and what the others are at.\<close>

lemma others_simps [simp]:
  "others t Q (goto s t p) = others t Q s" "others t Q (set_rec s r m) = others t Q s"
  "others t Q (set_held s t' ob n) = others t Q s" "others t Q (set_mon s ob r') = others t Q s"
  "others t Q (set_pool s t' rs) = others t Q s" "others t Q (java_return s t v) = others t Q s"
  "others t Q (signal_new_exception s t e) = others t Q s" "others t Q (owner_check_failed t s) = others t Q s"
  "others t Q (wait_return t c s) = others t Q s"
  by (auto simp: others_def)

lemma others_return [simp]:
  "others t Q (lock_return t ob k ok s) = others t Q s" "others t Q (unlock_return t ob k n s) = others t Q s"
  "others t Q (drop_held t ob k s) = others t Q s"
  by (cases k; simp add: unlock_return_def drop_held_def)+

lemma alert_at:
  "alert r s \<longleftrightarrow> (\<forall>m. recs s r = Some m \<longrightarrow>
     (queued r (pcs s t) \<or> others t (queued r) s \<longrightarrow>
        candidate m \<or> (0 < sem m \<or> (posting r (pcs s t) \<or> others t (posting r) s) \<or>
          (looking r (mon s) (pcs s t) \<or> others t (looking r (mon s)) s)) \<or>
        (flushes r (pcs s t) \<or> others t (flushes r) s)) \<and>
     (asleep r (pcs s t) \<or> others t (asleep r) s \<longrightarrow> owner m = None \<longrightarrow>
        (0 < sem m \<or> (posting r (pcs s t) \<or> others t (posting r) s) \<or>
          (looking r (mon s) (pcs s t) \<or> others t (looking r (mon s)) s)) \<or>
        (taking r (pcs s t) \<or> others t (taking r) s)))"
  unfolding alert_def roused_def any_split [where t = t] ..

text \<open>A step that makes nobody sleep, and keeps whoever is on the way on the way.\<close>

lemma alert_mono:
  assumes "alert r s" "pcs s' = (pcs s)(t := p)"
    and "\<And>m'. recs s' r = Some m' \<Longrightarrow> \<exists>m. recs s r = Some m \<and>
      (candidate m \<longrightarrow> candidate m') \<and> (0 < sem m \<longrightarrow> 0 < sem m') \<and> (owner m' = None \<longrightarrow> owner m = None)"
    and "queued r p \<Longrightarrow> queued r (pcs s t)" "asleep r p \<Longrightarrow> asleep r (pcs s t)"
    and "posting r (pcs s t) \<Longrightarrow> posting r p" "flushes r (pcs s t) \<Longrightarrow> flushes r p" "taking r (pcs s t) \<Longrightarrow> taking r p"
    and "\<And>t'. looking r (mon s) (pcs s t') \<Longrightarrow> looking r (mon s') (pcs s' t')"
  shows "alert r s'"
proof -
  have [simp]: "pcs s' t = p" using assms(2) by simp
  have up: "any Q s \<Longrightarrow> any Q s'" if "Q (pcs s t) \<Longrightarrow> Q p" for Q
    using that unfolding any_split [where t = t] others_step [OF assms(2)] by auto
  have down: "any Q s' \<Longrightarrow> any Q s" if "Q p \<Longrightarrow> Q (pcs s t)" for Q
    using that unfolding any_split [where t = t] others_step [OF assms(2)] by auto
  have look: "any (looking r (mon s)) s \<Longrightarrow> any (looking r (mon s')) s'"
    unfolding any_def by (erule exE, rule exI, rule assms(9))
  have post: "any (posting r) s \<Longrightarrow> any (posting r) s'" by (rule up) (rule assms(6))
  have flush: "any (flushes r) s \<Longrightarrow> any (flushes r) s'" by (rule up) (rule assms(7))
  have take: "any (taking r) s \<Longrightarrow> any (taking r) s'" by (rule up) (rule assms(8))
  have queue: "any (queued r) s' \<Longrightarrow> any (queued r) s" by (rule down) (rule assms(4))
  have sleep: "any (asleep r) s' \<Longrightarrow> any (asleep r) s" by (rule down) (rule assms(5))
  show ?thesis
  proof (rule alertI)
    fix m' assume m': "recs s' r = Some m'" "any (queued r) s'"
    obtain m where m: "recs s r = Some m" "candidate m \<longrightarrow> candidate m'" "0 < sem m \<longrightarrow> 0 < sem m'"
      by (rule exE [OF assms(3) [OF m'(1)]]) (elim conjE, rule that)
    have "any (queued r) s" by (rule queue [OF m'(2)])
    then have "candidate m \<or> roused s r m \<or> any (flushes r) s" using assms(1) m(1) by (simp add: alert_def)
    then show "candidate m' \<or> roused s' r m' \<or> any (flushes r) s'"
      using m(2,3) post look flush unfolding roused_def by satx
  next
    fix m' assume m': "recs s' r = Some m'" "any (asleep r) s'" "owner m' = None"
    obtain m where m: "recs s r = Some m" "owner m = None" "0 < sem m \<longrightarrow> 0 < sem m'"
      by (rule exE [OF assms(3) [OF m'(1)]]) (elim conjE, rule that, use m'(3) in simp_all)
    have "any (asleep r) s" by (rule sleep [OF m'(2)])
    then have "roused s r m \<or> any (taking r) s" using assms(1) m(1,2) by (simp add: alert_def)
    then show "roused s' r m' \<or> any (taking r) s'"
      using m(3) post look take unfolding roused_def by satx
  qed
qed

lemma looking_attach: "looking r mn p \<Longrightarrow> mn ob = None \<Longrightarrow> looking r (mn(ob := x)) p"
  by (cases "(r, mn, p)" rule: looking.cases) auto

lemma alert_lock:
  assumes safe: "safe pl s" and step: "vm_object_lock t c ob k l s = Some s'" and pc: "pcs s t = Lock ob k l"
    and al: "alert r s"
  shows "alert r s'"
proof -
  obtain R where R: "\<And>t r. r \<in> refs (pcs s t) \<Longrightarrow> recs s r = Some (R r)" by (rule safe_records [OF safe]) blast
  have ref: "recs s r = Some (R r)" if "r \<in> lock_refs l" for r using R [of r t] pc that by simp
  note al' = al [unfolded alert_at [where t = t] pc]
  note [simp] = with_rec_def put_monitor_record_def
  show ?thesis
  proof (cases l)
    case (L_Wait r')
    have m: "recs s r' = Some (R r')" using ref L_Wait by simp
    have place: "mon s ob = Some r' \<or> others t (flushes r') s"
      using trying_place [OF safe, of t ob r'] pc L_Wait unfolding any_split [where t = t] by simp
    have owned: "owner (R r') \<noteq> None" if "others t (flushes r') s"
      using flush_owned [OF safe _ m] that unfolding any_split [where t = t] by simp
    have s': "s' = goto (set_rec s r' ((R r')\<lparr>sem := sem (R r') - 1\<rparr>)) t (Lock ob k (L_Check r'))"
      using step L_Wait m by (simp split: if_splits)
    show ?thesis
    proof (cases "r' = r")
      case True
      then show ?thesis using place owned m unfolding alert_at [where t = t] s' by auto
    next
      case False
      then show ?thesis using s' pc L_Wait by (auto intro!: alert_mono [OF al, where t = t] split: if_splits)
    qed
  next
    case L_Get
    show ?thesis
    proof (cases "recs s r")
      case None
      then have "\<not> any (queued r) s" by (rule fresh_idle [OF safe])
      then have "\<not> any (queued r) s'"
        using step L_Get pc unfolding any_split [where t = t]
        by (cases k) (auto simp: get_monitor_record_def split: list.splits choice.splits option.splits if_splits)
      then show ?thesis by (rule alert_idle)
    next
      case (Some m)
      then show ?thesis
        using step L_Get pc
        by (cases k) (auto simp: get_monitor_record_def intro!: alert_mono [OF al, where t = t]
          split: list.splits choice.splits option.splits if_splits)
    qed
  next
    case (L_Install r')
    then show ?thesis
      using step pc by (cases "mon s ob"; cases k) (auto intro!: alert_mono [OF al, where t = t] intro: looking_attach)
  next
    case L_Read
    then show ?thesis using step pc by (cases "mon s ob") (auto intro!: alert_mono [OF al, where t = t] split: if_splits)
  next
    case (L_Put r')
    then show ?thesis using step pc by (auto intro!: alert_mono [OF al, where t = t] split: if_splits)
  next
    case (L_Owner r')
    then show ?thesis
      using step pc ref [of r'] by (cases "owner (R r') = Some t") (auto intro!: alert_mono [OF al, where t = t] split: if_splits)
  next
    case (L_Count r')
    then show ?thesis using step pc ref [of r'] by (cases k) (auto intro!: alert_mono [OF al, where t = t] split: if_splits)
  next
    case (L_Inc r')
    then show ?thesis using step pc ref [of r'] by (auto intro!: alert_mono [OF al, where t = t] split: if_splits)
  next
    case (L_Check r')
    then show ?thesis using step pc by (cases "mon s ob = Some r'") (auto intro!: alert_mono [OF al, where t = t] split: if_splits)
  next
    case (L_Cand r')
    then have s': "s' = goto (set_rec s r' ((R r')\<lparr>candidate := True\<rparr>)) t (Lock ob k (L_Cas r'))"
      using step ref [of r'] by simp
    show ?thesis
    proof (cases "r' = r")
      case True
      then show ?thesis using al' unfolding alert_at [where t = t] s' by simp
    next
      case False
      then show ?thesis using s' pc L_Cand by (auto intro!: alert_mono [OF al, where t = t] split: if_splits)
    qed
  next
    case (L_Cas r')
    have m: "recs s r' = Some (R r')" using ref L_Cas by simp
    show ?thesis
    proof (cases "r' = r")
      case True
      then show ?thesis
        using step L_Cas al' m unfolding alert_at [where t = t] by (cases "owner (R r')") auto
    next
      case False
      then show ?thesis using step L_Cas pc m by (cases "owner (R r')") (auto intro!: alert_mono [OF al, where t = t] split: if_splits)
    qed
  next
    case (L_DecOwn r')
    then show ?thesis using step pc ref [of r'] by (auto intro!: alert_mono [OF al, where t = t] split: if_splits)
  next
    case (L_SetCount r')
    then show ?thesis using step pc ref [of r'] by (cases k) (auto intro!: alert_mono [OF al, where t = t] split: if_splits)
  next
    case (L_Dec r')
    then show ?thesis using step pc ref [of r'] by (auto intro!: alert_mono [OF al, where t = t] split: if_splits)
  qed
qed

lemma detach_looking:
  assumes "looking r mn p" "mn ob = Some r'" "r \<noteq> r'"
  shows "looking r (mn(ob := x)) p"
  using assms by (cases "(r, mn, p)" rule: looking.cases) auto

lemma alert_unlock:
  assumes safe: "safe pl s" and step: "vm_object_unlock t ob k u s = Some s'" and pc: "pcs s t = Unlock ob k u"
    and al: "alert r s"
  shows "alert r s'"
proof -
  obtain R where R: "\<And>t r. r \<in> refs (pcs s t) \<Longrightarrow> recs s r = Some (R r)" by (rule safe_records [OF safe]) blast
  have ref: "recs s r = Some (R r)" if "r \<in> unlock_refs u" for r using R [of r t] pc that by simp
  note al' = al [unfolded alert_at [where t = t] pc]
  have idle: "alert r s'" if "\<not> any (queued r) s"
  proof (rule alert_idle)
    show "\<not> any (queued r) s'"
      using that step pc unfolding any_split [where t = t]
      by (cases u; cases k) (auto simp: unlock_return_def drop_held_def with_rec_def put_monitor_record_def
        split: option.splits if_splits nat.splits)
  qed
  note [simp] = with_rec_def put_monitor_record_def unlock_return_def
  show ?thesis
  proof (cases u)
    case (U_Release r')
    have m: "recs s r' = Some (R r')" using ref U_Release by simp
    show ?thesis
    proof (cases "r' = r")
      case True
      then show ?thesis using step U_Release al' m unfolding alert_at [where t = t] by auto
    next
      case False
      then show ?thesis using step U_Release pc m by (auto intro!: alert_mono [OF al, where t = t] split: if_splits)
    qed
  next
    case (U_Wake r')
    have m: "recs s r' = Some (R r')" using ref U_Wake by simp
    show ?thesis
    proof (cases "r' = r")
      case True
      have "\<not> others t (flushes r) s" if "owner (R r) = None"
        using flush_owned [OF safe, of r "R r"] m True that unfolding any_split [where t = t] by auto
      moreover have "others t (queued r) s" if "others t (asleep r) s"
        using that asleep_queued by (auto simp: others_def)
      ultimately show ?thesis
        using step U_Wake al' m True unfolding alert_at [where t = t]
        by (cases "candidate (R r)"; cases k) auto
    next
      case False
      then show ?thesis
        using step U_Wake pc m
        by (cases "candidate (R r')"; cases k) (auto intro!: alert_mono [OF al, where t = t] split: if_splits)
    qed
  next
    case (U_Post r')
    have m: "recs s r' = Some (R r')" using ref U_Post by simp
    show ?thesis
    proof (cases "r' = r")
      case True
      then show ?thesis using step U_Post al' m unfolding alert_at [where t = t] by (cases k) auto
    next
      case False
      then show ?thesis
        using step U_Post pc m by (cases k) (auto intro!: alert_mono [OF al, where t = t] split: if_splits)
    qed
  next
    case (U_Deflate r')
    then obtain m where m: "recs s r' = Some m" "mon s ob = Some r'" "owner m = Some t"
      using ownsD [OF safe, of t ob r'] pc by auto
    show ?thesis
    proof (cases "r' = r")
      case True
      then show ?thesis using step U_Deflate m unfolding alert_at [where t = t] by auto
    next
      case False
      then show ?thesis
        using step U_Deflate pc m by (auto intro!: alert_mono [OF al, where t = t] intro: detach_looking)
    qed
  next
    case (U_Flush r')
    have m: "recs s r' = Some (R r')" using ref U_Flush by simp
    have "\<not> any (queued r') s" if "nr_blocked (R r') = 0" by (rule unblocked_idle [OF safe m that])
    then show ?thesis
      using step U_Flush pc m idle
      by (cases "nr_blocked (R r') = 0"; cases "r' = r") (auto intro!: alert_mono [OF al, where t = t] split: if_splits)
  next
    case (U_Spin r')
    have m: "recs s r' = Some (R r')" using ref U_Spin by simp
    have "\<not> any (queued r') s" if "nr_blocked (R r') = 0" by (rule unblocked_idle [OF safe m that])
    then show ?thesis
      using step U_Spin pc m idle al
      by (cases "nr_blocked (R r') = 0"; cases "r' = r") (auto intro!: alert_mono [OF al, where t = t] split: if_splits)
  next
    case (U_ClearCand r')
    have m: "recs s r' = Some (R r')" using ref U_ClearCand by simp
    have "\<not> any (queued r') s" using unflushed_idle [OF safe, of t r'] pc U_ClearCand by simp
    then show ?thesis
      using step U_ClearCand pc m idle
      by (cases "r' = r") (auto intro!: alert_mono [OF al, where t = t] split: if_splits)
  next
    case (U_Posts r' n)
    then show ?thesis
      using step pc ref [of r'] by (cases n) (auto intro!: alert_mono [OF al, where t = t] split: if_splits)
  next
    case (U_Cnt r')
    then show ?thesis
      using step pc ref [of r']
      by (cases "1 < lock_count (R r')"; cases k) (auto intro!: alert_mono [OF al, where t = t] split: if_splits)
  next
    case U_Rec
    then show ?thesis
      using step pc by (cases "mon s ob"; cases k) (auto intro!: alert_mono [OF al, where t = t])
  next
    case (U_Own r')
    then show ?thesis
      using step pc ref [of r'] by (cases "owner (R r') = Some t"; cases k) (auto intro!: alert_mono [OF al, where t = t])
  next
    case (U_Blocked r')
    then show ?thesis
      using step pc ref [of r'] by (cases "nr_blocked (R r') > 0") (auto intro!: alert_mono [OF al, where t = t])
  next
    case (U_Waiting r')
    then show ?thesis
      using step pc ref [of r'] by (cases "nr_waiting (R r') > 0") (auto intro!: alert_mono [OF al, where t = t])
  next
    case (U_Put r')
    then show ?thesis using step pc by (cases k) (auto intro!: alert_mono [OF al, where t = t])
  qed
qed

lemma alert_step:
  assumes safe: "safe pl s" and step: "mstep t c s = Some s'" and al: "alert r s"
  shows "alert r s'"
proof (cases "pcs s t")
  case Idle
  then show ?thesis
    using step by (auto simp: mstep_def intro!: alert_mono [OF al, where t = t] split: choice.splits)
next
  case (Lock ob k l)
  then show ?thesis using alert_lock [OF safe _ Lock al] step by (simp add: mstep_def)
next
  case (Unlock ob k u)
  then show ?thesis using alert_unlock [OF safe _ Unlock al] step by (simp add: mstep_def)
next
  case (Wait ob w)
  obtain R where R: "\<And>t r. r \<in> refs (pcs s t) \<Longrightarrow> recs s r = Some (R r)" by (rule safe_records [OF safe]) blast
  have ref: "recs s r = Some (R r)" if "r \<in> wait_refs w" for r using R [of r t] Wait that by simp
  show ?thesis
    using step Wait ref
    by (cases w) (auto simp: mstep_def with_rec_def intro!: alert_mono [OF al, where t = t] split: if_splits option.splits)
next
  case Abort
  then show ?thesis using step by (simp add: mstep_def)
qed

lemma reachable_alert: "reachable s \<Longrightarrow> alert r s"
proof (induction rule: reachable.induct)
  case start
  show ?case by (simp add: alert_def init_state_def)
next
  case (step s t c s')
  obtain pl where "safe pl s" using reachable_safe [OF step(1)] by blast
  then show ?case using alert_step [OF _ step(2)] step(3) by blast
qed

section \<open>The flush ends\<close>

definition ntrying :: "mstate \<Rightarrow> rid \<Rightarrow> nat" where
  "ntrying s r = card {t. \<exists>ob. trying (pcs s t) = Some (ob, r)}"

fun posts :: "pc \<Rightarrow> (rid \<times> nat) option" where
  "posts (Unlock ob k (U_Posts r n)) = Some (r, n)"
| "posts (Unlock ob k (U_Spin r)) = Some (r, 0)"
| "posts _ = None"

text \<open>Every thread that may sleep on a record that is flushed finds a post of the semaphore.\<close>

definition enough :: "mstate \<Rightarrow> bool" where
  "enough s \<longleftrightarrow> (\<forall>t r n m. posts (pcs s t) = Some (r, n) \<longrightarrow> recs s r = Some m \<longrightarrow> ntrying s r \<le> sem m + n)"

lemma ntrying_update:
  assumes "counting s" "pcs s' = (pcs s)(t := p)"
  shows "ntrying s' r = (if \<exists>ob. trying p = Some (ob, r) then 1 else 0) + ntrying s r -
    (if \<exists>ob. trying (pcs s t) = Some (ob, r) then 1 else 0)"
proof -
  have "finite {t. \<exists>ob. trying (pcs s t) = Some (ob, r)}"
    by (rule finite_subset [of _ "{t. pcs s t \<noteq> Idle}"]) (use assms(1) in \<open>auto simp: counting_def\<close>)
  then show ?thesis unfolding ntrying_def assms(2) by (rule card_pc_update [where Q = "\<lambda>p. \<exists>ob. trying p = Some (ob, r)"])
qed

lemma ntrying_pos:
  assumes "counting s" "trying (pcs s t) = Some (ob, r)"
  shows "0 < ntrying s r"
proof -
  have "finite {t. \<exists>ob. trying (pcs s t) = Some (ob, r)}"
    by (rule finite_subset [of _ "{t. pcs s t \<noteq> Idle}"]) (use assms(1) in \<open>auto simp: counting_def\<close>)
  then show ?thesis unfolding ntrying_def using assms(2) by (auto simp: card_gt_0_iff)
qed

lemma ntrying_blocked:
  assumes "counting s" "recs s r = Some m"
  shows "ntrying s r \<le> nr_blocked m"
proof -
  have "finite {t. blocked (pcs s t) = Some r}"
    by (rule finite_subset [of _ "{t. pcs s t \<noteq> Idle}"]) (use assms(1) in \<open>auto simp: counting_def\<close>)
  then have "ntrying s r \<le> card {t. blocked (pcs s t) = Some r}"
    unfolding ntrying_def by (rule card_mono) (use trying_blocked in blast)
  then show ?thesis using assms by (simp add: counting_def)
qed

lemma step_sem:
  assumes "mstep t c s = Some s'" "recs s r = Some m" "recs s' r = Some m'"
  shows "sem m \<le> sem m' \<or> (\<exists>ob k. pcs s t = Lock ob k (L_Wait r) \<and> pcs s' t = Lock ob k (L_Check r) \<and> sem m = Suc (sem m'))"
proof (cases "pcs s t")
  case (Lock ob k l)
  then show ?thesis
    using assms
    by (cases l; cases k) (auto simp: mon_steps split: option.splits if_splits list.splits choice.splits)
next
  case (Unlock ob k u)
  then show ?thesis
    using assms
    by (cases u; cases k) (auto simp: mon_steps unlock_return_def drop_held_def split: option.splits if_splits nat.splits)
next
  case (Wait ob w)
  then show ?thesis using assms by (cases w) (auto simp: mon_steps split: option.splits if_splits)
qed (use assms in \<open>auto simp: mon_steps split: choice.splits\<close>)

lemma step_trying:
  assumes "mstep t c s = Some s'" "trying (pcs s' t) = Some (ob, r)"
  shows "trying (pcs s t) = Some (ob, r) \<or> mon s ob = Some r"
proof (cases "pcs s t")
  case (Lock ob' k l)
  then show ?thesis
    using assms
    by (cases l; cases k) (auto simp: mon_steps split: option.splits if_splits list.splits choice.splits)
next
  case (Unlock ob' k u)
  then show ?thesis
    using assms
    by (cases u; cases k) (auto simp: mon_steps unlock_return_def drop_held_def split: option.splits if_splits nat.splits)
next
  case (Wait ob' w)
  then show ?thesis using assms by (cases w) (auto simp: mon_steps split: option.splits if_splits)
qed (use assms in \<open>auto simp: mon_steps split: choice.splits\<close>)

lemma step_pc: "mstep t c s = Some s' \<Longrightarrow> pcs s' = (pcs s)(t := pcs s' t)"
  using step_pcs by (auto simp: fun_eq_iff)

lemma posts_hand: "posts p = Some (r, n) \<Longrightarrow> hand p = Some r"
  by (cases p rule: posts.cases) auto

lemma posts_trying: "posts p = Some (r, n) \<Longrightarrow> trying p = None"
  by (cases p rule: posts.cases) auto

text \<open>The posts of the flushing thread itself.\<close>

lemma step_posts:
  assumes safe: "safe pl s" and step: "mstep t c s = Some s'" and "enough s"
    and p: "posts (pcs s' t) = Some (r, n)" and m': "recs s' r = Some m'"
  shows "ntrying s r \<le> sem m' + n \<and> trying (pcs s t) = None"
proof -
  note cnt = safe_parts(3) [OF safe]
  have old: "ntrying s r \<le> sem m + n'" if "posts (pcs s t) = Some (r, n')" "recs s r = Some m" for n' m
    using assms(3) that by (auto simp: enough_def)
  have "\<exists>ob k u. pcs s t = Unlock ob k u"
  proof (cases "pcs s t")
    case (Lock ob k l)
    then show ?thesis
      using step p by (cases l; cases k) (auto simp: mon_steps split: option.splits if_splits list.splits choice.splits)
  next
    case (Wait ob w)
    then show ?thesis using step p by (cases w) (auto simp: mon_steps split: option.splits if_splits)
  qed (use step p in \<open>auto simp: mon_steps split: choice.splits\<close>)
  then obtain ob k u where pc: "pcs s t = Unlock ob k u" by blast
  note st = step [unfolded mstep_def pc, simplified]
  show ?thesis
  proof (cases u)
    case (U_Flush r')
    then show ?thesis
      using st p m' pc ntrying_blocked [OF cnt]
      by (auto simp: with_rec_def trans_le_add2 split: option.splits if_splits)
  next
    case (U_Posts r' n')
    then show ?thesis
      using st p m' pc old by (cases n') (fastforce simp: with_rec_def split: option.splits if_splits)+
  next
    case (U_Spin r')
    then show ?thesis using st p m' pc old by (auto simp: with_rec_def split: option.splits if_splits)
  qed (use st p pc in \<open>cases k; auto simp: with_rec_def unlock_return_def drop_held_def split: option.splits if_splits\<close>)+
qed

lemma enough_step:
  assumes safe: "safe pl s" and step: "mstep t c s = Some s'" and en: "enough s"
  shows "enough s'"
  unfolding enough_def
proof (intro allI impI)
  fix t0 r n m' assume p: "posts (pcs s' t0) = Some (r, n)" and m': "recs s' r = Some m'"
  note cnt = safe_parts(3) [OF safe]
  have upd: "ntrying s' r = (if \<exists>ob. trying (pcs s' t) = Some (ob, r) then 1 else 0) + ntrying s r -
      (if \<exists>ob. trying (pcs s t) = Some (ob, r) then 1 else 0)"
    by (rule ntrying_update [OF cnt step_pc [OF step]])
  show "ntrying s' r \<le> sem m' + n"
  proof (cases "t0 = t")
    case True
    then have "ntrying s r \<le> sem m' + n" "trying (pcs s t) = None" "trying (pcs s' t) = None"
      using step_posts [OF safe step en _ m'] p posts_trying by auto
    then show ?thesis using upd by simp
  next
    case False
    then have p0: "posts (pcs s t0) = Some (r, n)" using p step_pcs [OF step] by simp
    then have place: "pl r = Hand t0" using custodyD(4) [OF safe_parts(1) [OF safe]] posts_hand by blast
    obtain m where m: "recs s r = Some m" using custodyD(5) [OF safe_parts(1) [OF safe], of r] place by (cases "recs s r") auto
    have le: "ntrying s r \<le> sem m + n" using en p0 m by (auto simp: enough_def)
    have no: "mon s ob \<noteq> Some r" for ob using custodyD(1) [OF safe_parts(1) [OF safe], of ob r] place by simp
    have down: "\<exists>ob. trying (pcs s t) = Some (ob, r)" if "\<exists>ob. trying (pcs s' t) = Some (ob, r)"
      using that step_trying [OF step] no by blast
    show ?thesis
    proof (cases "sem m \<le> sem m'")
      case True
      then show ?thesis using upd le down by auto
    next
      case False
      then obtain ob k where "pcs s t = Lock ob k (L_Wait r)" "pcs s' t = Lock ob k (L_Check r)" "sem m = Suc (sem m')"
        using step_sem [OF step m m'] by blast
      then show ?thesis using upd le by auto
    qed
  qed
qed

lemma reachable_enough: "reachable s \<Longrightarrow> enough s"
proof (induction rule: reachable.induct)
  case start
  show ?case by (simp add: enough_def init_state_def)
next
  case (step s t c s')
  obtain pl where "safe pl s" using reachable_safe [OF step(1)] by blast
  then show ?case using enough_step [OF _ step(2,3)] by blast
qed

section \<open>A thread that may sleep does not hold the object\<close>

fun slow :: "pc \<Rightarrow> oid option" where
  "slow (Lock ob k (L_Inc r)) = Some ob"
| "slow (Lock ob k (L_Check r)) = Some ob"
| "slow (Lock ob k (L_Cand r)) = Some ob"
| "slow (Lock ob k (L_Cas r)) = Some ob"
| "slow (Lock ob k (L_Wait r)) = Some ob"
| "slow _ = None"

lemma slow_step:
  assumes reach: "reachable s" and step: "mstep t c s = Some s'" and "slow (pcs s' t) = Some ob"
    and old: "slow (pcs s t) = Some ob \<Longrightarrow> held s t ob = 0"
  shows "held s' t ob = 0"
proof (cases "pcs s t")
  case (Lock ob' k l)
  show ?thesis
  proof (cases "\<exists>r. l = L_Owner r")
    case True
    then obtain r where l: "l = L_Owner r" by blast
    then obtain m where m: "recs s r = Some m" "owner m = Some t \<longleftrightarrow> 0 < held s t ob'"
      using owner_check [OF reach, of t ob' r] Lock by auto
    then show ?thesis using step assms(3) Lock l by (cases k) (auto simp: mon_steps split: if_splits)
  next
    case False
    then show ?thesis
      using step assms(3) Lock old
      by (cases l; cases k) (auto simp: mon_steps split: option.splits if_splits list.splits choice.splits)
  qed
next
  case (Unlock ob' k u)
  then show ?thesis
    using step assms(3) old
    by (cases u; cases k) (auto simp: mon_steps unlock_return_def drop_held_def split: option.splits if_splits nat.splits)
next
  case (Wait ob' w)
  then show ?thesis using step assms(3) by (cases w) (auto simp: mon_steps split: option.splits if_splits)
qed (use step assms(3) in \<open>auto simp: mon_steps split: choice.splits\<close>)

lemma reachable_slow:
  assumes "reachable s" "slow (pcs s t) = Some ob"
  shows "held s t ob = 0"
  using assms
proof (induction arbitrary: t ob rule: reachable.induct)
  case start
  then show ?case by (simp add: init_state_def)
next
  case (step s t c s' t' ob)
  show ?case
  proof (cases "t' = t")
    case True
    have "held s' t ob = 0" by (rule slow_step [OF step.hyps]) (use step.prems step.IH True in auto)
    then show ?thesis using True by simp
  next
    case False
    then show ?thesis using step.prems step.IH step_pcs [OF step.hyps(2)] step_held [OF step.hyps(2)] by simp
  qed
qed

section \<open>Nobody is forgotten\<close>

text \<open>A thread that does nothing by itself: it runs Java code, waits to be notified, sleeps on a semaphore that is
  zero, or spins until the blocked threads are gone.\<close>

definition quiet :: "mstate \<Rightarrow> tid \<Rightarrow> bool" where
  "quiet s t \<longleftrightarrow> pcs s t = Idle \<or> (\<exists>ob r n. pcs s t = Wait ob (W_Cond r n)) \<or>
     (\<exists>ob k r m. pcs s t = Lock ob k (L_Wait r) \<and> recs s r = Some m \<and> sem m = 0) \<or>
     (\<exists>ob k r m. pcs s t = Unlock ob k (U_Spin r) \<and> recs s r = Some m \<and> 0 < nr_blocked m)"

lemma quiet_pc:
  assumes "quiet s t"
  shows "\<not> posting r (pcs s t)" "\<not> looking r mn (pcs s t)" "\<not> taking r (pcs s t)" "owns (pcs s t) = None"
    "blocked (pcs s t) = Some r \<Longrightarrow> asleep r (pcs s t)" "flushes r (pcs s t) \<Longrightarrow> posts (pcs s t) = Some (r, 0)"
    "asleep r (pcs s t) \<Longrightarrow> recs s r = Some m \<Longrightarrow> sem m = 0"
  using assms unfolding quiet_def by (elim disjE exE conjE; simp)+

lemma quiet_any:
  assumes "\<And>t. quiet s t"
  shows "\<not> any (posting r) s" "\<not> any (looking r mn) s" "\<not> any (taking r) s"
  using quiet_pc [OF assms] by (auto simp: any_def)

lemma quiet_no_flush:
  assumes safe: "safe pl s" and en: "enough s" and q: "\<And>t. quiet s t"
    and "recs s r = Some m" "any (flushes r) s"
  shows "\<not> any (asleep r) s"
proof
  assume "any (asleep r) s"
  then obtain t where t: "asleep r (pcs s t)" by (auto simp: any_def)
  obtain t0 where "posts (pcs s t0) = Some (r, 0)" using assms(5) quiet_pc(6) [OF q] by (auto simp: any_def)
  then have "ntrying s r \<le> sem m" using en assms(4) by (fastforce simp: enough_def)
  moreover have "sem m = 0" by (rule quiet_pc(7) [OF q t assms(4)])
  moreover obtain ob where "trying (pcs s t) = Some (ob, r)" using queued_trying [OF asleep_queued [OF t]] by blast
  ultimately show False using ntrying_pos [OF safe_parts(3) [OF safe]] by fastforce
qed

lemma quiet_no_spin:
  assumes safe: "safe pl s" and en: "enough s" and q: "\<And>t. quiet s t"
  shows "pcs s t \<noteq> Unlock ob k (U_Spin r)"
proof
  assume pc: "pcs s t = Unlock ob k (U_Spin r)"
  then obtain m where m: "recs s r = Some m" "0 < nr_blocked m" using q [of t] by (auto simp: quiet_def)
  have "counting s" by (rule safe_parts(3) [OF safe])
  then have "card {t. blocked (pcs s t) = Some r} \<noteq> 0" using m by (auto simp: counting_def)
  then have "{t. blocked (pcs s t) = Some r} \<noteq> {}" by (metis card.empty)
  then have "any (asleep r) s" using quiet_pc(5) [OF q] by (auto simp: any_def)
  moreover have "any (flushes r) s" using pc unfolding any_def by (intro exI [of _ t]) simp
  ultimately show False using quiet_no_flush [OF safe en q m(1)] by simp
qed

lemma sleeper_record:
  assumes reach: "reachable s" and q: "\<And>t. quiet s t" and pc: "pcs s t = Lock ob k (L_Wait r)"
  shows "\<exists>t' m. t' \<noteq> t \<and> 0 < held s t' ob \<and> mon s ob = Some r \<and> recs s r = Some m \<and> owner m = Some t' \<and>
    lock_count m = held s t' ob \<and> candidate m \<and> 0 < nr_blocked m \<and> sem m = 0"
proof -
  obtain pl where safe: "safe pl s" using reachable_safe [OF reach] by blast
  note en = reachable_enough [OF reach]
  obtain m where m: "recs s r = Some m" "sem m = 0" using q [of t] pc by (auto simp: quiet_def)
  have sl: "any (asleep r) s" "any (queued r) s" using pc by (auto simp: any_def intro!: exI [of _ t])
  then have nf: "\<not> any (flushes r) s" using quiet_no_flush [OF safe en q m(1)] by blast
  then have mn: "mon s ob = Some r" using trying_place [OF safe, of t ob r] pc by simp
  have nr: "\<not> roused s r m" using m(2) quiet_any [OF q] by (simp add: roused_def)
  have al: "alert r s" by (rule reachable_alert [OF reach])
  have "candidate m" using al m(1) sl(2) nr nf by (simp add: alert_def)
  moreover have "owner m \<noteq> None" using al m(1) sl(1) nr quiet_any(3) [OF q] by (auto simp: alert_def)
  then obtain t' where t': "owner m = Some t'" by blast
  moreover have place: "pl r = Att ob" using mon_record [OF safe mn] by simp
  have hd: "0 < held s t' ob"
    using ownershipD(2) [OF safe_parts(2) [OF safe] place m(1) t'] quiet_pc(4) [OF q, of t'] by simp
  moreover have "lock_count m = held s t' ob"
    using heldD [OF safe hd] mn m(1) by (metis option.inject)
  moreover have "t' \<noteq> t" using hd reachable_slow [OF reach, of t] pc by auto
  moreover have "0 < nr_blocked m"
    using ntrying_pos [OF safe_parts(3) [OF safe], of t ob r] ntrying_blocked [OF safe_parts(3) [OF safe] m(1)] pc by simp
  ultimately show ?thesis using mn m by blast
qed

text \<open>The holder leaves the monitor, then the sleeper runs.\<close>

definition handover :: "tid \<Rightarrow> tid \<Rightarrow> oid \<Rightarrow> (tid \<times> choice) list" where
  "handover t' t ob = (t', Call_unlock ob) # replicate 7 (t', Malloc None) @ replicate 6 (t, Malloc None)"

lemma handover_run:
  assumes "t' \<noteq> t" "pcs s t' = Idle" "pcs s t = Lock ob Ret (L_Wait r)" "mon s ob = Some r" "recs s r = Some m"
    and "owner m = Some t'" "lock_count m = 1" "candidate m" "0 < nr_blocked m" "sem m = 0"
  shows "\<exists>s'. mrun (handover t' t ob) s = Some s' \<and> pcs s' t' = Idle \<and> pcs s' t = Idle \<and>
    held s' t' ob = held s t' ob - 1 \<and> held s' t ob = held s t ob + 1"
  using assms by (simp add: handover_def numeral_eq_Suc mstep_def with_rec_def unlock_return_def drop_held_def)

text \<open>C2: No wakeup is lost. Suppose no thread does anything by itself: every thread runs Java code, waits to be
  notified, sleeps on a semaphore that is zero, or spins in the flush of a deflation. Then no thread spins; and for
  a thread that sleeps in \<open>vm_object_lock\<close> there is another thread that holds the object, and it knows about the
  sleeper: the record is marked. If that thread runs Java code, holds the object once and leaves it, the
  sleeper gets the object.\<close>

theorem monitor_no_lost_wakeup:
  assumes "reachable s" "\<And>t. quiet s t"
  shows "(\<forall>t ob k r. pcs s t \<noteq> Unlock ob k (U_Spin r)) \<and>
    (\<forall>t ob k r. pcs s t = Lock ob k (L_Wait r) \<longrightarrow>
      (\<exists>t'. t' \<noteq> t \<and> 0 < held s t' ob \<and>
        (\<exists>m. mon s ob = Some r \<and> recs s r = Some m \<and> owner m = Some t' \<and> candidate m \<and> 0 < nr_blocked m) \<and>
        (k = Ret \<longrightarrow> pcs s t' = Idle \<longrightarrow> held s t' ob = 1 \<longrightarrow>
          (\<exists>s'. mrun (handover t' t ob) s = Some s' \<and> pcs s' t = Idle \<and> held s' t' ob = 0 \<and> held s' t ob = 1))))"
proof (intro conjI allI impI)
  obtain pl where safe: "safe pl s" using reachable_safe [OF assms(1)] by blast
  show "pcs s t \<noteq> Unlock ob k (U_Spin r)" for t ob k r
    by (rule quiet_no_spin [OF safe reachable_enough [OF assms(1)] assms(2)])
  fix t ob k r assume pc: "pcs s t = Lock ob k (L_Wait r)"
  obtain t' m where h: "t' \<noteq> t" "0 < held s t' ob" "mon s ob = Some r" "recs s r = Some m" "owner m = Some t'"
      "lock_count m = held s t' ob" "candidate m" "0 < nr_blocked m" "sem m = 0"
    using sleeper_record [OF assms pc] by blast
  have "held s t ob = 0" using reachable_slow [OF assms(1), of t ob] pc by simp
  then have "\<exists>s'. mrun (handover t' t ob) s = Some s' \<and> pcs s' t = Idle \<and> held s' t' ob = 0 \<and> held s' t ob = 1"
    if "k = Ret" "pcs s t' = Idle" "held s t' ob = 1"
    using handover_run [of t' t s ob r m] that h pc by auto
  then show "\<exists>t'. t' \<noteq> t \<and> 0 < held s t' ob \<and>
      (\<exists>m. mon s ob = Some r \<and> recs s r = Some m \<and> owner m = Some t' \<and> candidate m \<and> 0 < nr_blocked m) \<and>
      (k = Ret \<longrightarrow> pcs s t' = Idle \<longrightarrow> held s t' ob = 1 \<longrightarrow>
        (\<exists>s'. mrun (handover t' t ob) s = Some s' \<and> pcs s' t = Idle \<and> held s' t' ob = 0 \<and> held s' t ob = 1))"
    using h by blast
qed

definition contended_once :: "(tid \<times> choice) list" where
  "contended_once =
     [(0, Call_lock 5), (0, Malloc None), (0, Malloc (Some 9)), (0, Malloc None)] @ (1, Call_lock 5) # replicate 6 (1, Malloc None)"

theorem monitor_no_lost_wakeup_witness:
  "\<exists>s. mrun contended_once init_state = Some s \<and> pcs s 1 = Lock 5 Ret (L_Wait 9) \<and> (\<forall>t. quiet s t) \<and>
     (\<exists>t'. t' \<noteq> 1 \<and> 0 < held s t' 5)"
proof -
  obtain s where s: "mrun contended_once init_state = Some s" "pcs s = (\<lambda>_. Idle)(0 := Idle, 1 := Lock 5 Ret (L_Wait 9))"
      "\<exists>m. recs s 9 = Some m \<and> sem m = 0"
    by (simp add: contended_once_def run_simps numeral_eq_Suc)
  have q: "quiet s t" for t using s(2,3) by (auto simp: quiet_def)
  have "pcs s 1 = Lock 5 Ret (L_Wait 9)" using s(2) by simp
  then show ?thesis
    using monitor_no_lost_wakeup [OF mrun_reachable [OF reachable.start s(1)] q] s(1) q by blast
qed

end
