(* ===== verification/Compile_Lock.thy ===== *)
theory Compile_Lock
  imports Jato_Prelude
begin

text \<open>
  The lock of class initialisation, \<open>lib/compile-lock.c\<close>, and its use by \<open>vm_class_init\<close>: one thread is sent to
  initialise the class, the others wait for its result. Any number of threads enter and leave the lock; every
  access to a shared field is one step and the steps interleave in any order. As in \<open>vm_class_init\<close>, a thread
  leaves only if it was told to compile, and only with a final status; a thread that compiles enters the lock
  again only if it is reentrant. \<open>active\<close>, \<open>winners\<close> and \<open>results\<close> are not in the source: the threads that
  were told to compile and have not left yet, all threads that ever were, and the last status each call returned.
\<close>

section \<open>Model\<close>

type_synonym tid = nat

datatype compile_lock_status =
  STATUS_INITIAL | STATUS_COMPILING | STATUS_COMPILED_OK | STATUS_COMPILED_ERRONOUS | STATUS_REENTER

record compile_lock =
  status :: compile_lock_status
  nr_waiting :: nat
  wait_sem :: nat
  reentrant :: bool
  compiling_ee :: "tid option"

datatype cl_pc =
    C_Idle | C_Read | C_Cas | C_Own | C_Inc | C_Loop | C_Ee | C_DecRe | C_Sem | C_Dec | C_Ret
  | V_Set compile_lock_status | V_Read | V_Post nat

datatype cl_call = Enter | Leave compile_lock_status

record cl_state =
  lock :: compile_lock
  cl_pcs :: "tid \<Rightarrow> cl_pc"
  active :: "tid set"
  winners :: "tid list"
  results :: "tid \<Rightarrow> compile_lock_status option"

definition compile_lock_init :: "bool \<Rightarrow> compile_lock" where
  "compile_lock_init re = \<lparr>status = STATUS_INITIAL, nr_waiting = 0, wait_sem = 0, reentrant = re, compiling_ee = None\<rparr>"

definition cl_init :: "bool \<Rightarrow> cl_state" where
  "cl_init re = \<lparr>lock = compile_lock_init re, cl_pcs = (\<lambda>_. C_Idle), active = {}, winners = [], results = (\<lambda>_. None)\<rparr>"

fun above_compiling :: "compile_lock_status \<Rightarrow> bool" where
  "above_compiling STATUS_INITIAL = False"
| "above_compiling STATUS_COMPILING = False"
| "above_compiling _ = True"

definition cl_goto :: "cl_state \<Rightarrow> tid \<Rightarrow> cl_pc \<Rightarrow> cl_state" where
  "cl_goto s t p = s\<lparr>cl_pcs := (cl_pcs s)(t := p)\<rparr>"

definition cl_return :: "cl_state \<Rightarrow> tid \<Rightarrow> compile_lock_status \<Rightarrow> cl_state" where
  "cl_return s t st = (cl_goto s t C_Idle)\<lparr>results := (results s)(t \<mapsto> st)\<rparr>"

text \<open>One step of a thread; \<open>None\<close> when it cannot move.\<close>

fun compile_lock_enter :: "tid \<Rightarrow> cl_pc \<Rightarrow> cl_state \<Rightarrow> cl_state option" where
  "compile_lock_enter t C_Read s =
     Some (if above_compiling (status (lock s)) then cl_return s t (status (lock s)) else cl_goto s t C_Cas)"
| "compile_lock_enter t C_Cas s =
     Some (if status (lock s) = STATUS_INITIAL
           then cl_goto (s\<lparr>lock := (lock s)\<lparr>status := STATUS_COMPILING\<rparr>\<rparr>) t C_Own
           else cl_goto s t C_Inc)"
| "compile_lock_enter t C_Own s =
     Some (cl_return (s\<lparr>lock := (if reentrant (lock s) then (lock s)\<lparr>compiling_ee := Some t\<rparr> else lock s),
                        active := insert t (active s), winners := t # winners s\<rparr>) t STATUS_COMPILING)"
| "compile_lock_enter t C_Inc s = Some (cl_goto (s\<lparr>lock := (lock s)\<lparr>nr_waiting := nr_waiting (lock s) + 1\<rparr>\<rparr>) t C_Loop)"
| "compile_lock_enter t C_Loop s =
     Some (cl_goto s t (if status (lock s) = STATUS_COMPILING
                        then if reentrant (lock s) then C_Ee else C_Sem else C_Dec))"
| "compile_lock_enter t C_Ee s = Some (cl_goto s t (if compiling_ee (lock s) = Some t then C_DecRe else C_Sem))"
| "compile_lock_enter t C_DecRe s =
     Some (cl_return (s\<lparr>lock := (lock s)\<lparr>nr_waiting := nr_waiting (lock s) - 1\<rparr>\<rparr>) t STATUS_COMPILED_OK)"
| "compile_lock_enter t C_Sem s =
     (if wait_sem (lock s) > 0 then Some (cl_goto (s\<lparr>lock := (lock s)\<lparr>wait_sem := wait_sem (lock s) - 1\<rparr>\<rparr>) t C_Loop)
      else None)"
| "compile_lock_enter t C_Dec s = Some (cl_goto (s\<lparr>lock := (lock s)\<lparr>nr_waiting := nr_waiting (lock s) - 1\<rparr>\<rparr>) t C_Ret)"
| "compile_lock_enter t C_Ret s = Some (cl_return s t (status (lock s)))"
| "compile_lock_enter t _ s = None"

fun compile_lock_leave :: "tid \<Rightarrow> cl_pc \<Rightarrow> cl_state \<Rightarrow> cl_state option" where
  "compile_lock_leave t (V_Set st) s =
     Some (cl_goto (s\<lparr>lock := (lock s)\<lparr>status := st\<rparr>, active := active s - {t}\<rparr>) t V_Read)"
| "compile_lock_leave t V_Read s = Some (cl_goto s t (V_Post (nr_waiting (lock s))))"
| "compile_lock_leave t (V_Post 0) s = Some (cl_goto s t C_Idle)"
| "compile_lock_leave t (V_Post (Suc n)) s =
     Some (cl_goto (s\<lparr>lock := (lock s)\<lparr>wait_sem := wait_sem (lock s) + 1\<rparr>\<rparr>) t (V_Post n))"
| "compile_lock_leave t _ s = None"

text \<open>What \<open>vm_class_init\<close> does with the status that the lock returned: it returns zero, returns an error with a
  \<open>NoClassDefFoundError\<close>, or initialises the class.\<close>

datatype init_outcome = Initialise | Returns int

definition vm_class_init_outcome :: "compile_lock_status \<Rightarrow> init_outcome" where
  "vm_class_init_outcome st =
     (if st = STATUS_COMPILED_OK \<or> st = STATUS_REENTER then Returns 0
      else if st = STATUS_COMPILED_ERRONOUS then Returns (-1)
      else Initialise)"

text \<open>The calls that \<open>vm_class_init\<close> makes: it enters the lock, which a thread that initialises the class does again
  from the initialiser; after the initialisation it leaves with the status of the success or of the failure.\<close>

definition vm_class_init_enter :: "tid \<Rightarrow> cl_state \<Rightarrow> cl_state option" where
  "vm_class_init_enter t s = (if t \<in> active s \<and> \<not> reentrant (lock s) then None else Some (cl_goto s t C_Read))"

definition vm_class_init_leave :: "tid \<Rightarrow> compile_lock_status \<Rightarrow> cl_state \<Rightarrow> cl_state option" where
  "vm_class_init_leave t st s =
     (if t \<in> active s \<and> (st = STATUS_COMPILED_OK \<or> st = STATUS_COMPILED_ERRONOUS) then Some (cl_goto s t (V_Set st)) else None)"

definition cl_call_step :: "tid \<Rightarrow> cl_call \<Rightarrow> cl_state \<Rightarrow> cl_state option" where
  "cl_call_step t c s = (case c of Enter \<Rightarrow> vm_class_init_enter t s | Leave st \<Rightarrow> vm_class_init_leave t st s)"

lemmas call_defs = cl_call_step_def vm_class_init_enter_def vm_class_init_leave_def

fun leaving :: "cl_pc \<Rightarrow> bool" where
  "leaving (V_Set st) = True"
| "leaving V_Read = True"
| "leaving (V_Post n) = True"
| "leaving _ = False"

definition cl_step :: "tid \<Rightarrow> cl_call \<Rightarrow> cl_state \<Rightarrow> cl_state option" where
  "cl_step t c s =
     (if cl_pcs s t = C_Idle then cl_call_step t c s
      else if leaving (cl_pcs s t) then compile_lock_leave t (cl_pcs s t) s
      else compile_lock_enter t (cl_pcs s t) s)"

inductive cl_reachable :: "bool \<Rightarrow> cl_state \<Rightarrow> bool" for re where
  start: "cl_reachable re (cl_init re)"
| step: "cl_reachable re s \<Longrightarrow> cl_step t c s = Some s' \<Longrightarrow> cl_reachable re s'"

section \<open>Invariant\<close>

text \<open>The thread that compiles: from the exchange that takes the lock until the status is set.\<close>

fun owning :: "cl_pc \<Rightarrow> bool" where
  "owning C_Own = True"
| "owning (V_Set st) = True"
| "owning _ = False"

definition compiler :: "cl_state \<Rightarrow> tid \<Rightarrow> bool" where
  "compiler s t \<longleftrightarrow> t \<in> active s \<or> owning (cl_pcs s t)"

fun cl_counted :: "cl_pc \<Rightarrow> bool" where
  "cl_counted C_Loop = True"
| "cl_counted C_Ee = True"
| "cl_counted C_DecRe = True"
| "cl_counted C_Sem = True"
| "cl_counted C_Dec = True"
| "cl_counted _ = False"

fun sleepy :: "cl_pc \<Rightarrow> bool" where
  "sleepy C_Ee = True"
| "sleepy C_Sem = True"
| "sleepy _ = False"

definition final :: "compile_lock_status \<Rightarrow> bool" where
  "final st \<longleftrightarrow> st = STATUS_COMPILED_OK \<or> st = STATUS_COMPILED_ERRONOUS"

text \<open>Before, during and after the compilation; the thread that wins stays the only one.\<close>

definition phase_inv :: "cl_state \<Rightarrow> bool" where
  "phase_inv s \<longleftrightarrow>
     (status (lock s) = STATUS_INITIAL \<and> winners s = [] \<and> active s = {} \<and> (\<forall>t. \<not> owning (cl_pcs s t))) \<or>
     (status (lock s) = STATUS_COMPILING \<and>
       (\<exists>w. (active s = {} \<and> winners s = [] \<and> cl_pcs s w = C_Own \<or>
             active s = {w} \<and> winners s = [w] \<and> cl_pcs s w \<noteq> C_Own) \<and> (\<forall>t. owning (cl_pcs s t) \<longrightarrow> t = w))) \<or>
     (final (status (lock s)) \<and> length (winners s) = 1 \<and> active s = {} \<and> (\<forall>t. \<not> owning (cl_pcs s t)))"

text \<open>What a program counter says of the status, of being active and of being noted in the lock.\<close>

fun cl_pc_ok :: "cl_pc \<Rightarrow> compile_lock_status \<Rightarrow> bool \<Rightarrow> bool \<Rightarrow> bool" where
  "cl_pc_ok (V_Set st') st act noted = (final st' \<and> act)"
| "cl_pc_ok V_Read st act noted = final st"
| "cl_pc_ok (V_Post n) st act noted = final st"
| "cl_pc_ok C_Own st act noted = (st = STATUS_COMPILING)"
| "cl_pc_ok C_Inc st act noted = (st \<noteq> STATUS_INITIAL)"
| "cl_pc_ok C_Loop st act noted = (st \<noteq> STATUS_INITIAL)"
| "cl_pc_ok C_Ee st act noted = (st \<noteq> STATUS_INITIAL)"
| "cl_pc_ok C_Sem st act noted = (\<not> act \<and> st \<noteq> STATUS_INITIAL)"
| "cl_pc_ok C_DecRe st act noted = noted"
| "cl_pc_ok C_Dec st act noted = final st"
| "cl_pc_ok C_Ret st act noted = final st"
| "cl_pc_ok _ st act noted = True"

text \<open>A returned status: the order to compile, the success of one's own compilation, or the final status.\<close>

primrec result_ok :: "compile_lock_status option \<Rightarrow> compile_lock_status \<Rightarrow> bool \<Rightarrow> bool \<Rightarrow> bool" where
  "result_ok None st won re = True"
| "result_ok (Some r) st won re = ((r = STATUS_COMPILING \<or> r = STATUS_COMPILED_OK \<and> re) \<and> won \<or> final r \<and> st = r)"

definition cl_thread_inv :: "cl_state \<Rightarrow> tid \<Rightarrow> bool" where
  "cl_thread_inv s t \<longleftrightarrow>
     cl_pc_ok (cl_pcs s t) (status (lock s)) (t \<in> active s) (compiling_ee (lock s) = Some t) \<and>
     (t \<in> active s \<longrightarrow> (if reentrant (lock s) then compiling_ee (lock s) = Some t else cl_pcs s t = C_Idle \<or> leaving (cl_pcs s t))) \<and>
     (compiling_ee (lock s) = Some t \<longrightarrow> t \<in> set (winners s) \<and> reentrant (lock s)) \<and>
     result_ok (results s t) (status (lock s)) (t \<in> set (winners s)) (reentrant (lock s))"

lemma cl_goto_simps [simp]:
  "cl_pcs (cl_goto s t p) = (cl_pcs s)(t := p)" "lock (cl_goto s t p) = lock s" "active (cl_goto s t p) = active s"
  "winners (cl_goto s t p) = winners s" "results (cl_goto s t p) = results s"
  by (simp_all add: cl_goto_def)

lemma cl_return_simps [simp]:
  "cl_pcs (cl_return s t st) = (cl_pcs s)(t := C_Idle)" "lock (cl_return s t st) = lock s"
  "active (cl_return s t st) = active s" "winners (cl_return s t st) = winners s"
  "results (cl_return s t st) = (results s)(t \<mapsto> st)"
  by (simp_all add: cl_return_def)

lemma final_simps [simp]:
  "final STATUS_COMPILED_OK" "final STATUS_COMPILED_ERRONOUS" "\<not> final STATUS_INITIAL" "\<not> final STATUS_COMPILING"
  by (simp_all add: final_def)

lemma above_final: "phase_inv s \<Longrightarrow> above_compiling (status (lock s)) \<longleftrightarrow> final (status (lock s))"
  by (cases "status (lock s)") (auto simp: phase_inv_def final_def)

lemma phase_compiling: "phase_inv s \<Longrightarrow> status (lock s) \<noteq> STATUS_INITIAL \<Longrightarrow> status (lock s) \<noteq> STATUS_COMPILING \<Longrightarrow> final (status (lock s))"
  by (auto simp: phase_inv_def)

lemma phase_active:
  assumes "phase_inv s" "t \<in> active s"
  shows "status (lock s) = STATUS_COMPILING \<and> active s = {t} \<and> winners s = [t] \<and> (\<forall>t'. owning (cl_pcs s t') \<longrightarrow> t' = t)"
proof -
  obtain w where w: "status (lock s) = STATUS_COMPILING" "active s = {w}" "winners s = [w]" "\<forall>t. owning (cl_pcs s t) \<longrightarrow> t = w"
    using assms unfolding phase_inv_def by (elim disjE conjE exE) auto
  then have tw: "w = t" using assms(2) by simp
  show ?thesis using w unfolding tw by simp
qed

lemma phase_own:
  assumes "phase_inv s" "cl_pcs s t = C_Own"
  shows "status (lock s) = STATUS_COMPILING \<and> active s = {} \<and> winners s = [] \<and> (\<forall>t'. owning (cl_pcs s t') \<longrightarrow> t' = t)"
proof -
  have "owning (cl_pcs s t)" using assms(2) by simp
  then obtain w where w: "status (lock s) = STATUS_COMPILING"
      "active s = {} \<and> winners s = [] \<and> cl_pcs s w = C_Own \<or> active s = {w} \<and> winners s = [w] \<and> cl_pcs s w \<noteq> C_Own"
      "\<forall>t. owning (cl_pcs s t) \<longrightarrow> t = w"
    using assms(1) unfolding phase_inv_def by blast
  then have tw: "w = t" using \<open>owning (cl_pcs s t)\<close> by blast
  show ?thesis using w assms(2) unfolding tw by simp
qed

text \<open>A step that takes part in no compilation.\<close>

lemma phase_other:
  assumes "phase_inv s" "cl_pcs s' = (cl_pcs s)(t := p)" "status (lock s') = status (lock s)" "active s' = active s"
    and "winners s' = winners s" "\<not> owning p" "\<not> owning (cl_pcs s t)"
  shows "phase_inv s'"
proof (cases "status (lock s) = STATUS_COMPILING")
  case True
  then obtain w where w: "active s = {} \<and> winners s = [] \<and> cl_pcs s w = C_Own \<or> active s = {w} \<and> winners s = [w] \<and> cl_pcs s w \<noteq> C_Own"
      "\<forall>t. owning (cl_pcs s t) \<longrightarrow> t = w"
    using assms(1) by (auto simp: phase_inv_def)
  then have "cl_pcs s w = C_Own \<longrightarrow> w \<noteq> t" "p \<noteq> C_Own" using assms(6,7) by auto
  then have "(active s' = {} \<and> winners s' = [] \<and> cl_pcs s' w = C_Own \<or> active s' = {w} \<and> winners s' = [w] \<and> cl_pcs s' w \<noteq> C_Own) \<and>
      (\<forall>t. owning (cl_pcs s' t) \<longrightarrow> t = w)"
    using w assms by auto
  then show ?thesis using True assms(3) unfolding phase_inv_def by metis
next
  case False
  then show ?thesis using assms by (auto simp: phase_inv_def)
qed

lemma phase_ownI:
  assumes "status (lock s) = STATUS_COMPILING" "active s = {}" "winners s = []" "cl_pcs s w = C_Own"
    and "\<And>t. owning (cl_pcs s t) \<Longrightarrow> t = w"
  shows "phase_inv s"
  using assms unfolding phase_inv_def by blast

lemma phase_activeI:
  assumes "status (lock s) = STATUS_COMPILING" "active s = {w}" "winners s = [w]" "cl_pcs s w \<noteq> C_Own"
    and "\<And>t. owning (cl_pcs s t) \<Longrightarrow> t = w"
  shows "phase_inv s"
  using assms unfolding phase_inv_def by blast

lemma phase_finalI:
  assumes "final (status (lock s))" "active s = {}" "length (winners s) = 1" "\<And>t. \<not> owning (cl_pcs s t)"
  shows "phase_inv s"
  using assms unfolding phase_inv_def by blast

lemma phase_step:
  assumes ph: "phase_inv s" and inv: "cl_thread_inv s t" and step: "cl_step t c s = Some s'"
  shows "phase_inv s'"
proof (cases "cl_pcs s t")
  case C_Idle
  show ?thesis
  proof (cases c)
    case Enter
    then show ?thesis
      using step C_Idle by (auto simp: cl_step_def call_defs intro!: phase_other [OF ph, where t = t] split: if_splits)
  next
    case (Leave st)
    then have s': "t \<in> active s" "s' = cl_goto s t (V_Set st)"
      using step C_Idle by (auto simp: cl_step_def call_defs split: if_splits)
    then show ?thesis using phase_active [OF ph s'(1)] by (auto intro!: phase_activeI [of _ t] split: if_splits)
  qed
next
  case C_Cas
  show ?thesis
  proof (cases "status (lock s) = STATUS_INITIAL")
    case True
    then have "active s = {}" "winners s = []" "\<And>t. \<not> owning (cl_pcs s t)" using ph by (auto simp: phase_inv_def)
    then show ?thesis using step C_Cas True by (auto simp: cl_step_def intro!: phase_ownI [of _ t] split: if_splits)
  next
    case False
    then show ?thesis using step C_Cas by (auto simp: cl_step_def intro!: phase_other [OF ph, where t = t])
  qed
next
  case C_Own
  then show ?thesis
    using step phase_own [OF ph C_Own]
    by (cases "reentrant (lock s)") (auto simp: cl_step_def intro!: phase_activeI [of _ t] split: if_splits)
next
  case (V_Set st)
  then have "t \<in> active s" "final st" using inv by (simp_all add: cl_thread_inv_def)
  then show ?thesis using step V_Set phase_active [OF ph, of t] by (auto simp: cl_step_def intro!: phase_finalI split: if_splits)
next
  case (V_Post n)
  then show ?thesis
    using step by (cases n) (auto simp: cl_step_def intro!: phase_other [OF ph, where t = t])
qed (use step in \<open>auto simp: cl_step_def intro!: phase_other [OF ph, where t = t] split: if_splits\<close>)

lemma cl_step_other: "cl_step t c s = Some s' \<Longrightarrow> t' \<noteq> t \<Longrightarrow> cl_pcs s' t' = cl_pcs s t'"
  by (cases "cl_pcs s t")
    (auto simp: cl_step_def call_defs split: if_splits cl_call.splits nat.splits elim!: compile_lock_leave.elims)

text \<open>How the status moves while a thread stands still.\<close>

definition status_step :: "compile_lock_status \<Rightarrow> compile_lock_status \<Rightarrow> cl_pc \<Rightarrow> bool" where
  "status_step st st' p \<longleftrightarrow> st' = st \<or> st = STATUS_INITIAL \<and> st' = STATUS_COMPILING \<or> st = STATUS_COMPILING \<and> final st' \<and> p \<noteq> C_Own"

lemma cl_pc_ok_step: "cl_pc_ok p st act noted \<Longrightarrow> status_step st st' p \<Longrightarrow> cl_pc_ok p st' act noted"
  by (cases p) (auto simp: status_step_def)

lemma result_ok_step: "result_ok r st won re \<Longrightarrow> status_step st st' p \<Longrightarrow> (won \<Longrightarrow> won') \<Longrightarrow> result_ok r st' won' re"
  by (cases r) (auto simp: status_step_def)

lemma thread_other:
  assumes "cl_thread_inv s t'" "cl_pcs s' t' = cl_pcs s t'" "results s' t' = results s t'" "reentrant (lock s') = reentrant (lock s)"
    and "t' \<in> active s' \<longleftrightarrow> t' \<in> active s" "compiling_ee (lock s') = Some t' \<longleftrightarrow> compiling_ee (lock s) = Some t'"
    and "t' \<in> set (winners s) \<Longrightarrow> t' \<in> set (winners s')" "status_step (status (lock s)) (status (lock s')) (cl_pcs s t')"
  shows "cl_thread_inv s' t'"
  using assms(1,7) cl_pc_ok_step [OF _ assms(8)] result_ok_step [OF _ assms(8) assms(7)]
  unfolding cl_thread_inv_def assms(2-6) by blast

lemma status_step_simps [simp]:
  "status_step st st p" "status_step STATUS_INITIAL STATUS_COMPILING p"
  "status_step STATUS_COMPILING st' p \<longleftrightarrow> st' = STATUS_COMPILING \<or> final st' \<and> p \<noteq> C_Own"
  by (auto simp: status_step_def)

lemma thread_step_other:
  assumes ph: "phase_inv s" and inv: "\<And>t. cl_thread_inv s t" and step: "cl_step t c s = Some s'" and ne: "t' \<noteq> t"
  shows "cl_thread_inv s' t'"
proof -
  note o = thread_other [OF inv]
  show ?thesis
  proof (cases "cl_pcs s t")
    case C_Own
    have "compiling_ee (lock s) \<noteq> Some t'" using inv [of t'] phase_own [OF ph C_Own] by (auto simp: cl_thread_inv_def)
    then show ?thesis
      using step C_Own ne phase_own [OF ph C_Own] by (cases "reentrant (lock s)") (auto simp: cl_step_def intro!: o)
  next
    case (V_Set st)
    then have "t \<in> active s" "final st" using inv [of t] by (simp_all add: cl_thread_inv_def)
    moreover have "cl_pcs s t' \<noteq> C_Own" using phase_active [OF ph \<open>t \<in> active s\<close>] ne by auto
    ultimately show ?thesis using step V_Set ne phase_active [OF ph] by (auto simp: cl_step_def intro!: o)
  next
    case (V_Post n)
    then show ?thesis using step ne by (cases n) (auto simp: cl_step_def intro!: o)
  next
    case C_Idle
    then show ?thesis using step ne by (auto simp: cl_step_def call_defs intro!: o split: if_splits cl_call.splits)
  qed (use step ne in \<open>auto simp: cl_step_def intro!: o split: if_splits\<close>)
qed

text \<open>A step that changes nothing but the program counter of the thread, and the count of waiting threads.\<close>

lemma thread_goto:
  assumes "cl_thread_inv s t" "cl_pcs s' t = p" "results s' t = results s t" "reentrant (lock s') = reentrant (lock s)"
    and "active s' = active s" "compiling_ee (lock s') = compiling_ee (lock s)" "winners s' = winners s"
    and "status (lock s') = status (lock s)" "cl_pc_ok p (status (lock s)) (t \<in> active s) (compiling_ee (lock s) = Some t)"
    and "t \<in> active s \<Longrightarrow> \<not> reentrant (lock s) \<Longrightarrow> p = C_Idle \<or> leaving p"
  shows "cl_thread_inv s' t"
  using assms(1,9,10) unfolding cl_thread_inv_def assms(2-8) by (auto split: if_splits)

lemma thread_return:
  assumes "cl_thread_inv s t" "cl_pcs s' t = C_Idle" "results s' t = Some r" "reentrant (lock s') = reentrant (lock s)"
    and "active s' = active s" "compiling_ee (lock s') = compiling_ee (lock s)" "winners s' = winners s"
    and "status (lock s') = status (lock s)" "result_ok (Some r) (status (lock s)) (t \<in> set (winners s)) (reentrant (lock s))"
  shows "cl_thread_inv s' t"
  using assms(1,9) unfolding cl_thread_inv_def assms(2-8) by (auto split: if_splits)

lemma thread_step_self:
  assumes ph: "phase_inv s" and inv: "cl_thread_inv s t" and step: "cl_step t c s = Some s'"
  shows "cl_thread_inv s' t"
proof -
  note goto = thread_goto [OF inv] and return = thread_return [OF inv]
  have noted: "t \<in> set (winners s) \<and> reentrant (lock s)" if "compiling_ee (lock s) = Some t" using inv that by (simp add: cl_thread_inv_def)
  have ok: "cl_pc_ok (cl_pcs s t) (status (lock s)) (t \<in> active s) (compiling_ee (lock s) = Some t)"
    using inv by (simp add: cl_thread_inv_def)
  have act: "reentrant (lock s) \<and> compiling_ee (lock s) = Some t"
    if "t \<in> active s" "cl_pcs s t \<noteq> C_Idle" "\<not> leaving (cl_pcs s t)"
    using inv that by (auto simp: cl_thread_inv_def split: if_splits)
  show ?thesis
  proof (cases "cl_pcs s t")
    case C_Idle
    show ?thesis
    proof (cases c)
      case Enter
      then have "\<not> (t \<in> active s \<and> \<not> reentrant (lock s))" "s' = cl_goto s t C_Read"
        using step C_Idle by (auto simp: cl_step_def call_defs split: if_splits)
      then show ?thesis by (auto intro!: goto)
    next
      case (Leave st)
      then have "t \<in> active s" "final st" "s' = cl_goto s t (V_Set st)"
        using step C_Idle by (auto simp: cl_step_def call_defs final_def split: if_splits)
      then show ?thesis by (auto intro!: goto)
    qed
  next
    case C_Read
    show ?thesis
    proof (cases "final (status (lock s))")
      case True
      then show ?thesis using step C_Read above_final [OF ph] by (auto simp: cl_step_def intro!: return)
    next
      case False
      then show ?thesis using step C_Read above_final [OF ph] act by (auto simp: cl_step_def intro!: goto)
    qed
  next
    case C_Cas
    show ?thesis
    proof (cases "status (lock s) = STATUS_INITIAL")
      case True
      then have "t \<notin> active s" using ph by (auto simp: phase_inv_def)
      then show ?thesis
        using step C_Cas True inv result_ok_step [of _ STATUS_INITIAL _ _ STATUS_COMPILING]
        by (auto simp: cl_step_def cl_thread_inv_def)
    next
      case False
      then show ?thesis using step C_Cas act by (auto simp: cl_step_def intro!: goto)
    qed
  next
    case C_Own
    then show ?thesis using step inv by (cases "reentrant (lock s)") (auto simp: cl_step_def cl_thread_inv_def)
  next
    case C_Inc
    then show ?thesis using step ok act by (auto simp: cl_step_def intro!: goto)
  next
    case C_Loop
    then show ?thesis
      using step ok act phase_compiling [OF ph]
      by (cases "status (lock s) = STATUS_COMPILING"; cases "reentrant (lock s)") (auto simp: cl_step_def intro!: goto)
  next
    case C_Ee
    then show ?thesis
      using step ok act by (cases "compiling_ee (lock s) = Some t") (auto simp: cl_step_def intro!: goto)
  next
    case C_DecRe
    then show ?thesis using step ok noted by (auto simp: cl_step_def intro!: return)
  next
    case C_Sem
    then show ?thesis using step ok by (auto simp: cl_step_def intro!: goto split: if_splits)
  next
    case C_Dec
    then show ?thesis using step ok act by (auto simp: cl_step_def intro!: goto)
  next
    case C_Ret
    then show ?thesis using step ok by (auto simp: cl_step_def intro!: return)
  next
    case (V_Set st)
    then have a: "t \<in> active s" "final st" using ok by simp_all
    then have "result_ok (results s t) st True (reentrant (lock s))"
      using inv phase_active [OF ph a(1)] result_ok_step [of _ STATUS_COMPILING True _ st V_Read True] by (simp add: cl_thread_inv_def)
    then show ?thesis
      using step V_Set inv phase_active [OF ph a(1)] a by (auto simp: cl_step_def cl_thread_inv_def)
  next
    case V_Read
    then show ?thesis using step ok by (auto simp: cl_step_def intro!: goto)
  next
    case (V_Post n)
    then show ?thesis using step ok by (cases n) (auto simp: cl_step_def intro!: goto)
  qed
qed

section \<open>Counts\<close>

definition nr :: "(cl_pc \<Rightarrow> bool) \<Rightarrow> cl_state \<Rightarrow> nat" where
  "nr Q s = card {t. Q (cl_pcs s t)}"

text \<open>Once the result is there, whoever may sleep finds a post: it is done, or the leaving thread will do it.\<close>

definition cl_enough :: "cl_state \<Rightarrow> bool" where
  "cl_enough s \<longleftrightarrow> (\<exists>t. cl_pcs s t = V_Read) \<or> (\<exists>t n. cl_pcs s t = V_Post n \<and> nr sleepy s \<le> wait_sem (lock s) + n) \<or>
     nr sleepy s \<le> wait_sem (lock s)"

definition count_inv :: "cl_state \<Rightarrow> bool" where
  "count_inv s \<longleftrightarrow> finite {t. cl_pcs s t \<noteq> C_Idle} \<and> nr_waiting (lock s) = nr cl_counted s \<and>
     (final (status (lock s)) \<longrightarrow> cl_enough s)"

lemma cl_enough_mono:
  assumes "cl_enough s" "\<And>t. leaving (cl_pcs s t) \<Longrightarrow> cl_pcs s' t = cl_pcs s t"
    and "nr sleepy s' + wait_sem (lock s) \<le> nr sleepy s + wait_sem (lock s')"
  shows "cl_enough s'"
  using assms(1) unfolding cl_enough_def
proof (elim disjE exE conjE)
  fix t assume "cl_pcs s t = V_Read"
  then have "cl_pcs s' t = V_Read" using assms(2) [of t] by simp
  then show "(\<exists>t. cl_pcs s' t = V_Read) \<or> (\<exists>t n. cl_pcs s' t = V_Post n \<and> nr sleepy s' \<le> wait_sem (lock s') + n) \<or>
     nr sleepy s' \<le> wait_sem (lock s')" by blast
next
  fix t n assume "cl_pcs s t = V_Post n" "nr sleepy s \<le> wait_sem (lock s) + n"
  then have "cl_pcs s' t = V_Post n" "nr sleepy s' \<le> wait_sem (lock s') + n" using assms(2) [of t] assms(3) by simp_all
  then show "(\<exists>t. cl_pcs s' t = V_Read) \<or> (\<exists>t n. cl_pcs s' t = V_Post n \<and> nr sleepy s' \<le> wait_sem (lock s') + n) \<or>
     nr sleepy s' \<le> wait_sem (lock s')" by blast
next
  assume "nr sleepy s \<le> wait_sem (lock s)"
  then show "(\<exists>t. cl_pcs s' t = V_Read) \<or> (\<exists>t n. cl_pcs s' t = V_Post n \<and> nr sleepy s' \<le> wait_sem (lock s') + n) \<or>
     nr sleepy s' \<le> wait_sem (lock s')" using assms(3) by simp
qed

lemma nr_update:
  assumes "finite {t. cl_pcs s t \<noteq> C_Idle}" "cl_pcs s' = (cl_pcs s)(t := p)" "\<not> Q C_Idle"
  shows "nr Q s' = (if Q p then 1 else 0) + nr Q s - (if Q (cl_pcs s t) then 1 else 0)"
proof -
  let ?A = "{x. Q (cl_pcs s x)}"
  have fin: "finite ?A" by (rule finite_subset [OF _ assms(1)]) (use assms(3) in auto)
  have "{x. Q (cl_pcs s' x)} = (if Q p then insert t (?A - {t}) else ?A - {t})" using assms(2) by auto
  then show ?thesis using fin unfolding nr_def by (auto simp: card_insert_if card_Diff_singleton)
qed

lemma nr_pos:
  assumes "finite {t. cl_pcs s t \<noteq> C_Idle}" "Q (cl_pcs s t)" "\<not> Q C_Idle"
  shows "0 < nr Q s"
proof -
  have "finite {x. Q (cl_pcs s x)}" by (rule finite_subset [OF _ assms(1)]) (use assms(3) in auto)
  then show ?thesis unfolding nr_def using assms(2) by (auto simp: card_gt_0_iff)
qed

lemma sleepy_counted:
  assumes "finite {t. cl_pcs s t \<noteq> C_Idle}"
  shows "nr sleepy s \<le> nr cl_counted s"
proof -
  have "finite {x. cl_counted (cl_pcs s x)}" by (rule finite_subset [OF _ assms]) auto
  moreover have "cl_counted p" if "sleepy p" for p using that by (cases p) auto
  ultimately show ?thesis unfolding nr_def by (intro card_mono) auto
qed

lemma count_other:
  assumes inv: "count_inv s" and "cl_pcs s' = (cl_pcs s)(t := p)" "status (lock s') = status (lock s)"
    and "wait_sem (lock s') = wait_sem (lock s)" "\<not> leaving p" "\<not> leaving (cl_pcs s t)" "sleepy p \<Longrightarrow> sleepy (cl_pcs s t) \<or> \<not> final (status (lock s))"
    and "nr_waiting (lock s') = (if cl_counted p then 1 else 0) + nr_waiting (lock s) - (if cl_counted (cl_pcs s t) then 1 else 0)"
  shows "count_inv s'"
proof -
  have fin: "finite {t. cl_pcs s t \<noteq> C_Idle}" using inv by (simp add: count_inv_def)
  have fin': "finite {t. cl_pcs s' t \<noteq> C_Idle}"
    by (rule finite_subset [OF _ finite.insertI [OF fin, of t]]) (use assms(2) in auto)
  have same: "cl_pcs s' t' = cl_pcs s t'" if "leaving (cl_pcs s t')" for t' using that assms(2,6) by (cases "t' = t") auto
  have le: "nr sleepy s' \<le> nr sleepy s" if "final (status (lock s))"
    using nr_update [OF fin assms(2), of sleepy] that assms(7) nr_pos [OF fin, of sleepy t] by (auto split: if_splits)
  have "cl_enough s'" if "final (status (lock s))"
    using cl_enough_mono [of s s'] inv le [OF that] same assms(4) that by (simp add: count_inv_def)
  then show ?thesis
    using fin' inv assms(3,4,8) nr_update [OF fin assms(2), of cl_counted] by (simp add: count_inv_def)
qed

lemma count_step:
  assumes ph: "phase_inv s" and inv: "cl_thread_inv s t" and ct: "count_inv s" and step: "cl_step t c s = Some s'"
  shows "count_inv s'"
proof -
  have fin: "finite {t. cl_pcs s t \<noteq> C_Idle}" using ct by (simp add: count_inv_def)
  have fin': "finite {t'. ((cl_pcs s)(t := p)) t' \<noteq> C_Idle}" for p
    by (rule finite_subset [OF _ finite.insertI [OF fin, of t]]) auto
  note upd = nr_update [OF fin, where t = t]
  show ?thesis
  proof (cases "cl_pcs s t")
    case C_Idle
    show ?thesis
    proof (cases c)
      case Enter
      then show ?thesis
        using step C_Idle
        by (auto simp: cl_step_def call_defs intro!: count_other [OF ct, where t = t] split: if_splits)
    next
      case (Leave st)
      then have s': "t \<in> active s" "s' = cl_goto s t (V_Set st)"
        using step C_Idle by (auto simp: cl_step_def call_defs split: if_splits)
      have "status (lock s) = STATUS_COMPILING" using phase_active [OF ph s'(1)] by simp
      then show ?thesis
        using ct C_Idle upd [of s' "V_Set st" cl_counted] fin' unfolding count_inv_def s'(2) by simp
    qed
  next
    case C_Cas
    show ?thesis
    proof (cases "status (lock s) = STATUS_INITIAL")
      case True
      then have s': "s' = cl_goto (s\<lparr>lock := (lock s)\<lparr>status := STATUS_COMPILING\<rparr>\<rparr>) t C_Own"
        using step C_Cas by (simp add: cl_step_def)
      then show ?thesis using ct C_Cas upd [of s' C_Own cl_counted] fin' unfolding count_inv_def s' by simp
    next
      case False
      then show ?thesis using step C_Cas by (auto simp: cl_step_def intro!: count_other [OF ct, where t = t])
    qed
  next
    case C_Sem
    then have s': "0 < wait_sem (lock s)" "s' = cl_goto (s\<lparr>lock := (lock s)\<lparr>wait_sem := wait_sem (lock s) - 1\<rparr>\<rparr>) t C_Loop"
      using step by (auto simp: cl_step_def split: if_splits)
    have n: "nr sleepy s' = nr sleepy s - 1" "nr cl_counted s' = nr cl_counted s"
      using upd [of s' C_Loop] s'(2) C_Sem by auto
    have "cl_enough s'" if "cl_enough s"
      by (rule cl_enough_mono [OF that]) (use n s' C_Sem nr_pos [OF fin, of sleepy t] in auto)
    then show ?thesis using ct n s' fin' by (simp add: count_inv_def)
  next
    case (V_Set st)
    then have s': "s' = cl_goto (s\<lparr>lock := (lock s)\<lparr>status := st\<rparr>, active := active s - {t}\<rparr>) t V_Read"
      using step by (simp add: cl_step_def)
    then show ?thesis using ct V_Set upd [of s' V_Read cl_counted] fin' unfolding count_inv_def s' cl_enough_def by auto
  next
    case V_Read
    then have s': "s' = cl_goto s t (V_Post (nr_waiting (lock s)))" using step by (simp add: cl_step_def)
    have "nr sleepy s' = nr sleepy s" "nr cl_counted s' = nr cl_counted s" using upd [of s' "V_Post (nr_waiting (lock s))"] s' V_Read by auto
    then show ?thesis using ct fin' sleepy_counted [OF fin] unfolding count_inv_def s' cl_enough_def by (auto intro: trans_le_add2)
  next
    case (V_Post n)
    have ex: "(\<exists>t'. t' \<noteq> t \<and> cl_pcs s t' = V_Read) \<or> (\<exists>t' k. t' \<noteq> t \<and> cl_pcs s t' = V_Post k \<and> nr sleepy s \<le> wait_sem (lock s) + k) \<or>
        nr sleepy s \<le> wait_sem (lock s) + n"
    proof -
      have "cl_enough s" using ct inv V_Post by (simp add: count_inv_def cl_thread_inv_def)
      then consider t' where "cl_pcs s t' = V_Read" | t' k where "cl_pcs s t' = V_Post k" "nr sleepy s \<le> wait_sem (lock s) + k" |
          "nr sleepy s \<le> wait_sem (lock s)"
        unfolding cl_enough_def by blast
      then show ?thesis
      proof cases
        case (1 t')
        then have "t' \<noteq> t" using V_Post by auto
        then show ?thesis using 1 by blast
      next
        case (2 t' k)
        then show ?thesis using V_Post by (cases "t' = t") auto
      qed simp
    qed
    show ?thesis
    proof (cases n)
      case 0
      then have s': "s' = cl_goto s t C_Idle" using step V_Post by (simp add: cl_step_def)
      have "nr sleepy s' = nr sleepy s" "nr cl_counted s' = nr cl_counted s" using upd [of s' C_Idle] s' V_Post by auto
      then show ?thesis using ct ex 0 fin' unfolding count_inv_def cl_enough_def s' by auto
    next
      case (Suc k)
      then have s': "s' = cl_goto (s\<lparr>lock := (lock s)\<lparr>wait_sem := wait_sem (lock s) + 1\<rparr>\<rparr>) t (V_Post k)"
        using step V_Post by (simp add: cl_step_def)
      have "nr sleepy s' = nr sleepy s" "nr cl_counted s' = nr cl_counted s" using upd [of s' "V_Post k"] s' V_Post by auto
      then show ?thesis using ct ex Suc fin' unfolding count_inv_def cl_enough_def s' by auto
    qed
  next
    case C_Own
    then show ?thesis
      using step by (cases "reentrant (lock s)") (auto simp: cl_step_def intro!: count_other [OF ct, where t = t])
  qed (use step inv in \<open>auto simp: cl_step_def cl_thread_inv_def intro!: count_other [OF ct, where t = t] split: if_splits\<close>)
qed

section \<open>The properties\<close>

lemma cl_step_reentrant: "cl_step t c s = Some s' \<Longrightarrow> reentrant (lock s') = reentrant (lock s)"
  by (cases "cl_pcs s t")
    (auto simp: cl_step_def call_defs split: if_splits cl_call.splits nat.splits elim!: compile_lock_leave.elims)

lemma cl_reachable_inv:
  assumes "cl_reachable re s"
  shows "phase_inv s \<and> (\<forall>t. cl_thread_inv s t) \<and> count_inv s \<and> reentrant (lock s) = re"
  using assms
proof (induction rule: cl_reachable.induct)
  case start
  show ?case
    by (simp add: cl_init_def compile_lock_init_def phase_inv_def cl_thread_inv_def count_inv_def nr_def)
next
  case (step s t c s')
  have "cl_thread_inv s' t'" for t'
    using step thread_step_self [of s t c s'] thread_step_other [of s t c s' t'] by (cases "t' = t") auto
  then show ?case using step phase_step [of s t c s'] count_step [of s t c s'] cl_step_reentrant [of t c s s'] by simp
qed

fun cl_run :: "(tid \<times> cl_call) list \<Rightarrow> cl_state \<Rightarrow> cl_state option" where
  "cl_run [] s = Some s"
| "cl_run ((t, c) # tcs) s = (case cl_step t c s of None \<Rightarrow> None | Some s' \<Rightarrow> cl_run tcs s')"

lemma cl_run_reachable: "cl_reachable re s \<Longrightarrow> cl_run tcs s = Some s' \<Longrightarrow> cl_reachable re s'"
  by (induction tcs s rule: cl_run.induct) (auto split: option.splits intro: cl_reachable.step)

text \<open>C4: A class is initialised once. At most one call of \<open>vm_class_init\<close> ever goes on to initialise the class, whatever
  the interleaving, and while the class is initialised exactly that thread is at it. Every other call that has returned
  did so after the initialisation and with its result: zero when it succeeded and an error when it failed. The one
  exception is the initialising thread itself on a reentrant lock: when it enters again it gets zero at once. The lock
  tells it so with \<open>STATUS_COMPILED_OK\<close> and not with the \<open>STATUS_REENTER\<close> of its documentation, which makes no difference
  to \<open>vm_class_init\<close>.\<close>

theorem compile_lock_once:
  assumes "cl_reachable re s"
  shows "length (winners s) \<le> 1 \<and> active s \<subseteq> set (winners s) \<and>
    (\<forall>t st. results s t = Some st \<longrightarrow>
       (case vm_class_init_outcome st of
          Initialise \<Rightarrow> t \<in> set (winners s)
        | Returns n \<Rightarrow> n = 0 \<and> status (lock s) = STATUS_COMPILED_OK \<or> n = -1 \<and> status (lock s) = STATUS_COMPILED_ERRONOUS \<or>
            n = 0 \<and> re \<and> t \<in> set (winners s)))"
proof -
  have ph: "phase_inv s" and th: "\<And>t. cl_thread_inv s t" and re: "reentrant (lock s) = re"
    using cl_reachable_inv [OF assms] by auto
  have "length (winners s) \<le> 1 \<and> active s \<subseteq> set (winners s)" using ph by (auto simp: phase_inv_def)
  moreover have "case vm_class_init_outcome st of
          Initialise \<Rightarrow> t \<in> set (winners s)
        | Returns n \<Rightarrow> n = 0 \<and> status (lock s) = STATUS_COMPILED_OK \<or> n = -1 \<and> status (lock s) = STATUS_COMPILED_ERRONOUS \<or>
            n = 0 \<and> re \<and> t \<in> set (winners s)" if "results s t = Some st" for t st
  proof -
    have "(st = STATUS_COMPILING \<or> st = STATUS_COMPILED_OK \<and> re) \<and> t \<in> set (winners s) \<or> final st \<and> status (lock s) = st"
      using th [of t] that re by (auto simp: cl_thread_inv_def)
    then show ?thesis by (auto simp: vm_class_init_outcome_def final_def)
  qed
  ultimately show ?thesis by blast
qed

definition two_threads :: "(tid \<times> cl_call) list" where
  "two_threads = replicate 4 (0, Enter) @ replicate 6 (1, Enter)"

theorem compile_lock_once_witness:
  "\<exists>s. cl_run (two_threads @ replicate 5 (0, Leave STATUS_COMPILED_OK) @ replicate 4 (1, Enter)) (cl_init True) = Some s \<and>
     results s 0 = Some STATUS_COMPILING \<and> results s 1 = Some STATUS_COMPILED_OK \<and> length (winners s) \<le> 1"
proof -
  obtain s where s: "cl_run (two_threads @ replicate 5 (0, Leave STATUS_COMPILED_OK) @ replicate 4 (1, Enter)) (cl_init True) = Some s"
      "results s 0 = Some STATUS_COMPILING" "results s 1 = Some STATUS_COMPILED_OK"
    by (simp add: two_threads_def numeral_eq_Suc cl_step_def call_defs cl_init_def compile_lock_init_def)
  then show ?thesis using compile_lock_once [OF cl_run_reachable [OF cl_reachable.start s(1)]] by auto
qed

text \<open>C31: No waiting thread is forgotten. When no thread can move by itself, every thread being out of the lock or
  asleep on a semaphore that is zero, a thread sleeps only while another one compiles, which is out of the lock and
  will leave it; once the status is final nobody sleeps.\<close>

theorem compile_lock_no_lost_wakeup:
  assumes "cl_reachable re s" "\<And>t. cl_pcs s t = C_Idle \<or> cl_pcs s t = C_Sem \<and> wait_sem (lock s) = 0"
    and "cl_pcs s t = C_Sem"
  shows "status (lock s) = STATUS_COMPILING \<and> (\<exists>w. w \<noteq> t \<and> active s = {w} \<and> cl_pcs s w = C_Idle)"
proof -
  have ph: "phase_inv s" and th: "\<And>t. cl_thread_inv s t" and ct: "count_inv s" using cl_reachable_inv [OF assms(1)] by auto
  have sem: "wait_sem (lock s) = 0" using assms(2) [of t] assms(3) by simp
  have no: "cl_pcs s t' \<noteq> V_Read" "cl_pcs s t' \<noteq> V_Post n" "\<not> owning (cl_pcs s t')" for t' n
    using assms(2) [of t'] by auto
  have "0 < nr sleepy s" using ct nr_pos [of s sleepy t] assms(3) by (simp add: count_inv_def)
  then have "\<not> final (status (lock s))" using ct sem no by (auto simp: count_inv_def cl_enough_def)
  moreover have "status (lock s) \<noteq> STATUS_INITIAL" using th [of t] assms(3) by (simp add: cl_thread_inv_def)
  ultimately have "status (lock s) = STATUS_COMPILING" using phase_compiling [OF ph] by blast
  moreover have "\<exists>w. active s = {w}" using ph calculation no by (auto simp: phase_inv_def) (metis owning.simps(1))
  then obtain w where w: "active s = {w}" by blast
  moreover have "w \<noteq> t" using th [of t] assms(3) w by (auto simp: cl_thread_inv_def)
  moreover have "cl_pcs s w = C_Idle" using th [of w] assms(2) [of w] w by (auto simp: cl_thread_inv_def)
  ultimately show ?thesis by blast
qed

theorem compile_lock_no_lost_wakeup_witness:
  "\<exists>s. cl_run two_threads (cl_init True) = Some s \<and> cl_pcs s 1 = C_Sem \<and>
     status (lock s) = STATUS_COMPILING \<and> (\<exists>w. w \<noteq> 1 \<and> active s = {w} \<and> cl_pcs s w = C_Idle)"
proof -
  obtain s where s: "cl_run two_threads (cl_init True) = Some s" "cl_pcs s = (\<lambda>_. C_Idle)(0 := C_Idle, 1 := C_Sem)"
      "wait_sem (lock s) = 0"
    by (simp add: two_threads_def numeral_eq_Suc cl_step_def call_defs cl_init_def compile_lock_init_def)
  have "cl_pcs s t = C_Idle \<or> cl_pcs s t = C_Sem \<and> wait_sem (lock s) = 0" for t using s(2,3) by auto
  moreover have "cl_pcs s 1 = C_Sem" using s(2) by simp
  ultimately show ?thesis
    using compile_lock_no_lost_wakeup [OF cl_run_reachable [OF cl_reachable.start s(1)], of 1] s(1) by blast
qed

end
