(* ===== verification/Interval.thy ===== *)
theory Interval
  imports Jato_Prelude
begin

text \<open>
  Live intervals of the register allocator, \<open>jit/interval.c\<close> and \<open>include/jit/vars.h\<close>: the ranges of LIR
  positions where a variable is live, their queries, the insertion of a range, the split of an interval and the
  expiry of ranges. Lists of the source are lists. Positions are natural numbers: the source keeps them in
  \<open>unsigned int\<close>, and a method has far fewer than \<open>2^31\<close> instructions. A failed assertion, a call of
  \<open>error\<close> and the use of the first range of an empty list are \<^const>\<open>None\<close>.
\<close>

section \<open>Model\<close>

record live_range =
  r_start :: nat
  r_end :: nat

definition USE_KIND_INPUT :: i32 where "USE_KIND_INPUT = 1"
definition USE_KIND_OUTPUT :: i32 where "USE_KIND_OUTPUT = 2"
definition USE_KIND_INVALID :: i32 where "USE_KIND_INVALID = 3"

text \<open>A use position: the position of its instruction and the kind of use. The interval it belongs to is the
  one that has it in its list.\<close>

record use_position =
  use_lir_pos :: nat
  use_kind :: i32

definition in_range :: "live_range \<Rightarrow> nat \<Rightarrow> bool" where
  "in_range rg offset \<longleftrightarrow> offset \<ge> r_start rg \<and> offset < r_end rg"

definition ranges_intersect :: "live_range \<Rightarrow> live_range \<Rightarrow> bool" where
  "ranges_intersect range1 range2 \<longleftrightarrow> r_start range2 < r_end range1 \<and> r_start range1 < r_end range2"

definition range_intersection_start :: "live_range \<Rightarrow> live_range \<Rightarrow> nat option" where
  "range_intersection_start range1 range2 =
     do { c_assert (ranges_intersect range1 range2);
          Some (if r_start range1 > r_start range2 then r_start range1 else r_start range2) }"

record live_interval =
  range_list :: "live_range list"
  expired_range_list :: "live_range list"
  use_positions :: "use_position list"
  need_spill :: bool
  need_reload :: bool
  fixed_reg :: bool
  it_reg :: "nat option"

definition alloc_interval :: live_interval where
  "alloc_interval = \<lparr>range_list = [], expired_range_list = [], use_positions = [], need_spill = False,
     need_reload = False, fixed_reg = False, it_reg = None\<rparr>"

definition interval_is_empty :: "live_interval \<Rightarrow> bool" where
  "interval_is_empty it \<longleftrightarrow> range_list it = []"

definition interval_start :: "live_interval \<Rightarrow> nat option" where
  "interval_start it = (case range_list it of [] \<Rightarrow> None | r # _ \<Rightarrow> Some (r_start r))"

definition interval_end :: "live_interval \<Rightarrow> nat option" where
  "interval_end it = (if range_list it = [] then None else Some (r_end (last (range_list it))))"

text \<open>The loop of \<open>interval_range_at\<close>.\<close>

fun range_from :: "live_range list \<Rightarrow> nat \<Rightarrow> live_range option" where
  "range_from [] pos = None"
| "range_from (rg # rs) pos =
     (if pos \<ge> r_start rg then if in_range rg pos then Some rg else range_from rs pos else None)"

definition interval_range_at :: "live_interval \<Rightarrow> nat \<Rightarrow> live_range option option" where
  "interval_range_at it pos =
     do { start \<leftarrow> interval_start it;
          finish \<leftarrow> interval_end it;
          if pos < start \<or> pos \<ge> finish then Some None else Some (range_from (range_list it) pos) }"

definition interval_covers :: "live_interval \<Rightarrow> nat \<Rightarrow> bool option" where
  "interval_covers it pos = map_option (\<lambda>r. r \<noteq> None) (interval_range_at it pos)"

text \<open>The children of an interval, in the order of the chain.\<close>

fun interval_child_at :: "live_interval list \<Rightarrow> nat \<Rightarrow> live_interval option option" where
  "interval_child_at [] pos = Some None"
| "interval_child_at (it # its) pos =
     do { rg \<leftarrow> interval_range_at it pos;
          if rg \<noteq> None then Some (Some it) else interval_child_at its pos }"

text \<open>The third loop of the intersection: the first pair of ranges that overlap.\<close>

fun meet :: "live_range list \<Rightarrow> live_range list \<Rightarrow> (live_range \<times> live_range) option" where
  "meet (r1 # rs1) (r2 # rs2) =
     (if ranges_intersect r1 r2 then Some (r1, r2)
      else if r_start r1 < r_start r2 then meet rs1 (r2 # rs2) else meet (r1 # rs1) rs2)"
| "meet _ _ = None"

definition skip_before :: "live_range list \<Rightarrow> live_range \<Rightarrow> live_range list" where
  "skip_before rs r = dropWhile (\<lambda>x. r_end x \<le> r_start r) rs"

text \<open>The loops of both intersections: the second one reads the first list, which must not have run out.\<close>

definition first_overlap :: "live_range list \<Rightarrow> live_range list \<Rightarrow> (live_range \<times> live_range) option option" where
  "first_overlap rs1 rs2 =
     (case rs2 of
        [] \<Rightarrow> None
      | r2 # _ \<Rightarrow> (case skip_before rs1 r2 of
                      [] \<Rightarrow> None
                    | r1 # rs1' \<Rightarrow> Some (meet (r1 # rs1') (skip_before rs2 r1))))"

text \<open>The bounds are read before the test for an empty interval, which has none.\<close>

definition intervals_intersect :: "live_interval \<Rightarrow> live_interval \<Rightarrow> bool option" where
  "intervals_intersect it1 it2 =
     do { s1 \<leftarrow> interval_start it1; e2 \<leftarrow> interval_end it2; s2 \<leftarrow> interval_start it2; e1 \<leftarrow> interval_end it1;
          if s1 \<ge> e2 \<or> s2 \<ge> e1 then Some False
          else if interval_is_empty it1 \<or> interval_is_empty it2 then Some False
          else do { p \<leftarrow> first_overlap (range_list it1) (range_list it2); Some (p \<noteq> None) } }"

definition interval_intersection_start :: "live_interval \<Rightarrow> live_interval \<Rightarrow> nat option" where
  "interval_intersection_start it1 it2 =
     do { c_assert (\<not> interval_is_empty it1 \<and> \<not> interval_is_empty it2);
          p \<leftarrow> first_overlap (range_list it1) (range_list it2);
          (case p of None \<Rightarrow> None | Some (r1, r2) \<Rightarrow> range_intersection_start r1 r2) }"

text \<open>The two loops of \<open>interval_add_range\<close>: merge into a range that the new one touches, or insert it.\<close>

fun merge_range :: "live_range list \<Rightarrow> nat \<Rightarrow> nat \<Rightarrow> live_range list option" where
  "merge_range [] start finish = None"
| "merge_range (rg # rs) start finish =
     (if r_start rg > finish then None
      else if r_start rg \<le> finish \<and> start \<le> r_end rg
      then Some (\<lparr>r_start = min start (r_start rg), r_end = max finish (r_end rg)\<rparr> # rs)
      else map_option (Cons rg) (merge_range rs start finish))"

fun insert_range :: "live_range list \<Rightarrow> live_range \<Rightarrow> live_range list" where
  "insert_range [] new = [new]"
| "insert_range (rg # rs) new = (if r_start new > r_start rg then rg # insert_range rs new else new # rg # rs)"

definition add_range :: "bool \<Rightarrow> live_range list \<Rightarrow> nat \<Rightarrow> nat \<Rightarrow> int \<times> live_range list" where
  "add_range mem rs start finish =
     (case merge_range rs start finish of
        Some rs' \<Rightarrow> (0, rs')
      | None \<Rightarrow> if mem then (0, insert_range rs \<lparr>r_start = start, r_end = finish\<rparr>) else (- ENOMEM, rs))"

definition interval_add_range :: "bool \<Rightarrow> live_interval \<Rightarrow> nat \<Rightarrow> nat \<Rightarrow> int \<times> live_interval" where
  "interval_add_range mem it start finish =
     (case add_range mem (range_list it) start finish of (err, rs) \<Rightarrow> (err, it\<lparr>range_list := rs\<rparr>))"

definition get_lir_positions :: "use_position \<Rightarrow> nat list option" where
  "get_lir_positions u =
     do { c_assert (use_kind u \<noteq> 0);
          Some ((if use_kind u AND USE_KIND_INPUT \<noteq> 0 then [use_lir_pos u] else []) @
                (if use_kind u AND USE_KIND_OUTPUT \<noteq> 0 then [use_lir_pos u + 1] else [])) }"

definition LONG_MAX :: nat where
  "LONG_MAX = 2 ^ 63 - 1"

fun min_pos_from :: "nat list \<Rightarrow> nat \<Rightarrow> nat \<Rightarrow> nat" where
  "min_pos_from [] pos m = m"
| "min_pos_from (p # ps) pos m =
     (if p < pos then min_pos_from ps pos m else if p < m then min_pos_from ps pos p else min_pos_from ps pos m)"

fun next_use_loop :: "use_position list \<Rightarrow> nat \<Rightarrow> nat \<Rightarrow> nat option" where
  "next_use_loop [] pos m = Some m"
| "next_use_loop (u # us) pos m =
     do { ps \<leftarrow> get_lir_positions u; next_use_loop us pos (min_pos_from ps pos m) }"

definition next_use_pos :: "live_interval \<Rightarrow> nat \<Rightarrow> nat option" where
  "next_use_pos it pos = next_use_loop (use_positions it) pos LONG_MAX"

definition first_use_pos :: "live_interval \<Rightarrow> nat option" where
  "first_use_pos it = next_use_pos it 0"

text \<open>The split of the ranges: an error code, the ranges before the position and those from it on. A position
  that lies in no range ends in \<open>error\<close>, which does not return.\<close>

fun split_ranges :: "bool \<Rightarrow> live_range list \<Rightarrow> nat \<Rightarrow> (int \<times> live_range list \<times> live_range list) option" where
  "split_ranges mem [] pos = None"
| "split_ranges mem (this # rs) pos =
     (if \<not> in_range this pos then map_option (\<lambda>(err, old, new). (err, this # old, new)) (split_ranges mem rs pos)
      else if r_start this = pos then Some (0, [], this # rs)
      else if mem then Some (0, [this\<lparr>r_end := pos\<rparr>], \<lparr>r_start = pos, r_end = r_end this\<rparr> # rs)
      else Some (- ENOMEM, this # rs, []))"

text \<open>Every use position from the position on moves to the front of the list of the new interval. The first
  element is read even of a kind that yields no position.\<close>

fun split_uses ::
  "use_position list \<Rightarrow> nat \<Rightarrow> use_position list \<Rightarrow> (use_position list \<times> use_position list) option" where
  "split_uses [] pos new = Some ([], new)"
| "split_uses (this # us) pos new =
     do { use_pos \<leftarrow> get_lir_positions this;
          first \<leftarrow> read_at use_pos 0;
          if first < pos then map_option (\<lambda>(old, new). (this # old, new)) (split_uses us pos new)
          else split_uses us pos (this # new) }"

text \<open>The interval that stays and the new one, which the source links behind it as its next child. When the
  range cannot be allocated the source calls \<open>free\<close> on memory of the arena, which is undefined.\<close>

definition split_interval_at ::
  "bool \<Rightarrow> bool \<Rightarrow> live_interval \<Rightarrow> nat \<Rightarrow> (live_interval \<times> live_interval option) option" where
  "split_interval_at mem_it mem_range interval pos =
     do { s \<leftarrow> interval_start interval;
          e \<leftarrow> interval_end interval;
          c_assert (pos > s);
          c_assert (pos < e);
          if \<not> mem_it then Some (interval, None)
          else do {
            (err, old, new) \<leftarrow> split_ranges mem_range (range_list interval) pos;
            c_assert (err = 0);
            (old_uses, new_uses) \<leftarrow> split_uses (use_positions interval) pos [];
            Some (interval\<lparr>range_list := old, use_positions := old_uses\<rparr>,
                  Some (alloc_interval\<lparr>range_list := new, use_positions := new_uses, fixed_reg := fixed_reg interval,
                    it_reg := (if fixed_reg interval then it_reg interval else None)\<rparr>)) } }"

text \<open>The loop of \<open>interval_expire_ranges_before\<close>; a range that is expired goes to the front of the other list.\<close>

fun expire_ranges :: "live_range list \<Rightarrow> live_range list \<Rightarrow> nat \<Rightarrow> (live_range list \<times> live_range list) option" where
  "expire_ranges [] ex pos = None"
| "expire_ranges (rg # rs) ex pos =
     (if in_range rg pos then Some (rg # rs, ex)
      else case rs of
        [] \<Rightarrow> None
      | nxt # _ \<Rightarrow> if pos < r_start nxt then Some (rg # rs, ex) else expire_ranges rs (rg # ex) pos)"

definition interval_expire_ranges_before :: "live_interval \<Rightarrow> nat \<Rightarrow> live_interval option" where
  "interval_expire_ranges_before it pos =
     do { s \<leftarrow> interval_start it;
          e \<leftarrow> interval_end it;
          if pos < s \<or> pos \<ge> e then Some it
          else do { (rs, ex) \<leftarrow> expire_ranges (range_list it) (expired_range_list it) pos;
                    Some (it\<lparr>range_list := rs, expired_range_list := ex\<rparr>) } }"

definition interval_restore_expired_ranges :: "live_interval \<Rightarrow> live_interval" where
  "interval_restore_expired_ranges it =
     it\<lparr>range_list := fold Cons (expired_range_list it) (range_list it), expired_range_list := []\<rparr>"

section \<open>The positions of an interval\<close>

definition range_set :: "live_range \<Rightarrow> nat set" where
  "range_set r = {r_start r ..< r_end r}"

definition cov :: "live_range list \<Rightarrow> nat set" where
  "cov rs = (\<Union>r\<in>set rs. range_set r)"

text \<open>Sorted, disjoint and not empty, as the comment of the structure asks.\<close>

definition ranges_ok :: "live_range list \<Rightarrow> bool" where
  "ranges_ok rs \<longleftrightarrow> sorted_wrt (\<lambda>a b. r_end a \<le> r_start b) rs \<and> (\<forall>r\<in>set rs. r_start r < r_end r)"

lemma cov_simps [simp]: "cov [] = {}" "cov (r # rs) = range_set r \<union> cov rs" "cov (rs @ qs) = cov rs \<union> cov qs"
  by (auto simp: cov_def)

lemma ranges_ok_Nil [simp]: "ranges_ok []"
  by (simp add: ranges_ok_def)

lemma ranges_ok_Cons:
  "ranges_ok (r # rs) \<longleftrightarrow> r_start r < r_end r \<and> ranges_ok rs \<and> (\<forall>x\<in>set rs. r_end r \<le> r_start x)"
  by (auto simp: ranges_ok_def)

lemma cov_above:
  assumes "ranges_ok (r # rs)" "p \<in> cov rs"
  shows "r_end r \<le> p"
  using assms by (fastforce simp: ranges_ok_Cons cov_def range_set_def)

lemma cov_start:
  assumes "ranges_ok (r # rs)"
  shows "r_start r \<in> cov (r # rs)" "p \<in> cov (r # rs) \<Longrightarrow> r_start r \<le> p"
  using assms cov_above [OF assms, of p] by (auto simp: ranges_ok_Cons range_set_def)

lemma cov_below_end:
  assumes "ranges_ok rs" "p \<in> cov rs"
  shows "p < r_end (last rs)"
  using assms
proof (induction rs)
  case (Cons r rs)
  show ?case
  proof (cases "rs = []")
    case True
    then show ?thesis using Cons.prems by (simp add: range_set_def)
  next
    case False
    then have "last rs \<in> set rs" by simp
    then have "r_end r < r_end (last rs)" using Cons.prems(1) by (fastforce simp: ranges_ok_Cons ranges_ok_def)
    then show ?thesis using Cons False by (auto simp: ranges_ok_Cons range_set_def)
  qed
qed simp

lemma range_from_iff:
  "ranges_ok rs \<Longrightarrow> range_from rs p \<noteq> None \<longleftrightarrow> p \<in> cov rs"
proof (induction rs)
  case (Cons r rs)
  then show ?case
    using cov_start(2) [OF Cons.prems, of p] cov_above [OF Cons.prems, of p]
    by (auto simp: in_range_def range_set_def ranges_ok_Cons)
qed simp

lemma interval_covers_iff:
  assumes "ranges_ok (range_list it)" "range_list it \<noteq> []"
  shows "interval_covers it p = Some (p \<in> cov (range_list it))"
proof -
  obtain r rs where rs: "range_list it = r # rs" using assms(2) by (cases "range_list it") auto
  have "p \<notin> cov (range_list it)" if "p < r_start r \<or> r_end (last (range_list it)) \<le> p"
    using that cov_start(2) [of r rs p] cov_below_end [OF assms(1), of p] assms(1) rs by auto
  then show ?thesis
    using range_from_iff [OF assms(1), of p] assms(2) rs
    unfolding interval_covers_def interval_range_at_def interval_start_def interval_end_def by auto
qed

section \<open>Intersection\<close>

definition least_in :: "nat \<Rightarrow> nat set \<Rightarrow> bool" where
  "least_in p A \<longleftrightarrow> p \<in> A \<and> (\<forall>q\<in>A. p \<le> q)"

lemma ranges_intersect_iff:
  assumes "r_start a < r_end a" "r_start b < r_end b"
  shows "ranges_intersect a b \<longleftrightarrow> range_set a \<inter> range_set b \<noteq> {}"
proof
  assume "ranges_intersect a b"
  then have "max (r_start a) (r_start b) \<in> range_set a \<inter> range_set b"
    using assms by (auto simp: ranges_intersect_def range_set_def)
  then show "range_set a \<inter> range_set b \<noteq> {}" by blast
next
  assume "range_set a \<inter> range_set b \<noteq> {}"
  then obtain q where "q \<in> range_set a" "q \<in> range_set b" by blast
  then show "ranges_intersect a b" by (simp add: ranges_intersect_def range_set_def)
qed

lemma meet_correct:
  assumes "ranges_ok rs1" "ranges_ok rs2"
  shows "case meet rs1 rs2 of
      None \<Rightarrow> cov rs1 \<inter> cov rs2 = {}
    | Some (r1, r2) \<Rightarrow> ranges_intersect r1 r2 \<and> least_in (max (r_start r1) (r_start r2)) (cov rs1 \<inter> cov rs2)"
  using assms
proof (induction rs1 rs2 rule: meet.induct)
  case (1 r1 rs1 r2 rs2)
  have ok: "r_start r1 < r_end r1" "r_start r2 < r_end r2" "ranges_ok rs1" "ranges_ok rs2"
    using "1.prems" by (simp_all add: ranges_ok_Cons)
  show ?case
  proof (cases "ranges_intersect r1 r2")
    case True
    have "max (r_start r1) (r_start r2) \<in> range_set r1 \<inter> range_set r2"
      using True ok by (auto simp: ranges_intersect_def range_set_def)
    moreover have "max (r_start r1) (r_start r2) \<le> q" if "q \<in> cov (r1 # rs1) \<inter> cov (r2 # rs2)" for q
      using that cov_start(2) [OF "1.prems"(1), of q] cov_start(2) [OF "1.prems"(2), of q] by simp
    ultimately show ?thesis using True by (auto simp: least_in_def)
  next
    case False
    show ?thesis
    proof (cases "r_start r1 < r_start r2")
      case True
      then have "r_end r1 \<le> r_start r2" using False ok by (auto simp: ranges_intersect_def)
      then have "range_set r1 \<inter> cov (r2 # rs2) = {}" using cov_start(2) [OF "1.prems"(2)] by (fastforce simp: range_set_def)
      then have eq: "cov (r1 # rs1) \<inter> cov (r2 # rs2) = cov rs1 \<inter> cov (r2 # rs2)" by auto
      show ?thesis using "1.IH"(1) [OF False True ok(3) "1.prems"(2)] False True unfolding eq by simp
    next
      case ge: False
      then have "r_end r2 \<le> r_start r1" using False ok by (auto simp: ranges_intersect_def)
      then have "range_set r2 \<inter> cov (r1 # rs1) = {}" using cov_start(2) [OF "1.prems"(1)] by (fastforce simp: range_set_def)
      then have eq: "cov (r1 # rs1) \<inter> cov (r2 # rs2) = cov (r1 # rs1) \<inter> cov rs2" by auto
      show ?thesis using "1.IH"(2) [OF False ge "1.prems"(1) ok(4)] False ge unfolding eq by simp
    qed
  qed
qed auto

lemma skip_before_ok: "ranges_ok rs \<Longrightarrow> ranges_ok (skip_before rs r)"
  unfolding skip_before_def by (induction rs) (auto simp: ranges_ok_Cons)

lemma skip_before_cov:
  assumes "\<And>q. q \<in> A \<Longrightarrow> r_start r \<le> q"
  shows "cov (skip_before rs r) \<inter> A = cov rs \<inter> A"
proof (induction rs)
  case (Cons x rs)
  have "range_set x \<inter> A = {}" if "r_end x \<le> r_start r" using that assms by (fastforce simp: range_set_def)
  then show ?case using Cons by (auto simp: skip_before_def)
qed (simp add: skip_before_def)

lemma first_overlap_correct:
  assumes "ranges_ok rs1" "ranges_ok rs2" "rs2 \<noteq> []" "skip_before rs1 (hd rs2) \<noteq> []"
  shows "\<exists>p. first_overlap rs1 rs2 = Some p \<and>
    (case p of None \<Rightarrow> cov rs1 \<inter> cov rs2 = {}
     | Some (r1, r2) \<Rightarrow> ranges_intersect r1 r2 \<and> least_in (max (r_start r1) (r_start r2)) (cov rs1 \<inter> cov rs2))"
proof -
  obtain r2 rs2' where r2: "rs2 = r2 # rs2'" using assms(3) by (cases rs2) auto
  obtain r1 rs1' where r1: "skip_before rs1 r2 = r1 # rs1'" using assms(4) r2 by (cases "skip_before rs1 r2") auto
  have ok1: "ranges_ok (r1 # rs1')" using skip_before_ok [OF assms(1), of r2] r1 by simp
  have "cov (r1 # rs1') \<inter> cov rs2 = cov rs1 \<inter> cov rs2"
    using skip_before_cov [of "cov rs2" r2 rs1] cov_start(2) [of r2 rs2'] assms(2) r1 r2 by simp
  moreover have "cov (skip_before rs2 r1) \<inter> cov (r1 # rs1') = cov rs2 \<inter> cov (r1 # rs1')"
    by (rule skip_before_cov) (rule cov_start(2) [OF ok1])
  ultimately have eq: "cov (r1 # rs1') \<inter> cov (skip_before rs2 r1) = cov rs1 \<inter> cov rs2" by blast
  show ?thesis
    using meet_correct [OF ok1 skip_before_ok [OF assms(2)], of r1] r1 r2 unfolding eq first_overlap_def by simp
qed

lemma skip_before_end:
  assumes "rs \<noteq> []" "r_start r < r_end (last rs)"
  shows "skip_before rs r \<noteq> []"
  using assms unfolding skip_before_def dropWhile_eq_Nil_conv by (metis last_in_set not_le)

lemma intervals_intersect_empty: "range_list a = [] \<or> range_list b = [] \<Longrightarrow> intervals_intersect a b = None"
  by (auto simp: intervals_intersect_def interval_start_def interval_end_def split: list.splits)

lemma intervals_intersect_iff:
  assumes "ranges_ok (range_list a)" "ranges_ok (range_list b)" and ne: "range_list a \<noteq> []" "range_list b \<noteq> []"
  shows "intervals_intersect a b = Some (cov (range_list a) \<inter> cov (range_list b) \<noteq> {})"
proof -
  obtain r1 rs1 where r1: "range_list a = r1 # rs1" using ne by (cases "range_list a") auto
  obtain r2 rs2 where r2: "range_list b = r2 # rs2" using ne by (cases "range_list b") auto
  let ?e1 = "r_end (last (range_list a))" and ?e2 = "r_end (last (range_list b))"
  show ?thesis
  proof (cases "?e2 \<le> r_start r1 \<or> ?e1 \<le> r_start r2")
    case True
    then have "cov (range_list a) \<inter> cov (range_list b) = {}"
      using cov_below_end [OF assms(1)] cov_below_end [OF assms(2)] cov_start(2) [of r1 rs1] cov_start(2) [of r2 rs2] assms(1,2) r1 r2
      by fastforce
    then show ?thesis
      using True r1 r2 by (auto simp: intervals_intersect_def interval_is_empty_def interval_start_def interval_end_def)
  next
    case disj: False
    then have "skip_before (range_list a) (hd (range_list b)) \<noteq> []" using skip_before_end [of "range_list a" r2] r1 r2 by simp
    then obtain p where p: "first_overlap (range_list a) (range_list b) = Some p"
        "case p of None \<Rightarrow> cov (range_list a) \<inter> cov (range_list b) = {}
         | Some (r1, r2) \<Rightarrow> ranges_intersect r1 r2 \<and> least_in (max (r_start r1) (r_start r2)) (cov (range_list a) \<inter> cov (range_list b))"
      using first_overlap_correct [OF assms(1,2) ne(2) \<open>skip_before (range_list a) (hd (range_list b)) \<noteq> []\<close>] by blast
    then have "(p \<noteq> None) = (cov (range_list a) \<inter> cov (range_list b) \<noteq> {})" by (auto simp: least_in_def split: option.splits)
    then show ?thesis
      using disj p(1) r1 r2 by (auto simp: intervals_intersect_def interval_is_empty_def interval_start_def interval_end_def)
  qed
qed

lemma intersection_start_least:
  assumes "ranges_ok (range_list a)" "ranges_ok (range_list b)" "cov (range_list a) \<inter> cov (range_list b) \<noteq> {}"
  shows "\<exists>p. interval_intersection_start a b = Some p \<and> least_in p (cov (range_list a) \<inter> cov (range_list b))"
proof -
  obtain q where q: "q \<in> cov (range_list a)" "q \<in> cov (range_list b)" using assms(3) by blast
  then have ne: "range_list a \<noteq> []" "range_list b \<noteq> []" by auto
  obtain r2 rs2 where r2: "range_list b = r2 # rs2" using ne by (cases "range_list b") auto
  have "r_start r2 < r_end (last (range_list a))"
    using cov_start(2) [of r2 rs2 q] cov_below_end [OF assms(1) q(1)] assms(2) q(2) r2 by fastforce
  then have "skip_before (range_list a) (hd (range_list b)) \<noteq> []" using skip_before_end [OF ne(1)] r2 by simp
  then obtain p where p: "first_overlap (range_list a) (range_list b) = Some p"
      "case p of None \<Rightarrow> cov (range_list a) \<inter> cov (range_list b) = {}
       | Some (r1, r2) \<Rightarrow> ranges_intersect r1 r2 \<and> least_in (max (r_start r1) (r_start r2)) (cov (range_list a) \<inter> cov (range_list b))"
    using first_overlap_correct [OF assms(1,2) ne(2)] by blast
  then obtain s1 s2 where "p = Some (s1, s2)" using assms(3) by (cases p) auto
  then show ?thesis
    using p ne by (auto simp: interval_intersection_start_def interval_is_empty_def range_intersection_start_def c_assert_def max_def)
qed

section \<open>Adding a range\<close>

lemma ivl_merge:
  fixes a b s e :: nat
  assumes "a \<le> e" "s \<le> b" "a < b" "s < e"
  shows "{min s a ..< max e b} = {a ..< b} \<union> {s ..< e}"
  using assms by (intro set_eqI) (simp add: min_le_iff_disj less_max_iff_disj, linarith)

lemma merge_range_cov:
  assumes "\<forall>r\<in>set rs. r_start r < r_end r" "s < e" "merge_range rs s e = Some rs'"
  shows "cov rs' = cov rs \<union> {s ..< e}"
  using assms
proof (induction rs arbitrary: rs')
  case (Cons r rs)
  show ?case
  proof (cases "r_start r \<le> e \<and> s \<le> r_end r")
    case True
    have "r_start r < r_end r" using Cons.prems(1) by simp
    then have eq: "{min s (r_start r) ..< max e (r_end r)} = range_set r \<union> {s ..< e}"
      unfolding range_set_def using True Cons.prems(2) by (intro ivl_merge) auto
    have "rs' = \<lparr>r_start = min s (r_start r), r_end = max e (r_end r)\<rparr> # rs" using Cons.prems(3) True by simp
    then show ?thesis using eq by (simp add: range_set_def ac_simps)
  next
    case False
    then obtain qs where qs: "merge_range rs s e = Some qs" "rs' = r # qs"
      using Cons.prems(3) by (cases "merge_range rs s e") (auto split: if_splits)
    have "cov qs = cov rs \<union> {s ..< e}" using Cons.IH [OF _ Cons.prems(2) qs(1)] Cons.prems(1) by simp
    then show ?thesis using qs(2) by (simp add: Un_assoc)
  qed
qed simp

lemma insert_range_cov: "cov (insert_range rs r) = cov rs \<union> range_set r"
  by (induction rs) auto

lemma add_range_cov:
  assumes "\<forall>r\<in>set rs. r_start r < r_end r" "s < e"
  shows "\<exists>rs'. add_range True rs s e = (0, rs') \<and> cov rs' = cov rs \<union> {s ..< e}"
  using merge_range_cov [OF assms] insert_range_cov [of rs "\<lparr>r_start = s, r_end = e\<rparr>"]
  by (cases "merge_range rs s e") (auto simp: add_range_def range_set_def)

section \<open>Splitting\<close>

lemma ranges_ok_hd:
  assumes "ranges_ok (r # rs)" "r_start r \<le> p" "p < r_end r"
  shows "cov (r # rs) \<inter> {p..} = {p ..< r_end r} \<union> cov rs" "cov (r # rs) \<inter> {..<p} = {r_start r ..< p}"
proof -
  have above: "\<forall>q\<in>cov rs. p < q" using cov_above [OF assms(1)] assms(3) by fastforce
  then have "cov rs \<inter> {p..} = cov rs" "cov rs \<inter> {..<p} = {}" by (auto dest: less_imp_le)
  moreover have "range_set r \<inter> {p..} = {p ..< r_end r}" "range_set r \<inter> {..<p} = {r_start r ..< p}"
    using assms(2,3) by (auto simp: range_set_def)
  ultimately show "cov (r # rs) \<inter> {p..} = {p ..< r_end r} \<union> cov rs" "cov (r # rs) \<inter> {..<p} = {r_start r ..< p}"
    by (simp_all add: Int_Un_distrib2)
qed

lemma split_ranges_correct:
  assumes "ranges_ok rs" "p \<in> cov rs"
  shows "\<exists>old new. split_ranges True rs p = Some (0, old, new) \<and> ranges_ok old \<and> ranges_ok new \<and>
    cov old = cov rs \<inter> {..<p} \<and> cov new = cov rs \<inter> {p..} \<and>
    new \<noteq> [] \<and> r_start (hd new) = p \<and> r_end (last new) = r_end (last rs) \<and>
    (\<forall>x\<in>set old. \<exists>y\<in>set rs. r_start x = r_start y)"
  using assms
proof (induction rs)
  case (Cons r rs)
  have ok: "r_start r < r_end r" "ranges_ok rs" "\<forall>x\<in>set rs. r_end r \<le> r_start x"
    using Cons.prems(1) by (simp_all add: ranges_ok_Cons)
  show ?case
  proof (cases "in_range r p")
    case True
    then have p: "r_start r \<le> p" "p < r_end r" by (simp_all add: in_range_def)
    note h = ranges_ok_hd [OF Cons.prems(1) p]
    show ?thesis
    proof (cases "r_start r = p")
      case True
      then show ?thesis using \<open>in_range r p\<close> Cons.prems(1) h by (simp add: range_set_def)
    next
      case False
      then have "ranges_ok [r\<lparr>r_end := p\<rparr>]" "ranges_ok (\<lparr>r_start = p, r_end = r_end r\<rparr> # rs)"
        using p ok by (simp_all add: ranges_ok_Cons)
      then show ?thesis using \<open>in_range r p\<close> False unfolding h by (simp add: range_set_def)
    qed
  next
    case False
    then have pc: "p \<in> cov rs" using Cons.prems(2) by (auto simp: in_range_def range_set_def)
    obtain old new where h: "split_ranges True rs p = Some (0, old, new)" "ranges_ok old" "ranges_ok new"
        "cov old = cov rs \<inter> {..<p}" "cov new = cov rs \<inter> {p..}" "new \<noteq> []" "r_start (hd new) = p"
        "r_end (last new) = r_end (last rs)" "\<forall>x\<in>set old. \<exists>y\<in>set rs. r_start x = r_start y"
      using Cons.IH [OF ok(2) pc] by (elim exE conjE) (rule that)
    have le: "r_end r \<le> p" using cov_above [OF Cons.prems(1) pc] .
    then have "range_set r \<inter> {..<p} = range_set r" "range_set r \<inter> {p..} = {}" by (auto simp: range_set_def)
    then have c: "cov (r # old) = cov (r # rs) \<inter> {..<p}" "cov new = cov (r # rs) \<inter> {p..}"
      using h(4,5) by (simp_all add: Int_Un_distrib2)
    have o: "ranges_ok (r # old)" using h(2,9) ok by (fastforce simp: ranges_ok_Cons)
    have "rs \<noteq> []" using pc by auto
    then show ?thesis using h(1,3,6-9) False c o by auto
  qed
qed simp

lemma split_ranges_hole: "p \<notin> cov rs \<Longrightarrow> split_ranges mem rs p = None"
  by (induction rs) (auto simp: in_range_def range_set_def)

section \<open>Expiry\<close>

lemma expire_ranges_correct:
  assumes "ranges_ok rs" "rs \<noteq> []" "r_start (hd rs) \<le> p" "p < r_end (last rs)"
  shows "\<exists>rs' ds. expire_ranges rs ex p = Some (rs', rev ds @ ex) \<and> rs = ds @ rs' \<and> rs' \<noteq> [] \<and> (\<forall>q\<in>cov ds. q < p)"
  using assms
proof (induction rs arbitrary: ex)
  case (Cons r rs)
  show ?case
  proof (cases rs)
    case Nil
    then show ?thesis using Cons.prems by (simp add: in_range_def)
  next
    case rs: (Cons n ns)
    show ?thesis
    proof (cases "in_range r p \<or> p < r_start n")
      case True
      then have "expire_ranges (r # rs) ex p = Some (r # rs, ex)" using rs by auto
      then show ?thesis by (intro exI [of _ "r # rs"] exI [of _ "[]"]) simp
    next
      case False
      have ok: "ranges_ok rs" "r_end r \<le> r_start n" using Cons.prems(1) rs by (simp_all add: ranges_ok_Cons)
      have q: "rs \<noteq> []" "r_start (hd rs) \<le> p" "p < r_end (last rs)" using Cons.prems(4) rs False by auto
      obtain rs' ds where h: "expire_ranges rs (r # ex) p = Some (rs', rev ds @ r # ex)" "rs = ds @ rs'" "rs' \<noteq> []" "\<forall>q\<in>cov ds. q < p"
        using Cons.IH [of "r # ex", OF ok(1) q] by (elim exE conjE) (rule that)
      have "expire_ranges (r # rs) ex p = Some (rs', rev (r # ds) @ ex)" using h(1) rs False by simp
      moreover have "\<forall>q\<in>cov (r # ds). q < p" using h(4) ok(2) False by (auto simp: range_set_def)
      ultimately show ?thesis using h(2,3) by (intro exI [of _ rs'] exI [of _ "r # ds"]) simp
    qed
  qed
qed simp

section \<open>What the operations compute\<close>

definition kinds_ok :: "use_position list \<Rightarrow> bool" where
  "kinds_ok us \<longleftrightarrow> (\<forall>u\<in>set us. use_kind u \<in> {USE_KIND_INPUT, USE_KIND_OUTPUT, USE_KIND_INVALID})"

text \<open>The first position of a use.\<close>

definition first_pos :: "use_position \<Rightarrow> nat" where
  "first_pos u = (if use_kind u = USE_KIND_OUTPUT then use_lir_pos u + 1 else use_lir_pos u)"

lemma get_lir_positions_ok:
  assumes "use_kind u \<in> {USE_KIND_INPUT, USE_KIND_OUTPUT, USE_KIND_INVALID}"
  shows "\<exists>ps. get_lir_positions u = Some (first_pos u # ps)"
  using assms by (auto simp: get_lir_positions_def first_pos_def USE_KIND_INPUT_def USE_KIND_OUTPUT_def USE_KIND_INVALID_def)

lemma split_uses_eq:
  assumes "kinds_ok us"
  shows "split_uses us p new = Some (filter (\<lambda>u. first_pos u < p) us, rev (filter (\<lambda>u. p \<le> first_pos u) us) @ new)"
  using assms
proof (induction us arbitrary: new)
  case (Cons u us)
  then obtain ps where "get_lir_positions u = Some (first_pos u # ps)"
    using get_lir_positions_ok [of u] by (auto simp: kinds_ok_def)
  then show ?case using Cons by (simp add: kinds_ok_def read_at_def)
qed simp

text \<open>C32: On intervals whose ranges are sorted, disjoint and not empty, the queries of the register allocator are
  the set operations on the positions: coverage is membership, two intervals that have ranges intersect when they share
  a position, and the start of the intersection is the least one they share. None of the loops runs past the end of a
  list. An interval without ranges has no bounds to compare, so that asking for its intersection is an error.\<close>

theorem interval_queries_exact:
  assumes "ranges_ok (range_list a)" "ranges_ok (range_list b)" "\<not> interval_is_empty a"
  shows "interval_covers a p = Some (p \<in> cov (range_list a)) \<and>
    intervals_intersect a b =
      (if interval_is_empty b then None else Some (cov (range_list a) \<inter> cov (range_list b) \<noteq> {})) \<and>
    (cov (range_list a) \<inter> cov (range_list b) \<noteq> {} \<longrightarrow>
       (\<exists>q. interval_intersection_start a b = Some q \<and> least_in q (cov (range_list a) \<inter> cov (range_list b))))"
  using interval_covers_iff [OF assms(1)] intervals_intersect_iff [OF assms(1,2)] intervals_intersect_empty [of a b]
    intersection_start_least [OF assms(1,2)] assms(3)
  by (simp add: interval_is_empty_def)

definition sample_interval :: "(nat \<times> nat) list \<Rightarrow> live_interval" where
  "sample_interval ps = alloc_interval\<lparr>range_list := map (\<lambda>(s, e). \<lparr>r_start = s, r_end = e\<rparr>) ps\<rparr>"

lemmas sample_simps = sample_interval_def alloc_interval_def ranges_ok_def interval_is_empty_def cov_def range_set_def

theorem interval_queries_exact_witness:
  "interval_covers (sample_interval [(0, 3), (6, 9)]) 7 = Some True \<and>
   intervals_intersect (sample_interval [(0, 3), (6, 9)]) (sample_interval [(4, 7)]) = Some True \<and>
   interval_intersection_start (sample_interval [(0, 3), (6, 9)]) (sample_interval [(4, 7)]) = Some 6"
proof -
  let ?a = "sample_interval [(0, 3), (6, 9)]" and ?b = "sample_interval [(4, 7)]"
  have h: "ranges_ok (range_list ?a)" "ranges_ok (range_list ?b)" "\<not> interval_is_empty ?a" by (simp_all add: sample_simps)
  have c: "cov (range_list ?a) \<inter> cov (range_list ?b) = {6}" "(7::nat) \<in> cov (range_list ?a)" by (auto simp: sample_simps)
  have "\<not> interval_is_empty ?b" by (simp add: sample_simps)
  then show ?thesis using interval_queries_exact [OF h, of 7] c by (auto simp: least_in_def)
qed

text \<open>C33: Splitting an interval at a position it covers, after its start, leaves the earlier positions in it and
  moves the others to a new, unassigned child. Both keep sorted, disjoint ranges, and every use position goes to the
  side of its first position. A position in a lifetime hole ends the program.\<close>

theorem split_interval_at_partition:
  assumes "ranges_ok (range_list it)" "range_list it \<noteq> []" "r_start (hd (range_list it)) < p" "kinds_ok (use_positions it)"
  shows "(p \<in> cov (range_list it) \<longrightarrow>
      (\<exists>old new. split_interval_at True True it p = Some (old, Some new) \<and>
        ranges_ok (range_list old) \<and> ranges_ok (range_list new) \<and>
        cov (range_list old) = cov (range_list it) \<inter> {..<p} \<and> cov (range_list new) = cov (range_list it) \<inter> {p..} \<and>
        interval_start new = Some p \<and> interval_end new = interval_end it \<and>
        use_positions old = filter (\<lambda>u. first_pos u < p) (use_positions it) \<and>
        use_positions new = rev (filter (\<lambda>u. p \<le> first_pos u) (use_positions it)) \<and>
        it_reg old = it_reg it \<and> it_reg new = (if fixed_reg it then it_reg it else None))) \<and>
    (p \<notin> cov (range_list it) \<longrightarrow> split_interval_at True mem it p = None)"
proof -
  obtain r rs where rs: "range_list it = r # rs" using assms(2) by (cases "range_list it") auto
  have 1: "\<exists>old new. split_interval_at True True it p = Some (old, Some new) \<and>
        ranges_ok (range_list old) \<and> ranges_ok (range_list new) \<and>
        cov (range_list old) = cov (range_list it) \<inter> {..<p} \<and> cov (range_list new) = cov (range_list it) \<inter> {p..} \<and>
        interval_start new = Some p \<and> interval_end new = interval_end it \<and>
        use_positions old = filter (\<lambda>u. first_pos u < p) (use_positions it) \<and>
        use_positions new = rev (filter (\<lambda>u. p \<le> first_pos u) (use_positions it)) \<and>
        it_reg old = it_reg it \<and> it_reg new = (if fixed_reg it then it_reg it else None)" if c: "p \<in> cov (range_list it)"
  proof -
    have lt: "r_start r < p" "p < r_end (last (range_list it))" using assms(3) cov_below_end [OF assms(1) c] rs by simp_all
    obtain old new where h: "split_ranges True (range_list it) p = Some (0, old, new)" "ranges_ok old" "ranges_ok new"
        "cov old = cov (range_list it) \<inter> {..<p}" "cov new = cov (range_list it) \<inter> {p..}" "new \<noteq> []" "r_start (hd new) = p"
        "r_end (last new) = r_end (last (range_list it))"
      using split_ranges_correct [OF assms(1) c] by (elim exE conjE) (rule that)
    then show ?thesis
      using lt rs split_uses_eq [OF assms(4), of p "[]"]
      by (cases new) (simp_all add: split_interval_at_def interval_start_def interval_end_def alloc_interval_def)
  qed
  have 2: "split_interval_at True mem it p = None" if "p \<notin> cov (range_list it)"
    using split_ranges_hole [OF that, of mem] rs by (simp add: split_interval_at_def interval_start_def interval_end_def Option.bind_eq_None_conv)
  show ?thesis using 1 2 by blast
qed

theorem split_interval_at_partition_witness:
  "\<exists>old new. split_interval_at True True (sample_interval [(0, 3), (6, 9)]) 7 = Some (old, Some new) \<and>
     cov (range_list old) = {0, 1, 2, 6} \<and> cov (range_list new) = {7, 8}"
proof -
  let ?a = "sample_interval [(0, 3), (6, 9)]"
  have h: "ranges_ok (range_list ?a)" "range_list ?a \<noteq> []" "r_start (hd (range_list ?a)) < 7" "kinds_ok (use_positions ?a)"
    "(7::nat) \<in> cov (range_list ?a)"
    by (simp_all add: sample_simps kinds_ok_def)
  have c: "cov (range_list ?a) \<inter> {..<7} = {0, 1, 2, 6}" "cov (range_list ?a) \<inter> {7..} = {7, 8}" by (auto simp: sample_simps)
  show ?thesis using split_interval_at_partition [OF h(1-4)] h(5) unfolding c by blast
qed

text \<open>C34: Expiring the ranges before a position never reads past the last range, forgets no position from it on,
  and is undone by the restoration at the end of the allocation.\<close>

theorem interval_expire_restore:
  assumes "ranges_ok (range_list it)" "range_list it \<noteq> []"
  shows "\<exists>it'. interval_expire_ranges_before it p = Some it' \<and> ranges_ok (range_list it') \<and> range_list it' \<noteq> [] \<and>
    cov (range_list it') \<inter> {p..} = cov (range_list it) \<inter> {p..} \<and>
    interval_restore_expired_ranges it' = interval_restore_expired_ranges it"
proof -
  obtain r rs where rs: "range_list it = r # rs" using assms(2) by (cases "range_list it") auto
  show ?thesis
  proof (cases "p < r_start r \<or> r_end (last (range_list it)) \<le> p")
    case True
    then show ?thesis using assms rs by (auto simp: interval_expire_ranges_before_def interval_start_def interval_end_def)
  next
    case False
    then obtain rs' ds where h: "expire_ranges (range_list it) (expired_range_list it) p = Some (rs', rev ds @ expired_range_list it)"
        "range_list it = ds @ rs'" "rs' \<noteq> []" "\<forall>q\<in>cov ds. q < p"
      using expire_ranges_correct [OF assms, of p "expired_range_list it"] rs by auto
    have "cov ds \<inter> {p..} = {}" using h(4) by auto
    then have "cov rs' \<inter> {p..} = cov (range_list it) \<inter> {p..}" by (simp add: h(2) Int_Un_distrib2)
    moreover have "ranges_ok rs'" using assms(1) by (simp add: h(2) ranges_ok_def sorted_wrt_append)
    moreover have "fold Cons (rev ds @ expired_range_list it) rs' = fold Cons (expired_range_list it) (range_list it)"
      by (simp add: h(2) fold_Cons_rev)
    ultimately show ?thesis
      using False h(1,3) rs
      by (simp add: interval_expire_ranges_before_def interval_start_def interval_end_def interval_restore_expired_ranges_def)
  qed
qed

theorem interval_expire_restore_witness:
  "\<exists>it'. interval_expire_ranges_before (sample_interval [(0, 3), (6, 9)]) 7 = Some it' \<and>
     interval_restore_expired_ranges it' = sample_interval [(0, 3), (6, 9)]"
  using interval_expire_restore [of "sample_interval [(0, 3), (6, 9)]" 7]
  by (auto simp: sample_simps interval_restore_expired_ranges_def)

end
