(* ===== verification/Insn.thy ===== *)
theory Insn
  imports Interval Vm_Types
begin

text \<open>
  Machine instructions of the x86-64 back end, \<open>arch/x86/instruction.c\<close> and
  \<open>arch/x86/include/arch/instruction.h\<close>: the operands and their constructors, the table of flags that says which
  operands an instruction uses and defines, and the functions that read it. Variables are indices, as pointers to
  \<open>struct var_info\<close>; a slot, a branch target and an immediate are the number that the operand stores. The union of
  an operand keeps \<open>reg\<close> and \<open>base_reg\<close> at the same place: reading the register of an operand that has none is
  the dereference of a null interval.
\<close>

section \<open>Model\<close>

datatype operand_type = OPERAND_NONE | OPERAND_BRANCH | OPERAND_IMM | OPERAND_MEMBASE | OPERAND_MEMDISP
  | OPERAND_MEMINDEX | OPERAND_MEMLOCAL | OPERAND_REG | OPERAND_REL

text \<open>A register of an operand is its variable with the kind of the use position.\<close>

record operand =
  op_type :: operand_type
  op_reg :: "(nat \<times> i32) option"
  op_index :: "(nat \<times> i32) option"
  op_val :: u64

text \<open>The operands of a phi instruction share their place with \<open>src\<close> and \<open>dest\<close>; only one of both is set.\<close>

record insn =
  insn_type :: nat
  lir_pos :: nat
  src :: operand
  dest :: operand
  ssa_srcs :: "operand list"
  ssa_dest :: operand

definition MAX_REG_OPERANDS :: nat where
  "MAX_REG_OPERANDS = 4 + 3"

definition NR_INSN_TYPES :: nat where
  "NR_INSN_TYPES = 130"

text \<open>The constants of \<open>enum insn_type\<close> that the code names.\<close>

definition INSN_IC_CALL :: nat where "INSN_IC_CALL = 38"
definition INSN_CALL_REG :: nat where "INSN_CALL_REG = 10"
definition INSN_CALL_REL :: nat where "INSN_CALL_REL = 11"
definition INSN_JMP_BRANCH :: nat where "INSN_JMP_BRANCH = 44"
definition INSN_MOV_REG_REG :: nat where "INSN_MOV_REG_REG = 84"
definition INSN_MOVSD_XMM_XMM :: nat where "INSN_MOVSD_XMM_XMM = 56"
definition INSN_MOVSS_XMM_XMM :: nat where "INSN_MOVSS_XMM_XMM = 65"
definition INSN_PHI :: nat where "INSN_PHI = 99"
definition INSN_JE_BRANCH :: nat where "INSN_JE_BRANCH = 39"
definition INSN_JNE_BRANCH :: nat where "INSN_JNE_BRANCH = 47"
definition INSN_JGE_BRANCH :: nat where "INSN_JGE_BRANCH = 40"
definition INSN_JL_BRANCH :: nat where "INSN_JL_BRANCH = 43"
definition INSN_JG_BRANCH :: nat where "INSN_JG_BRANCH = 41"
definition INSN_JLE_BRANCH :: nat where "INSN_JLE_BRANCH = 42"
definition INSN_MOV_REG_MEMBASE :: nat where "INSN_MOV_REG_MEMBASE = 80"
definition INSN_MOV_IMM_MEMBASE :: nat where "INSN_MOV_IMM_MEMBASE = 72"
definition INSN_MOV_IMM_REG :: nat where "INSN_MOV_IMM_REG = 74"
definition INSN_MOV_REG_THREAD_LOCAL_MEMBASE :: nat where "INSN_MOV_REG_THREAD_LOCAL_MEMBASE = 85"
definition INSN_MOV_IMM_THREAD_LOCAL_MEMBASE :: nat where "INSN_MOV_IMM_THREAD_LOCAL_MEMBASE = 75"
definition INSN_MOV_REG_MEMLOCAL :: nat where "INSN_MOV_REG_MEMLOCAL = 83"
definition INSN_MOV_IMM_MEMLOCAL :: nat where "INSN_MOV_IMM_MEMLOCAL = 73"
definition INSN_MOVSS_XMM_MEMLOCAL :: nat where "INSN_MOVSS_XMM_MEMLOCAL = 64"
definition INSN_MOVSD_XMM_MEMLOCAL :: nat where "INSN_MOVSD_XMM_MEMLOCAL = 55"
definition INSN_MOVSS_MEMLOCAL_XMM :: nat where "INSN_MOVSS_MEMLOCAL_XMM = 60"
definition INSN_MOVSD_MEMLOCAL_XMM :: nat where "INSN_MOVSD_MEMLOCAL_XMM = 51"
definition INSN_MOV_MEMLOCAL_REG :: nat where "INSN_MOV_MEMLOCAL_REG = 79"
definition INSN_JMP_MEMINDEX :: nat where "INSN_JMP_MEMINDEX = 46"
definition INSN_JMP_MEMBASE :: nat where "INSN_JMP_MEMBASE = 45"
definition INSN_CONV_GPR_TO_FPU :: nat where "INSN_CONV_GPR_TO_FPU = 18"
definition INSN_CONV_GPR_TO_FPU64 :: nat where "INSN_CONV_GPR_TO_FPU64 = 19"
definition INSN_PUSH_MEMLOCAL :: nat where "INSN_PUSH_MEMLOCAL = 103"
definition INSN_POP_MEMLOCAL :: nat where "INSN_POP_MEMLOCAL = 100"

text \<open>The flags.\<close>

definition DEF_DST :: u64 where "DEF_DST = push_bit 1 1"
definition DEF_SRC :: u64 where "DEF_SRC = push_bit 2 1"
definition DEF_NONE :: u64 where "DEF_NONE = push_bit 3 1"
definition DEF_xAX :: u64 where "DEF_xAX = push_bit 4 1"
definition DEF_xCX :: u64 where "DEF_xCX = push_bit 5 1"
definition DEF_xDX :: u64 where "DEF_xDX = push_bit 6 1"
definition USE_DST :: u64 where "USE_DST = push_bit 7 1"
definition USE_IDX_DST :: u64 where "USE_IDX_DST = push_bit 8 1"
definition USE_IDX_SRC :: u64 where "USE_IDX_SRC = push_bit 9 1"
definition USE_NONE :: u64 where "USE_NONE = push_bit 10 1"
definition USE_SRC :: u64 where "USE_SRC = push_bit 11 1"
definition USE_FP :: u64 where "USE_FP = push_bit 12 1"
definition TYPE_BRANCH :: u64 where "TYPE_BRANCH = push_bit 13 1"
definition TYPE_CALL :: u64 where "TYPE_CALL = push_bit 14 1"

text \<open>The table, in the order of \<open>enum insn_type\<close>.\<close>

definition insn_flags :: "u64 list" where
  "insn_flags =
     [ USE_DST OR DEF_DST \<comment> \<open>\<open>INSN_ADC_IMM_REG\<close>\<close>
     , USE_SRC OR USE_DST OR DEF_DST \<comment> \<open>\<open>INSN_ADC_MEMBASE_REG\<close>\<close>
     , USE_SRC OR USE_DST OR DEF_DST \<comment> \<open>\<open>INSN_ADC_REG_REG\<close>\<close>
     , USE_SRC OR USE_DST OR DEF_DST \<comment> \<open>\<open>INSN_ADDSD_XMM_XMM\<close>\<close>
     , USE_SRC OR USE_DST OR DEF_DST \<comment> \<open>\<open>INSN_ADDSS_XMM_XMM\<close>\<close>
     , USE_DST OR DEF_DST \<comment> \<open>\<open>INSN_ADD_IMM_REG\<close>\<close>
     , USE_SRC OR USE_DST OR DEF_DST \<comment> \<open>\<open>INSN_ADD_MEMBASE_REG\<close>\<close>
     , USE_SRC OR USE_DST OR DEF_DST \<comment> \<open>\<open>INSN_ADD_REG_REG\<close>\<close>
     , USE_SRC OR USE_DST OR DEF_DST \<comment> \<open>\<open>INSN_AND_MEMBASE_REG\<close>\<close>
     , USE_SRC OR USE_DST OR DEF_DST \<comment> \<open>\<open>INSN_AND_REG_REG\<close>\<close>
     , USE_DST OR DEF_NONE OR TYPE_CALL \<comment> \<open>\<open>INSN_CALL_REG\<close>\<close>
     , USE_NONE OR DEF_NONE OR TYPE_CALL \<comment> \<open>\<open>INSN_CALL_REL\<close>\<close>
     , USE_SRC OR DEF_SRC OR DEF_DST \<comment> \<open>\<open>INSN_CLTD_REG_REG\<close>\<close>
     , USE_DST \<comment> \<open>\<open>INSN_CMP_IMM_REG\<close>\<close>
     , USE_SRC OR USE_DST \<comment> \<open>\<open>INSN_CMP_MEMBASE_REG\<close>\<close>
     , USE_SRC OR USE_DST \<comment> \<open>\<open>INSN_CMP_REG_REG\<close>\<close>
     , USE_SRC OR DEF_DST \<comment> \<open>\<open>INSN_CONV_FPU64_TO_GPR\<close>\<close>
     , USE_SRC OR DEF_DST \<comment> \<open>\<open>INSN_CONV_FPU_TO_GPR\<close>\<close>
     , USE_SRC OR DEF_DST \<comment> \<open>\<open>INSN_CONV_GPR_TO_FPU\<close>\<close>
     , USE_SRC OR DEF_DST \<comment> \<open>\<open>INSN_CONV_GPR_TO_FPU64\<close>\<close>
     , USE_SRC OR DEF_DST \<comment> \<open>\<open>INSN_CONV_XMM64_TO_XMM\<close>\<close>
     , USE_SRC OR DEF_DST \<comment> \<open>\<open>INSN_CONV_XMM_TO_XMM64\<close>\<close>
     , USE_SRC OR USE_DST OR DEF_DST \<comment> \<open>\<open>INSN_DIVSD_XMM_XMM\<close>\<close>
     , USE_SRC OR USE_DST OR DEF_DST \<comment> \<open>\<open>INSN_DIVSS_XMM_XMM\<close>\<close>
     , USE_SRC OR USE_DST OR DEF_DST OR DEF_xAX OR DEF_xDX \<comment> \<open>\<open>INSN_DIV_MEMBASE_REG\<close>\<close>
     , USE_SRC OR USE_DST OR DEF_DST OR DEF_xAX OR DEF_xDX \<comment> \<open>\<open>INSN_DIV_REG_REG\<close>\<close>
     , USE_SRC \<comment> \<open>\<open>INSN_FILD_64_MEMBASE\<close>\<close>
     , USE_SRC OR DEF_NONE \<comment> \<open>\<open>INSN_FISTP_64_MEMBASE\<close>\<close>
     , USE_SRC OR DEF_NONE \<comment> \<open>\<open>INSN_FLDCW_MEMBASE\<close>\<close>
     , USE_SRC OR DEF_NONE \<comment> \<open>\<open>INSN_FLD_64_MEMBASE\<close>\<close>
     , USE_FP OR DEF_NONE \<comment> \<open>\<open>INSN_FLD_64_MEMLOCAL\<close>\<close>
     , USE_SRC OR DEF_NONE \<comment> \<open>\<open>INSN_FLD_MEMBASE\<close>\<close>
     , USE_FP OR DEF_NONE \<comment> \<open>\<open>INSN_FLD_MEMLOCAL\<close>\<close>
     , USE_SRC OR DEF_NONE \<comment> \<open>\<open>INSN_FNSTCW_MEMBASE\<close>\<close>
     , USE_SRC OR DEF_NONE \<comment> \<open>\<open>INSN_FSTP_64_MEMBASE\<close>\<close>
     , USE_FP OR DEF_NONE \<comment> \<open>\<open>INSN_FSTP_64_MEMLOCAL\<close>\<close>
     , USE_SRC OR DEF_NONE \<comment> \<open>\<open>INSN_FSTP_MEMBASE\<close>\<close>
     , USE_FP OR DEF_NONE \<comment> \<open>\<open>INSN_FSTP_MEMLOCAL\<close>\<close>
     , USE_SRC OR DEF_xAX OR DEF_xCX OR TYPE_CALL \<comment> \<open>\<open>INSN_IC_CALL\<close>\<close>
     , USE_NONE OR DEF_NONE OR TYPE_BRANCH \<comment> \<open>\<open>INSN_JE_BRANCH\<close>\<close>
     , USE_NONE OR DEF_NONE OR TYPE_BRANCH \<comment> \<open>\<open>INSN_JGE_BRANCH\<close>\<close>
     , USE_NONE OR DEF_NONE OR TYPE_BRANCH \<comment> \<open>\<open>INSN_JG_BRANCH\<close>\<close>
     , USE_NONE OR DEF_NONE OR TYPE_BRANCH \<comment> \<open>\<open>INSN_JLE_BRANCH\<close>\<close>
     , USE_NONE OR DEF_NONE OR TYPE_BRANCH \<comment> \<open>\<open>INSN_JL_BRANCH\<close>\<close>
     , USE_NONE OR DEF_NONE OR TYPE_BRANCH \<comment> \<open>\<open>INSN_JMP_BRANCH\<close>\<close>
     , USE_DST OR DEF_NONE OR TYPE_BRANCH \<comment> \<open>\<open>INSN_JMP_MEMBASE\<close>\<close>
     , USE_IDX_DST OR USE_DST OR DEF_NONE OR TYPE_BRANCH \<comment> \<open>\<open>INSN_JMP_MEMINDEX\<close>\<close>
     , USE_NONE OR DEF_NONE OR TYPE_BRANCH \<comment> \<open>\<open>INSN_JNE_BRANCH\<close>\<close>
     , USE_SRC OR DEF_DST \<comment> \<open>\<open>INSN_MOVSD_MEMBASE_XMM\<close>\<close>
     , USE_NONE OR DEF_DST \<comment> \<open>\<open>INSN_MOVSD_MEMDISP_XMM\<close>\<close>
     , USE_SRC OR USE_IDX_SRC OR DEF_DST \<comment> \<open>\<open>INSN_MOVSD_MEMINDEX_XMM\<close>\<close>
     , USE_FP OR DEF_DST \<comment> \<open>\<open>INSN_MOVSD_MEMLOCAL_XMM\<close>\<close>
     , USE_SRC OR USE_DST \<comment> \<open>\<open>INSN_MOVSD_XMM_MEMBASE\<close>\<close>
     , USE_SRC OR DEF_NONE \<comment> \<open>\<open>INSN_MOVSD_XMM_MEMDISP\<close>\<close>
     , USE_SRC OR USE_DST OR USE_IDX_DST OR DEF_NONE \<comment> \<open>\<open>INSN_MOVSD_XMM_MEMINDEX\<close>\<close>
     , USE_SRC \<comment> \<open>\<open>INSN_MOVSD_XMM_MEMLOCAL\<close>\<close>
     , USE_SRC OR DEF_DST \<comment> \<open>\<open>INSN_MOVSD_XMM_XMM\<close>\<close>
     , USE_SRC OR DEF_DST \<comment> \<open>\<open>INSN_MOVSS_MEMBASE_XMM\<close>\<close>
     , USE_NONE OR DEF_DST \<comment> \<open>\<open>INSN_MOVSS_MEMDISP_XMM\<close>\<close>
     , USE_SRC OR USE_IDX_SRC OR DEF_DST \<comment> \<open>\<open>INSN_MOVSS_MEMINDEX_XMM\<close>\<close>
     , USE_FP OR DEF_DST \<comment> \<open>\<open>INSN_MOVSS_MEMLOCAL_XMM\<close>\<close>
     , USE_SRC OR USE_DST \<comment> \<open>\<open>INSN_MOVSS_XMM_MEMBASE\<close>\<close>
     , USE_SRC OR DEF_NONE \<comment> \<open>\<open>INSN_MOVSS_XMM_MEMDISP\<close>\<close>
     , USE_SRC OR USE_DST OR USE_IDX_DST OR DEF_NONE \<comment> \<open>\<open>INSN_MOVSS_XMM_MEMINDEX\<close>\<close>
     , USE_SRC \<comment> \<open>\<open>INSN_MOVSS_XMM_MEMLOCAL\<close>\<close>
     , USE_SRC OR DEF_DST \<comment> \<open>\<open>INSN_MOVSS_XMM_XMM\<close>\<close>
     , USE_SRC OR DEF_DST \<comment> \<open>\<open>INSN_MOVSXD_REG_REG\<close>\<close>
     , USE_SRC OR DEF_DST \<comment> \<open>\<open>INSN_MOVSX_16_MEMBASE_REG\<close>\<close>
     , USE_SRC OR DEF_DST \<comment> \<open>\<open>INSN_MOVSX_16_REG_REG\<close>\<close>
     , USE_SRC OR DEF_DST \<comment> \<open>\<open>INSN_MOVSX_8_MEMBASE_REG\<close>\<close>
     , USE_SRC OR DEF_DST \<comment> \<open>\<open>INSN_MOVSX_8_REG_REG\<close>\<close>
     , USE_SRC OR DEF_DST \<comment> \<open>\<open>INSN_MOVZX_16_REG_REG\<close>\<close>
     , USE_DST \<comment> \<open>\<open>INSN_MOV_IMM_MEMBASE\<close>\<close>
     , USE_FP OR DEF_NONE \<comment> \<open>\<open>INSN_MOV_IMM_MEMLOCAL\<close>\<close>
     , DEF_DST \<comment> \<open>\<open>INSN_MOV_IMM_REG\<close>\<close>
     , USE_DST OR DEF_NONE \<comment> \<open>\<open>INSN_MOV_IMM_THREAD_LOCAL_MEMBASE\<close>\<close>
     , USE_SRC OR DEF_DST \<comment> \<open>\<open>INSN_MOV_MEMBASE_REG\<close>\<close>
     , USE_NONE OR DEF_DST \<comment> \<open>\<open>INSN_MOV_MEMDISP_REG\<close>\<close>
     , USE_SRC OR USE_IDX_SRC OR DEF_DST \<comment> \<open>\<open>INSN_MOV_MEMINDEX_REG\<close>\<close>
     , USE_FP OR DEF_DST \<comment> \<open>\<open>INSN_MOV_MEMLOCAL_REG\<close>\<close>
     , USE_SRC OR USE_DST \<comment> \<open>\<open>INSN_MOV_REG_MEMBASE\<close>\<close>
     , USE_SRC OR DEF_NONE \<comment> \<open>\<open>INSN_MOV_REG_MEMDISP\<close>\<close>
     , USE_SRC OR USE_DST OR USE_IDX_DST OR DEF_NONE \<comment> \<open>\<open>INSN_MOV_REG_MEMINDEX\<close>\<close>
     , USE_SRC \<comment> \<open>\<open>INSN_MOV_REG_MEMLOCAL\<close>\<close>
     , USE_SRC OR DEF_DST \<comment> \<open>\<open>INSN_MOV_REG_REG\<close>\<close>
     , USE_SRC OR USE_DST OR DEF_NONE \<comment> \<open>\<open>INSN_MOV_REG_THREAD_LOCAL_MEMBASE\<close>\<close>
     , USE_SRC OR DEF_NONE \<comment> \<open>\<open>INSN_MOV_REG_THREAD_LOCAL_MEMDISP\<close>\<close>
     , USE_NONE OR DEF_DST \<comment> \<open>\<open>INSN_MOV_THREAD_LOCAL_MEMDISP_REG\<close>\<close>
     , USE_DST OR DEF_DST \<comment> \<open>\<open>INSN_MULSD_MEMDISP_XMM\<close>\<close>
     , USE_SRC OR USE_DST OR DEF_DST \<comment> \<open>\<open>INSN_MULSD_XMM_XMM\<close>\<close>
     , USE_SRC OR USE_DST OR DEF_DST \<comment> \<open>\<open>INSN_MULSS_XMM_XMM\<close>\<close>
     , USE_SRC OR DEF_DST OR DEF_xDX OR DEF_xAX \<comment> \<open>\<open>INSN_MUL_MEMBASE_EAX\<close>\<close>
     , USE_SRC OR USE_DST OR DEF_DST OR DEF_xDX OR DEF_xAX \<comment> \<open>\<open>INSN_MUL_REG_EAX\<close>\<close>
     , USE_SRC OR USE_DST OR DEF_DST \<comment> \<open>\<open>INSN_MUL_REG_REG\<close>\<close>
     , USE_DST OR DEF_DST \<comment> \<open>\<open>INSN_NEG_REG\<close>\<close>
     , USE_NONE OR DEF_NONE \<comment> \<open>\<open>INSN_NOP\<close>\<close>
     , USE_DST OR DEF_NONE \<comment> \<open>\<open>INSN_OR_IMM_MEMBASE\<close>\<close>
     , USE_SRC OR USE_DST OR DEF_DST \<comment> \<open>\<open>INSN_OR_MEMBASE_REG\<close>\<close>
     , USE_SRC OR USE_DST OR DEF_DST \<comment> \<open>\<open>INSN_OR_REG_REG\<close>\<close>
     , USE_SRC OR DEF_DST \<comment> \<open>\<open>INSN_PHI\<close>\<close>
     , USE_SRC OR DEF_NONE \<comment> \<open>\<open>INSN_POP_MEMLOCAL\<close>\<close>
     , USE_NONE OR DEF_DST \<comment> \<open>\<open>INSN_POP_REG\<close>\<close>
     , USE_NONE OR DEF_NONE \<comment> \<open>\<open>INSN_PUSH_IMM\<close>\<close>
     , USE_SRC OR DEF_NONE \<comment> \<open>\<open>INSN_PUSH_MEMLOCAL\<close>\<close>
     , USE_SRC OR DEF_NONE \<comment> \<open>\<open>INSN_PUSH_REG\<close>\<close>
     , USE_NONE OR DEF_NONE OR TYPE_BRANCH \<comment> \<open>\<open>INSN_RET\<close>\<close>
     , USE_DST OR DEF_DST \<comment> \<open>\<open>INSN_SAR_IMM_REG\<close>\<close>
     , USE_SRC OR USE_DST OR DEF_DST \<comment> \<open>\<open>INSN_SAR_REG_REG\<close>\<close>
     , USE_DST OR DEF_DST \<comment> \<open>\<open>INSN_SBB_IMM_REG\<close>\<close>
     , USE_SRC OR USE_DST OR DEF_DST \<comment> \<open>\<open>INSN_SBB_MEMBASE_REG\<close>\<close>
     , USE_SRC OR USE_DST OR DEF_DST \<comment> \<open>\<open>INSN_SBB_REG_REG\<close>\<close>
     , USE_SRC OR USE_DST OR DEF_DST \<comment> \<open>\<open>INSN_SHL_REG_REG\<close>\<close>
     , USE_SRC OR USE_DST OR DEF_DST \<comment> \<open>\<open>INSN_SHR_REG_REG\<close>\<close>
     , USE_SRC OR USE_DST OR DEF_DST \<comment> \<open>\<open>INSN_SUBSD_XMM_XMM\<close>\<close>
     , USE_SRC OR USE_DST OR DEF_DST \<comment> \<open>\<open>INSN_SUBSS_XMM_XMM\<close>\<close>
     , USE_DST OR DEF_DST \<comment> \<open>\<open>INSN_SUB_IMM_REG\<close>\<close>
     , USE_SRC OR USE_DST OR DEF_DST \<comment> \<open>\<open>INSN_SUB_MEMBASE_REG\<close>\<close>
     , USE_SRC OR USE_DST OR DEF_DST \<comment> \<open>\<open>INSN_SUB_REG_REG\<close>\<close>
     , USE_NONE OR DEF_NONE \<comment> \<open>\<open>INSN_TEST_IMM_MEMDISP\<close>\<close>
     , USE_SRC OR USE_DST OR DEF_NONE \<comment> \<open>\<open>INSN_TEST_MEMBASE_REG\<close>\<close>
     , USE_SRC OR USE_DST OR DEF_DST \<comment> \<open>\<open>INSN_XORPD_XMM_XMM\<close>\<close>
     , USE_SRC OR USE_DST OR DEF_DST \<comment> \<open>\<open>INSN_XOR_MEMBASE_REG\<close>\<close>
     , USE_SRC OR USE_DST OR DEF_DST \<comment> \<open>\<open>INSN_XOR_REG_REG\<close>\<close>
     , USE_SRC OR USE_DST OR DEF_DST \<comment> \<open>\<open>INSN_XORPS_XMM_XMM\<close>\<close>
     , USE_NONE OR DEF_NONE \<comment> \<open>\<open>INSN_SAVE_CALLER_REGS\<close>\<close>
     , USE_NONE OR DEF_NONE \<comment> \<open>\<open>INSN_RESTORE_CALLER_REGS\<close>\<close>
     , USE_NONE OR DEF_NONE \<comment> \<open>\<open>INSN_RESTORE_CALLER_REGS_I32\<close>\<close>
     , USE_NONE OR DEF_NONE \<comment> \<open>\<open>INSN_RESTORE_CALLER_REGS_I64\<close>\<close>
     , USE_NONE OR DEF_NONE \<comment> \<open>\<open>INSN_RESTORE_CALLER_REGS_F32\<close>\<close>
     , USE_NONE OR DEF_NONE \<comment> \<open>\<open>INSN_RESTORE_CALLER_REGS_F64\<close>\<close> ]"

definition insn_sanity_check :: "unit option" where
  "insn_sanity_check =
     do { c_assert (length insn_flags = NR_INSN_TYPES);
          c_assert (list_all (\<lambda>f. f \<noteq> 0) insn_flags) }"

definition operand_is_reg :: "operand \<Rightarrow> bool" where
  "operand_is_reg op \<longleftrightarrow> op_type op \<in> {OPERAND_MEMBASE, OPERAND_MEMINDEX, OPERAND_REG}"

definition operand_uses_reg :: "operand \<Rightarrow> bool" where
  "operand_uses_reg op \<longleftrightarrow> op_type op = OPERAND_REG \<or> op_type op = OPERAND_MEMBASE \<or> op_type op = OPERAND_MEMINDEX"

definition operand_uses_index_reg :: "operand \<Rightarrow> bool" where
  "operand_uses_index_reg op \<longleftrightarrow> op_type op = OPERAND_MEMINDEX"

definition plain_operand :: "operand_type \<Rightarrow> u64 \<Rightarrow> operand" where
  "plain_operand ty v = \<lparr>op_type = ty, op_reg = None, op_index = None, op_val = v\<rparr>"

definition imm_operand :: "u64 \<Rightarrow> operand" where
  "imm_operand imm = plain_operand OPERAND_IMM imm"

definition slot_operand :: "u64 \<Rightarrow> operand" where
  "slot_operand slot = plain_operand OPERAND_MEMLOCAL slot"

definition memdisp_operand :: "u64 \<Rightarrow> operand" where
  "memdisp_operand disp = plain_operand OPERAND_MEMDISP disp"

text \<open>A fresh instruction is zeroed.\<close>

definition alloc_insn :: "bool \<Rightarrow> nat \<Rightarrow> insn option" where
  "alloc_insn mem t =
     (if mem then Some \<lparr>insn_type = t, lir_pos = 0, src = plain_operand OPERAND_NONE 0, dest = plain_operand OPERAND_NONE 0,
        ssa_srcs = [], ssa_dest = plain_operand OPERAND_NONE 0\<rparr> else None)"

datatype operand_side = SrcSide | DestSide

definition flags_of :: "nat \<Rightarrow> u64" where
  "flags_of t = insn_flags ! t"

text \<open>The kind of use of the register operand at a side of an instruction.\<close>

definition insn_operand_use_kind :: "nat \<Rightarrow> operand_side \<Rightarrow> i32" where
  "insn_operand_use_kind t side =
     (let flags = flags_of t;
          (use_mask, def_mask) = (case side of SrcSide \<Rightarrow> (USE_SRC, DEF_SRC) | DestSide \<Rightarrow> (USE_DST, DEF_DST));
          kind_mask = (if flags AND use_mask \<noteq> 0 then 0 OR USE_KIND_INPUT else 0)
      in if flags AND def_mask \<noteq> 0 then kind_mask OR USE_KIND_OUTPUT else kind_mask)"

definition init_membase_operand :: "nat \<Rightarrow> u64 \<Rightarrow> operand" where
  "init_membase_operand base_reg disp =
     \<lparr>op_type = OPERAND_MEMBASE, op_reg = Some (base_reg, USE_KIND_INPUT), op_index = None, op_val = disp\<rparr>"

definition init_memindex_operand :: "nat \<Rightarrow> nat \<Rightarrow> u64 \<Rightarrow> operand" where
  "init_memindex_operand base_reg index_reg shift =
     \<lparr>op_type = OPERAND_MEMINDEX, op_reg = Some (base_reg, USE_KIND_INPUT), op_index = Some (index_reg, USE_KIND_INPUT),
      op_val = shift\<rparr>"

definition init_reg_operand :: "nat \<Rightarrow> operand_side \<Rightarrow> nat \<Rightarrow> operand" where
  "init_reg_operand t side reg =
     \<lparr>op_type = OPERAND_REG, op_reg = Some (reg, insn_operand_use_kind t side), op_index = None, op_val = 0\<rparr>"

definition init_phi_reg_operand :: "bool \<Rightarrow> nat \<Rightarrow> operand" where
  "init_phi_reg_operand is_dest reg =
     \<lparr>op_type = OPERAND_REG, op_reg = Some (reg, if is_dest then USE_KIND_OUTPUT else USE_KIND_INPUT), op_index = None, op_val = 0\<rparr>"

text \<open>The constructors, one per combination of operands.\<close>

definition memlocal_reg_insn :: "bool \<Rightarrow> nat \<Rightarrow> u64 \<Rightarrow> nat \<Rightarrow> insn option" where
  "memlocal_reg_insn mem t src_slot dest_reg = map_option (\<lambda>i. i\<lparr>src := slot_operand src_slot, dest := init_reg_operand t DestSide dest_reg\<rparr>) (alloc_insn mem t)"

definition membase_reg_insn :: "bool \<Rightarrow> nat \<Rightarrow> nat \<Rightarrow> u64 \<Rightarrow> nat \<Rightarrow> insn option" where
  "membase_reg_insn mem t src_base_reg src_disp dest_reg = map_option (\<lambda>i. i\<lparr>src := init_membase_operand src_base_reg src_disp, dest := init_reg_operand t DestSide dest_reg\<rparr>) (alloc_insn mem t)"

definition memindex_insn :: "bool \<Rightarrow> nat \<Rightarrow> nat \<Rightarrow> nat \<Rightarrow> u64 \<Rightarrow> insn option" where
  "memindex_insn mem t src_base_reg src_index_reg src_shift = map_option (\<lambda>i. i\<lparr>src := init_memindex_operand src_base_reg src_index_reg src_shift\<rparr>) (alloc_insn mem t)"

definition reverse_memindex_insn :: "bool \<Rightarrow> nat \<Rightarrow> nat \<Rightarrow> nat \<Rightarrow> u64 \<Rightarrow> insn option" where
  "reverse_memindex_insn mem t dst_base_reg dst_index_reg dst_shift = map_option (\<lambda>i. i\<lparr>dest := init_memindex_operand dst_base_reg dst_index_reg dst_shift\<rparr>) (alloc_insn mem t)"

definition memindex_reg_insn :: "bool \<Rightarrow> nat \<Rightarrow> nat \<Rightarrow> nat \<Rightarrow> u64 \<Rightarrow> nat \<Rightarrow> insn option" where
  "memindex_reg_insn mem t src_base_reg src_index_reg src_shift dest_reg = map_option (\<lambda>i. i\<lparr>src := init_memindex_operand src_base_reg src_index_reg src_shift, dest := init_reg_operand t DestSide dest_reg\<rparr>) (alloc_insn mem t)"

definition reg_membase_insn :: "bool \<Rightarrow> nat \<Rightarrow> nat \<Rightarrow> nat \<Rightarrow> u64 \<Rightarrow> insn option" where
  "reg_membase_insn mem t src_reg dest_base_reg dest_disp = map_option (\<lambda>i. i\<lparr>src := init_reg_operand t SrcSide src_reg, dest := init_membase_operand dest_base_reg dest_disp\<rparr>) (alloc_insn mem t)"

definition reg_memlocal_insn :: "bool \<Rightarrow> nat \<Rightarrow> nat \<Rightarrow> u64 \<Rightarrow> insn option" where
  "reg_memlocal_insn mem t src_reg dest_slot = map_option (\<lambda>i. i\<lparr>src := init_reg_operand t SrcSide src_reg, dest := slot_operand dest_slot\<rparr>) (alloc_insn mem t)"

definition reg_memindex_insn :: "bool \<Rightarrow> nat \<Rightarrow> nat \<Rightarrow> nat \<Rightarrow> nat \<Rightarrow> u64 \<Rightarrow> insn option" where
  "reg_memindex_insn mem t src_reg dest_base_reg dest_index_reg dest_shift = map_option (\<lambda>i. i\<lparr>src := init_reg_operand t SrcSide src_reg, dest := init_memindex_operand dest_base_reg dest_index_reg dest_shift\<rparr>) (alloc_insn mem t)"

definition imm_reg_insn :: "bool \<Rightarrow> nat \<Rightarrow> u64 \<Rightarrow> nat \<Rightarrow> insn option" where
  "imm_reg_insn mem t imm dest_reg = map_option (\<lambda>i. i\<lparr>src := imm_operand imm, dest := init_reg_operand t DestSide dest_reg\<rparr>) (alloc_insn mem t)"

definition memdisp_reg_insn :: "bool \<Rightarrow> nat \<Rightarrow> u64 \<Rightarrow> nat \<Rightarrow> insn option" where
  "memdisp_reg_insn mem t imm dest_reg = map_option (\<lambda>i. i\<lparr>src := imm_operand imm, dest := init_reg_operand t DestSide dest_reg\<rparr>) (alloc_insn mem t)"

definition reg_memdisp_insn :: "bool \<Rightarrow> nat \<Rightarrow> nat \<Rightarrow> u64 \<Rightarrow> insn option" where
  "reg_memdisp_insn mem t src_reg imm = map_option (\<lambda>i. i\<lparr>src := init_reg_operand t SrcSide src_reg, dest := imm_operand imm\<rparr>) (alloc_insn mem t)"

definition imm_memdisp_insn :: "bool \<Rightarrow> nat \<Rightarrow> u64 \<Rightarrow> u64 \<Rightarrow> insn option" where
  "imm_memdisp_insn mem t imm disp = map_option (\<lambda>i. i\<lparr>src := imm_operand imm, dest := memdisp_operand disp\<rparr>) (alloc_insn mem t)"

definition imm_membase_insn :: "bool \<Rightarrow> nat \<Rightarrow> u64 \<Rightarrow> nat \<Rightarrow> u64 \<Rightarrow> insn option" where
  "imm_membase_insn mem t imm base_reg disp = map_option (\<lambda>i. i\<lparr>src := imm_operand imm, dest := init_membase_operand base_reg disp\<rparr>) (alloc_insn mem t)"

definition reg_insn :: "bool \<Rightarrow> nat \<Rightarrow> nat \<Rightarrow> insn option" where
  "reg_insn mem t reg = map_option (\<lambda>i. i\<lparr>src := init_reg_operand t SrcSide reg\<rparr>) (alloc_insn mem t)"

definition reverse_reg_insn :: "bool \<Rightarrow> nat \<Rightarrow> nat \<Rightarrow> insn option" where
  "reverse_reg_insn mem t reg = map_option (\<lambda>i. i\<lparr>dest := init_reg_operand t DestSide reg\<rparr>) (alloc_insn mem t)"

definition reg_reg_insn :: "bool \<Rightarrow> nat \<Rightarrow> nat \<Rightarrow> nat \<Rightarrow> insn option" where
  "reg_reg_insn mem t src_reg dest_reg = map_option (\<lambda>i. i\<lparr>src := init_reg_operand t SrcSide src_reg, dest := init_reg_operand t DestSide dest_reg\<rparr>) (alloc_insn mem t)"

definition imm_insn :: "bool \<Rightarrow> nat \<Rightarrow> u64 \<Rightarrow> insn option" where
  "imm_insn mem t imm = map_option (\<lambda>i. i\<lparr>src := imm_operand imm\<rparr>) (alloc_insn mem t)"

definition rel_insn :: "bool \<Rightarrow> nat \<Rightarrow> u64 \<Rightarrow> insn option" where
  "rel_insn mem t rel = map_option (\<lambda>i. i\<lparr>src := plain_operand OPERAND_REL rel\<rparr>) (alloc_insn mem t)"

definition branch_insn :: "bool \<Rightarrow> nat \<Rightarrow> u64 \<Rightarrow> insn option" where
  "branch_insn mem t if_true = map_option (\<lambda>i. i\<lparr>src := plain_operand OPERAND_BRANCH if_true\<rparr>) (alloc_insn mem t)"

definition memlocal_insn :: "bool \<Rightarrow> nat \<Rightarrow> u64 \<Rightarrow> insn option" where
  "memlocal_insn mem t slot = map_option (\<lambda>i. i\<lparr>src := slot_operand slot\<rparr>) (alloc_insn mem t)"

definition membase_insn :: "bool \<Rightarrow> nat \<Rightarrow> nat \<Rightarrow> u64 \<Rightarrow> insn option" where
  "membase_insn mem t src_base_reg src_disp = map_option (\<lambda>i. i\<lparr>src := init_membase_operand src_base_reg src_disp\<rparr>) (alloc_insn mem t)"

definition reverse_membase_insn :: "bool \<Rightarrow> nat \<Rightarrow> nat \<Rightarrow> u64 \<Rightarrow> insn option" where
  "reverse_membase_insn mem t dst_base_reg dst_disp = map_option (\<lambda>i. i\<lparr>dest := init_membase_operand dst_base_reg dst_disp\<rparr>) (alloc_insn mem t)"

definition imm_memlocal_insn :: "bool \<Rightarrow> nat \<Rightarrow> u64 \<Rightarrow> u64 \<Rightarrow> insn option" where
  "imm_memlocal_insn mem t imm dst_slot = map_option (\<lambda>i. i\<lparr>src := imm_operand imm, dest := slot_operand dst_slot\<rparr>) (alloc_insn mem t)"

definition ic_call_insn :: "bool \<Rightarrow> nat \<Rightarrow> u64 \<Rightarrow> insn option option" where
  "ic_call_insn mem this imm =
     (case alloc_insn mem INSN_IC_CALL of
        None \<Rightarrow> Some None
      | Some i \<Rightarrow> do { c_assert (insn_operand_use_kind INSN_IC_CALL SrcSide = USE_KIND_INPUT);
                       Some (Some (i\<lparr>src := init_reg_operand INSN_IC_CALL SrcSide this, dest := imm_operand imm\<rparr>)) })"

definition phi_insn :: "bool \<Rightarrow> nat \<Rightarrow> nat \<Rightarrow> nat \<Rightarrow> insn option" where
  "phi_insn mem t var nr_srcs =
     map_option (\<lambda>i. i\<lparr>ssa_dest := init_phi_reg_operand True var,
                       ssa_srcs := replicate nr_srcs (init_phi_reg_operand False var)\<rparr>) (alloc_insn mem t)"

definition ssa_reg_reg_insn :: "bool \<Rightarrow> vm_type \<Rightarrow> nat \<Rightarrow> nat \<Rightarrow> insn option" where
  "ssa_reg_reg_insn mem ty sr dr =
     (case ty of
        J_FLOAT \<Rightarrow> reg_reg_insn mem INSN_MOVSS_XMM_XMM sr dr
      | J_DOUBLE \<Rightarrow> reg_reg_insn mem INSN_MOVSD_XMM_XMM sr dr
      | _ \<Rightarrow> reg_reg_insn mem INSN_MOV_REG_REG sr dr)"

definition ssa_imm_reg_insn :: "bool \<Rightarrow> u64 \<Rightarrow> vm_type \<Rightarrow> nat \<Rightarrow> nat \<Rightarrow> insn option \<times> insn option" where
  "ssa_imm_reg_insn mem imm ty dest_reg gpr =
     (case ty of
        J_FLOAT \<Rightarrow> (imm_reg_insn mem INSN_MOV_IMM_REG imm gpr, reg_reg_insn mem INSN_CONV_GPR_TO_FPU gpr dest_reg)
      | J_DOUBLE \<Rightarrow> (imm_reg_insn mem INSN_MOV_IMM_REG imm gpr, reg_reg_insn mem INSN_CONV_GPR_TO_FPU64 gpr dest_reg)
      | _ \<Rightarrow> (imm_reg_insn mem INSN_MOV_IMM_REG imm dest_reg, None))"

text \<open>The spill and the reload of a variable; the argument \<open>sse2\<close> is the feature of the processor.\<close>

definition spill_insn :: "bool \<Rightarrow> bool \<Rightarrow> vm_type \<Rightarrow> nat \<Rightarrow> u64 \<Rightarrow> insn option option" where
  "spill_insn mem sse2 ty var slot =
     do { c_assert (slot \<noteq> 0);
          t \<leftarrow> (if ty = J_FLOAT then Some INSN_MOVSS_XMM_MEMLOCAL
               else if ty = J_DOUBLE then if sse2 then Some INSN_MOVSD_XMM_MEMLOCAL else None
               else Some INSN_MOV_REG_MEMLOCAL);
          Some (reg_memlocal_insn mem t var slot) }"

definition reload_insn :: "bool \<Rightarrow> bool \<Rightarrow> vm_type \<Rightarrow> u64 \<Rightarrow> nat \<Rightarrow> insn option option" where
  "reload_insn mem sse2 ty slot var =
     do { c_assert (slot \<noteq> 0);
          t \<leftarrow> (if ty = J_FLOAT then Some INSN_MOVSS_MEMLOCAL_XMM
               else if ty = J_DOUBLE then if sse2 then Some INSN_MOVSD_MEMLOCAL_XMM else None
               else Some INSN_MOV_MEMLOCAL_REG);
          Some (memlocal_reg_insn mem t slot var) }"

definition jump_insn :: "bool \<Rightarrow> u64 \<Rightarrow> insn option" where
  "jump_insn mem bb = branch_insn mem INSN_JMP_BRANCH bb"

text \<open>The push and the pop that copy a stack slot.\<close>

definition insert_copy_slot_32_insns :: "bool \<Rightarrow> bool \<Rightarrow> u64 \<Rightarrow> u64 \<Rightarrow> (int \<times> insn list) option" where
  "insert_copy_slot_32_insns mem_push mem_pop from_slot to_slot =
     do { c_assert (from_slot \<noteq> 0);
          c_assert (to_slot \<noteq> 0);
          (case memlocal_insn mem_push INSN_PUSH_MEMLOCAL from_slot of
             None \<Rightarrow> Some (-1, [])
           | Some push \<Rightarrow> (case memlocal_insn mem_pop INSN_POP_MEMLOCAL to_slot of
                              None \<Rightarrow> Some (-1, [])
                            | Some pop \<Rightarrow> Some (0, [push, pop]))) }"

text \<open>A jump to \<open>bb\<close> is redirected: a conditional one is negated and goes to \<open>after_bb\<close>.\<close>

definition ssa_chg_jmp_direction :: "insn \<Rightarrow> u64 \<Rightarrow> u64 \<Rightarrow> u64 \<Rightarrow> insn" where
  "ssa_chg_jmp_direction i after_bb new_bb bb =
     (let hit = (op_val (src i) = bb); t = insn_type i; go = (\<lambda>b t. i\<lparr>src := (src i)\<lparr>op_val := b\<rparr>, insn_type := t\<rparr>)
      in if t = INSN_JE_BRANCH then if hit then go after_bb INSN_JNE_BRANCH else i
         else if t = INSN_JNE_BRANCH then if hit then go after_bb INSN_JE_BRANCH else i
         else if t = INSN_JGE_BRANCH then if hit then go after_bb INSN_JL_BRANCH else i
         else if t = INSN_JL_BRANCH then if hit then go after_bb INSN_JGE_BRANCH else i
         else if t = INSN_JG_BRANCH then if hit then go after_bb INSN_JLE_BRANCH else i
         else if t = INSN_JLE_BRANCH then if hit then go after_bb INSN_JG_BRANCH else i
         else if t = INSN_JMP_BRANCH then if hit then go new_bb INSN_JMP_BRANCH else i
         else i)"

definition ssa_modify_insn_type :: "insn \<Rightarrow> int \<times> insn" where
  "ssa_modify_insn_type i =
     (let t = insn_type i
      in if t = INSN_MOV_REG_MEMBASE then (0, i\<lparr>insn_type := INSN_MOV_IMM_MEMBASE\<rparr>)
         else if t = INSN_MOV_REG_REG then (0, i\<lparr>insn_type := INSN_MOV_IMM_REG\<rparr>)
         else if t = INSN_MOV_REG_THREAD_LOCAL_MEMBASE then (0, i\<lparr>insn_type := INSN_MOV_IMM_THREAD_LOCAL_MEMBASE\<rparr>)
         else if t = INSN_MOV_REG_MEMLOCAL then (0, i\<lparr>insn_type := INSN_MOV_IMM_MEMLOCAL\<rparr>)
         else (-1, i))"

section \<open>Uses and definitions\<close>

definition insn_use_def_dst :: "insn \<Rightarrow> bool option" where
  "insn_use_def_dst i =
     do { flags \<leftarrow> read_at insn_flags (insn_type i); Some (flags AND DEF_DST \<noteq> 0 \<and> flags AND USE_DST \<noteq> 0) }"

definition insn_use_def_src :: "insn \<Rightarrow> bool option" where
  "insn_use_def_src i =
     do { flags \<leftarrow> read_at insn_flags (insn_type i); Some (flags AND DEF_SRC \<noteq> 0 \<and> flags AND USE_SRC \<noteq> 0) }"

definition insn_use_def :: "insn \<Rightarrow> bool option" where
  "insn_use_def i =
     do { d \<leftarrow> insn_use_def_dst i;
          if d then Some True else insn_use_def_src i }"

text \<open>One conditional store \<open>defs[nr++] = ...\<close>: nothing, or the variable of a register that has to exist.\<close>

definition pick :: "bool \<Rightarrow> (nat \<times> i32) option \<Rightarrow> nat list option" where
  "pick b r = (if b then map_option (\<lambda>x. [fst x]) r else Some [])"

definition checkregs :: "(nat \<times> u64) list" where
  "checkregs = [(0, DEF_xAX), (1, DEF_xCX), (2, DEF_xDX)]"

fun checkregs_loop :: "u64 \<Rightarrow> nat option list \<Rightarrow> (nat \<times> u64) list \<Rightarrow> nat list option" where
  "checkregs_loop flags fixed [] = Some []"
| "checkregs_loop flags fixed ((reg, d) # rs) =
     (if flags AND d \<noteq> 0
      then do { f \<leftarrow> read_at fixed reg; v \<leftarrow> f; vs \<leftarrow> checkregs_loop flags fixed rs; Some (v # vs) }
      else checkregs_loop flags fixed rs)"

text \<open>The argument \<open>fixed\<close> is \<open>fixed_var_infos\<close> of the compilation unit. The callers dereference every variable of
  the result, so that a null one faults here.\<close>

definition insn_defs :: "nat option list \<Rightarrow> insn \<Rightarrow> nat list option" where
  "insn_defs fixed i =
     do { flags \<leftarrow> read_at insn_flags (insn_type i);
          d1 \<leftarrow> pick (flags AND DEF_SRC \<noteq> 0) (op_reg (src i));
          d2 \<leftarrow> pick (flags AND DEF_DST \<noteq> 0) (op_reg (dest i));
          d3 \<leftarrow> checkregs_loop flags fixed checkregs;
          Some (d1 @ d2 @ d3) }"

definition insn_uses :: "insn \<Rightarrow> nat list option" where
  "insn_uses i =
     do { flags \<leftarrow> read_at insn_flags (insn_type i);
          u1 \<leftarrow> pick (flags AND USE_SRC \<noteq> 0) (op_reg (src i));
          u2 \<leftarrow> pick (flags AND USE_DST \<noteq> 0) (op_reg (dest i));
          u3 \<leftarrow> pick (flags AND USE_IDX_SRC \<noteq> 0) (op_index (src i));
          u4 \<leftarrow> pick (flags AND USE_IDX_DST \<noteq> 0) (op_index (dest i));
          Some (u1 @ u2 @ u3 @ u4) }"

text \<open>The use positions themselves, as the dead code elimination and the renaming read them.\<close>

definition insn_is_phi :: "insn \<Rightarrow> bool" where
  "insn_is_phi i \<longleftrightarrow> insn_type i = INSN_PHI"

definition insn_defs_reg :: "insn \<Rightarrow> (nat \<times> i32) option list option" where
  "insn_defs_reg i =
     do { flags \<leftarrow> read_at insn_flags (insn_type i);
          Some ((if flags AND DEF_SRC \<noteq> 0 then [op_reg (src i)] else []) @
                (if flags AND DEF_DST \<noteq> 0
                 then [if insn_type i \<noteq> INSN_PHI then op_reg (dest i) else op_reg (ssa_dest i)] else [])) }"

definition insn_uses_reg :: "insn \<Rightarrow> (nat \<times> i32) option list option" where
  "insn_uses_reg i =
     do { flags \<leftarrow> read_at insn_flags (insn_type i);
          if insn_is_phi i then Some (if flags AND USE_SRC \<noteq> 0 then map op_reg (ssa_srcs i) else [])
          else Some ((if flags AND USE_SRC \<noteq> 0 then [op_reg (src i)] else []) @
                     (if flags AND USE_DST \<noteq> 0 then [op_reg (dest i)] else []) @
                     (if flags AND USE_IDX_SRC \<noteq> 0 then [op_index (src i)] else []) @
                     (if flags AND USE_IDX_DST \<noteq> 0 then [op_index (dest i)] else [])) }"

definition insn_vreg_def :: "nat \<times> i32 \<Rightarrow> nat \<Rightarrow> bool" where
  "insn_vreg_def u var \<longleftrightarrow> snd u = USE_KIND_OUTPUT \<and> fst u = var"

definition insn_vreg_use :: "nat \<times> i32 \<Rightarrow> nat \<Rightarrow> bool" where
  "insn_vreg_use u var \<longleftrightarrow> (if snd u = USE_KIND_INVALID then True else snd u = USE_KIND_INPUT \<and> fst u = var)"

definition insn_is_mov_imm_reg :: "insn \<Rightarrow> bool" where
  "insn_is_mov_imm_reg i \<longleftrightarrow> insn_type i = INSN_MOV_IMM_REG"

definition insn_is_branch :: "insn \<Rightarrow> bool option" where
  "insn_is_branch i = do { flags \<leftarrow> read_at insn_flags (insn_type i); Some (flags AND TYPE_BRANCH \<noteq> 0) }"

definition insn_is_jmp_mem :: "insn option \<Rightarrow> bool" where
  "insn_is_jmp_mem i =
     (case i of None \<Rightarrow> False | Some i \<Rightarrow> insn_type i = INSN_JMP_MEMINDEX \<or> insn_type i = INSN_JMP_MEMBASE)"

definition nr_srcs_phi :: "insn \<Rightarrow> nat" where
  "nr_srcs_phi i = (if \<not> insn_is_phi i then 0 else length (ssa_srcs i))"

definition insn_is_call :: "insn \<Rightarrow> bool" where
  "insn_is_call i \<longleftrightarrow> insn_type i = INSN_IC_CALL \<or> insn_type i = INSN_CALL_REG \<or> insn_type i = INSN_CALL_REL"

definition insn_is_call_to :: "insn \<Rightarrow> u64 \<Rightarrow> bool" where
  "insn_is_call_to i target \<longleftrightarrow> (if \<not> insn_is_call i then False else op_val (src i) = target)"

definition insn_is_jmp_branch :: "insn \<Rightarrow> bool" where
  "insn_is_jmp_branch i \<longleftrightarrow> insn_type i = INSN_JMP_BRANCH"

definition insn_is_copy :: "insn \<Rightarrow> bool" where
  "insn_is_copy i \<longleftrightarrow>
     insn_type i = INSN_MOV_REG_REG \<or> insn_type i = INSN_MOVSD_XMM_XMM \<or> insn_type i = INSN_MOVSS_XMM_XMM"

section \<open>The table\<close>

lemmas flag_defs = DEF_DST_def DEF_SRC_def DEF_NONE_def DEF_xAX_def DEF_xCX_def DEF_xDX_def USE_DST_def USE_IDX_DST_def
  USE_IDX_SRC_def USE_NONE_def USE_SRC_def USE_FP_def TYPE_BRANCH_def TYPE_CALL_def

lemma flag_values:
  "DEF_DST = 2" "DEF_SRC = 4" "DEF_NONE = 8" "DEF_xAX = 16" "DEF_xCX = 32" "DEF_xDX = 64" "USE_DST = 128"
  "USE_IDX_DST = 256" "USE_IDX_SRC = 512" "USE_NONE = 1024" "USE_SRC = 2048" "USE_FP = 4096" "TYPE_BRANCH = 8192"
  "TYPE_CALL = 16384"
  by (simp_all add: flag_defs push_bit_eq_mult)

lemma insn_flags_values:
  "insn_flags =
    [130, 2178, 2178, 2178, 2178, 130, 2178, 2178, 2178, 2178, 16520, 17416, 2054, 128, 2176, 2176, 2050,
     2050, 2050, 2050, 2050, 2050, 2178, 2178, 2258, 2258, 2048, 2056, 2056, 2056, 4104, 2056, 4104, 2056,
     2056, 4104, 2056, 4104, 18480, 9224, 9224, 9224, 9224, 9224, 9224, 8328, 8584, 9224, 2050, 1026, 2562,
     4098, 2176, 2056, 2440, 2048, 2050, 2050, 1026, 2562, 4098, 2176, 2056, 2440, 2048, 2050, 2050, 2050,
     2050, 2050, 2050, 2050, 128, 4104, 2, 136, 2050, 1026, 2562, 4098, 2176, 2056, 2440, 2048, 2050, 2184,
     2056, 1026, 130, 2178, 2178, 2130, 2258, 2178, 130, 1032, 136, 2178, 2178, 2050, 2056, 1026, 1032, 2056,
     2056, 9224, 130, 2178, 130, 2178, 2178, 2178, 2178, 2178, 2178, 130, 2178, 2178, 1032, 2184, 2178, 2178,
     2178, 2178, 1032, 1032, 1032, 1032, 1032, 1032]"
  by (simp add: insn_flags_def flag_values)

section \<open>What the instructions read and write\<close>

text \<open>The registers that the processor reads and writes depend on the operation. The types of the instructions by
  their operation and their operands: arithmetic on two registers reads both and writes the second; a move or a
  conversion reads the first and writes the second; a comparison writes none.\<close>

definition arith_reg_reg :: "nat list" where
  "arith_reg_reg =
     [ 2 \<comment> \<open>\<open>ADC\<close>\<close>, 3 \<comment> \<open>\<open>ADDSD\<close>\<close>, 4 \<comment> \<open>\<open>ADDSS\<close>\<close>, 7 \<comment> \<open>\<open>ADD\<close>\<close>, 9 \<comment> \<open>\<open>AND\<close>\<close>, 22 \<comment> \<open>\<open>DIVSD\<close>\<close>, 23 \<comment> \<open>\<open>DIVSS\<close>\<close>,
       89 \<comment> \<open>\<open>MULSD\<close>\<close>, 90 \<comment> \<open>\<open>MULSS\<close>\<close>, 93 \<comment> \<open>\<open>MUL\<close>\<close>, 98 \<comment> \<open>\<open>OR\<close>\<close>, 107 \<comment> \<open>\<open>SAR\<close>\<close>, 110 \<comment> \<open>\<open>SBB\<close>\<close>, 111 \<comment> \<open>\<open>SHL\<close>\<close>,
       112 \<comment> \<open>\<open>SHR\<close>\<close>, 113 \<comment> \<open>\<open>SUBSD\<close>\<close>, 114 \<comment> \<open>\<open>SUBSS\<close>\<close>, 117 \<comment> \<open>\<open>SUB\<close>\<close>, 120 \<comment> \<open>\<open>XORPD\<close>\<close>, 122 \<comment> \<open>\<open>XOR\<close>\<close>,
       123 \<comment> \<open>\<open>XORPS\<close>\<close> ]"

definition move_reg_reg :: "nat list" where
  "move_reg_reg =
     [ 16, 17, 18, 19, 20, 21 \<comment> \<open>\<open>CONV_*\<close>\<close>, 56 \<comment> \<open>\<open>MOVSD\<close>\<close>, 65 \<comment> \<open>\<open>MOVSS\<close>\<close>, 66 \<comment> \<open>\<open>MOVSXD\<close>\<close>, 68 \<comment> \<open>\<open>MOVSX_16\<close>\<close>,
       70 \<comment> \<open>\<open>MOVSX_8\<close>\<close>, 71 \<comment> \<open>\<open>MOVZX_16\<close>\<close>, 84 \<comment> \<open>\<open>MOV\<close>\<close> ]"

definition compare_reg_reg :: "nat list" where
  "compare_reg_reg = [ 15 \<comment> \<open>\<open>CMP\<close>\<close> ]"

text \<open>The long forms of multiplication and division also write \<open>rax\<close> and \<open>rdx\<close>.\<close>

definition long_reg_reg :: "nat list" where
  "long_reg_reg = [ 25 \<comment> \<open>\<open>DIV\<close>\<close>, 92 \<comment> \<open>\<open>MUL_REG_EAX\<close>\<close> ]"

definition arith_membase_reg :: "nat list" where
  "arith_membase_reg =
     [ 1 \<comment> \<open>\<open>ADC\<close>\<close>, 6 \<comment> \<open>\<open>ADD\<close>\<close>, 8 \<comment> \<open>\<open>AND\<close>\<close>, 97 \<comment> \<open>\<open>OR\<close>\<close>, 109 \<comment> \<open>\<open>SBB\<close>\<close>, 116 \<comment> \<open>\<open>SUB\<close>\<close>, 121 \<comment> \<open>\<open>XOR\<close>\<close> ]"

definition move_membase_reg :: "nat list" where
  "move_membase_reg =
     [ 48 \<comment> \<open>\<open>MOVSD\<close>\<close>, 57 \<comment> \<open>\<open>MOVSS\<close>\<close>, 67 \<comment> \<open>\<open>MOVSX_16\<close>\<close>, 69 \<comment> \<open>\<open>MOVSX_8\<close>\<close>, 76 \<comment> \<open>\<open>MOV\<close>\<close> ]"

definition compare_membase_reg :: "nat list" where
  "compare_membase_reg = [ 14 \<comment> \<open>\<open>CMP\<close>\<close>, 119 \<comment> \<open>\<open>TEST\<close>\<close> ]"

definition move_memindex_reg :: "nat list" where
  "move_memindex_reg = [ 50 \<comment> \<open>\<open>MOVSD\<close>\<close>, 59 \<comment> \<open>\<open>MOVSS\<close>\<close>, 78 \<comment> \<open>\<open>MOV\<close>\<close> ]"

definition move_reg_membase :: "nat list" where
  "move_reg_membase = [ 52 \<comment> \<open>\<open>MOVSD\<close>\<close>, 61 \<comment> \<open>\<open>MOVSS\<close>\<close>, 80 \<comment> \<open>\<open>MOV\<close>\<close>, 85 \<comment> \<open>\<open>MOV\<close>, thread local\<close> ]"

definition move_reg_memindex :: "nat list" where
  "move_reg_memindex = [ 54 \<comment> \<open>\<open>MOVSD\<close>\<close>, 63 \<comment> \<open>\<open>MOVSS\<close>\<close>, 82 \<comment> \<open>\<open>MOV\<close>\<close> ]"

definition arith_imm_reg :: "nat list" where
  "arith_imm_reg = [ 0 \<comment> \<open>\<open>ADC\<close>\<close>, 5 \<comment> \<open>\<open>ADD\<close>\<close>, 106 \<comment> \<open>\<open>SAR\<close>\<close>, 108 \<comment> \<open>\<open>SBB\<close>\<close>, 115 \<comment> \<open>\<open>SUB\<close>\<close> ]"

text \<open>The use positions that the constructors add to the intervals of the variables.\<close>

definition set_option_list :: "'a option \<Rightarrow> 'a list" where
  "set_option_list x = (case x of None \<Rightarrow> [] | Some a \<Rightarrow> [a])"

definition registered :: "insn \<Rightarrow> (nat \<times> i32) list" where
  "registered i = set_option_list (op_reg (src i)) @ set_option_list (op_reg (dest i)) @
     set_option_list (op_index (src i)) @ set_option_list (op_index (dest i))"

definition with_kind :: "i32 \<Rightarrow> (nat \<times> i32) list \<Rightarrow> nat list" where
  "with_kind k us = map fst (filter (\<lambda>u. snd u AND k \<noteq> 0) us)"

text \<open>A constructor returns an instruction that reads \<open>rs\<close> and writes \<open>ws\<close> and the hidden registers \<open>hs\<close>: the
  liveness analysis sees it, and the use positions of its operands say so.\<close>

definition reads_writes :: "nat option list \<Rightarrow> insn option \<Rightarrow> nat set \<Rightarrow> nat set \<Rightarrow> nat set \<Rightarrow> bool" where
  "reads_writes fixed i rs ws hs \<longleftrightarrow>
     (\<exists>j us ds. i = Some j \<and> insn_uses j = Some us \<and> insn_defs fixed j = Some ds \<and> set us = rs \<and> set ds = ws \<union> hs \<and>
        set (with_kind USE_KIND_INPUT (registered j)) = rs \<and> set (with_kind USE_KIND_OUTPUT (registered j)) = ws)"

lemmas operand_defs = plain_operand_def imm_operand_def slot_operand_def init_membase_operand_def init_memindex_operand_def
  init_reg_operand_def alloc_insn_def

lemma with_kind_simps [simp]:
  "with_kind k [] = []" "with_kind k (u # us) = (if snd u AND k \<noteq> 0 then fst u # with_kind k us else with_kind k us)"
  by (simp_all add: with_kind_def)

lemmas effect_defs = reads_writes_def insn_uses_def insn_defs_def registered_def set_option_list_def
  pick_def checkregs_def insn_operand_use_kind_def flags_of_def USE_KIND_INPUT_def USE_KIND_OUTPUT_def read_at_def operand_defs

lemma reg_reg_effect:
  assumes "t < length insn_flags"
  shows "insn_flags ! t = 2178 \<Longrightarrow> reads_writes fixed (reg_reg_insn True t s d) {s, d} {d} {}"
    and "insn_flags ! t = 2050 \<Longrightarrow> reads_writes fixed (reg_reg_insn True t s d) {s} {d} {}"
    and "insn_flags ! t = 2176 \<Longrightarrow> reads_writes fixed (reg_reg_insn True t s d) {s, d} {} {}"
    and "insn_flags ! t = 2258 \<Longrightarrow> length fixed = 32 \<Longrightarrow> fixed ! 0 = Some a \<Longrightarrow> fixed ! 2 = Some c \<Longrightarrow>
      reads_writes fixed (reg_reg_insn True t s d) {s, d} {d} {a, c}"
  using assms by (simp_all add: reg_reg_insn_def effect_defs flag_values insert_commute)

lemma membase_reg_effect:
  assumes "t < length insn_flags"
  shows "insn_flags ! t = 2178 \<Longrightarrow> reads_writes fixed (membase_reg_insn True t b disp d) {b, d} {d} {}"
    and "insn_flags ! t = 2050 \<Longrightarrow> reads_writes fixed (membase_reg_insn True t b disp d) {b} {d} {}"
    and "insn_flags ! t = 2176 \<Longrightarrow> reads_writes fixed (membase_reg_insn True t b disp d) {b, d} {} {}"
    and "insn_flags ! t = 2184 \<Longrightarrow> reads_writes fixed (membase_reg_insn True t b disp d) {b, d} {} {}"
  using assms by (simp_all add: membase_reg_insn_def effect_defs flag_values)

lemma memory_effect:
  assumes "t < length insn_flags"
  shows "insn_flags ! t = 2562 \<Longrightarrow> reads_writes fixed (memindex_reg_insn True t b x shift d) {b, x} {d} {}"
    and "insn_flags ! t = 2176 \<Longrightarrow> reads_writes fixed (reg_membase_insn True t s b disp) {s, b} {} {}"
    and "insn_flags ! t = 2184 \<Longrightarrow> reads_writes fixed (reg_membase_insn True t s b disp) {s, b} {} {}"
    and "insn_flags ! t = 2440 \<Longrightarrow> reads_writes fixed (reg_memindex_insn True t s b x shift) {s, b, x} {} {}"
  using assms by (simp_all add: memindex_reg_insn_def reg_membase_insn_def reg_memindex_insn_def effect_defs flag_values)

lemma imm_local_effect:
  assumes "t < length insn_flags"
  shows "insn_flags ! t = 130 \<Longrightarrow> reads_writes fixed (imm_reg_insn True t imm d) {d} {d} {}"
    and "insn_flags ! t = 2 \<Longrightarrow> reads_writes fixed (imm_reg_insn True t imm d) {} {d} {}"
    and "insn_flags ! t = 128 \<Longrightarrow> reads_writes fixed (imm_reg_insn True t imm d) {d} {} {}"
    and "insn_flags ! t = 4098 \<Longrightarrow> reads_writes fixed (memlocal_reg_insn True t slot d) {} {d} {}"
    and "insn_flags ! t = 2048 \<Longrightarrow> reads_writes fixed (reg_memlocal_insn True t s slot) {s} {} {}"
  using assms by (simp_all add: imm_reg_insn_def memlocal_reg_insn_def reg_memlocal_insn_def effect_defs flag_values)

lemma two_reads_effect:
  assumes "t < length insn_flags" "insn_flags ! t = 2176 \<or> insn_flags ! t = 2184"
  shows "reads_writes fixed (membase_reg_insn True t b disp d) {b, d} {} {}"
    and "reads_writes fixed (reg_membase_insn True t s b disp) {s, b} {} {}"
  using assms membase_reg_effect(3,4) memory_effect(2,3) by blast+

lemmas type_lists = arith_reg_reg_def move_reg_reg_def compare_reg_reg_def long_reg_reg_def arith_membase_reg_def
  move_membase_reg_def compare_membase_reg_def move_memindex_reg_def move_reg_membase_def move_reg_memindex_def arith_imm_reg_def

lemma type_flags:
  "list_all (\<lambda>t. insn_flags ! t = 2178) (arith_reg_reg @ arith_membase_reg)"
  "list_all (\<lambda>t. insn_flags ! t = 2050) (move_reg_reg @ move_membase_reg)"
  "list_all (\<lambda>t. insn_flags ! t = 2258) long_reg_reg"
  "list_all (\<lambda>t. insn_flags ! t = 2176 \<or> insn_flags ! t = 2184) (compare_reg_reg @ compare_membase_reg @ move_reg_membase)"
  "list_all (\<lambda>t. insn_flags ! t = 2176) compare_reg_reg"
  "list_all (\<lambda>t. insn_flags ! t = 2562) move_memindex_reg"
  "list_all (\<lambda>t. insn_flags ! t = 2440) move_reg_memindex"
  "list_all (\<lambda>t. insn_flags ! t = 130) arith_imm_reg"
  "list_all (\<lambda>t. t < length insn_flags) (arith_reg_reg @ move_reg_reg @ compare_reg_reg @ long_reg_reg @ arith_membase_reg @
    move_membase_reg @ compare_membase_reg @ move_memindex_reg @ move_reg_membase @ move_reg_memindex @ arith_imm_reg)"
  by (simp_all add: type_lists insn_flags_values)

lemma single_flags:
  "insn_flags ! 74 = 2" "insn_flags ! 13 = 128" "insn_flags ! INSN_MOV_MEMLOCAL_REG = 4098" "insn_flags ! INSN_MOV_REG_MEMLOCAL = 2048"
  "13 < length insn_flags" "74 < length insn_flags" "INSN_MOV_MEMLOCAL_REG < length insn_flags" "INSN_MOV_REG_MEMLOCAL < length insn_flags"
  by (simp_all add: insn_flags_values INSN_MOV_MEMLOCAL_REG_def INSN_MOV_REG_MEMLOCAL_def)



end
