(* ===== verification/Liveness.thy ===== *)
theory Liveness
  imports Insn Bitset Radix_Tree
begin

text \<open>
  The liveness analysis of the compiler, \<open>jit/liveness.c\<close>, with the numbering of the instructions and the variables
  of \<open>jit/compilation-unit.c\<close>. A compilation unit is the list of its basic blocks in the order of \<open>bb_list\<close> and
  the list of its variables; a pointer to a block or to a variable is its index there. The list of variables grows at
  its end (the source links a new variable in front). One boolean says whether the allocations succeed.
\<close>

section \<open>Data\<close>

record var_info =
  vreg :: u32
  v_type :: vm_type
  interval :: live_interval

record basic_block =
  insn_list :: "insn list"
  successors :: "nat list"
  start_insn :: nat
  end_insn :: nat
  def_set :: bitset
  use_set :: bitset
  live_in_set :: bitset
  live_out_set :: bitset

record compilation_unit =
  bb_list :: "basic_block list"
  var_infos :: "var_info list"
  nr_vregs :: u64
  fixed_var_infos :: "nat option list"
  regalloc_done :: bool
  last_insn :: nat
  lir_insn_map :: "(nat \<times> nat) radix_tree"

definition NR_GP_REGISTERS :: nat where "NR_GP_REGISTERS = 14"
definition NR_FP_REGISTERS :: nat where "NR_FP_REGISTERS = 30"
definition NR_REGISTERS :: nat where "NR_REGISTERS = NR_FP_REGISTERS"
definition NR_FIXED_REGISTERS :: nat where "NR_FIXED_REGISTERS = 32"

text \<open>\<open>RAX RDI RSI RDX RCX R8 R9 R10 R11\<close> and the registers \<open>XMM0\<close> to \<open>XMM15\<close>, as numbers of \<open>enum machine_reg\<close>.\<close>

definition caller_save_regs :: "nat list" where
  "caller_save_regs = [0, 5, 4, 2, 1, 6, 7, 8, 9, 14, 15, 16, 17, 18, 19, 20, 21, 22, 23, 24, 25, 26, 27, 28, 29]"

definition reg_default_type :: "nat \<Rightarrow> vm_type" where
  "reg_default_type reg =
     (if reg < NR_GP_REGISTERS then J_LONG else if reg < NR_FP_REGISTERS then J_DOUBLE else J_LONG)"

section \<open>Variables\<close>

text \<open>The flags say whether the allocations of the variable and of its interval succeed. The second one is not checked:
  the null interval that it leaves is dereferenced by the next access to the variable, which is here.\<close>

definition do_get_var :: "bool \<Rightarrow> bool \<Rightarrow> compilation_unit \<Rightarrow> vm_type \<Rightarrow> u32 \<Rightarrow> live_interval \<Rightarrow> (nat option \<times> compilation_unit) option" where
  "do_get_var mem mem' cu ty vr it =
     do { c_assert (\<not> regalloc_done cu);
          if \<not> mem then Some (None, cu)
          else if \<not> mem' then None
          else Some (Some (length (var_infos cu)), cu\<lparr>var_infos := var_infos cu @ [\<lparr>vreg = vr, v_type = ty, interval = it\<rparr>]\<rparr>) }"

definition get_var :: "bool \<Rightarrow> bool \<Rightarrow> compilation_unit \<Rightarrow> vm_type \<Rightarrow> (nat option \<times> compilation_unit) option" where
  "get_var mem mem' cu ty =
     do { (v, cu') \<leftarrow> do_get_var mem mem' cu ty (ucast (nr_vregs cu)) alloc_interval;
          Some (if v = None then (None, cu') else (v, cu'\<lparr>nr_vregs := nr_vregs cu' + 1\<rparr>)) }"

definition get_fixed_var :: "bool \<Rightarrow> bool \<Rightarrow> compilation_unit \<Rightarrow> nat \<Rightarrow> (nat option \<times> compilation_unit) option" where
  "get_fixed_var mem mem' cu reg =
     do { c_assert (reg < NR_FIXED_REGISTERS);
          f \<leftarrow> read_at (fixed_var_infos cu) reg;
          (case f of
             Some v \<Rightarrow> Some (Some v, cu)
           | None \<Rightarrow>
               do { (v, cu') \<leftarrow> do_get_var mem mem' cu (reg_default_type reg) (of_nat reg)
                                  (alloc_interval\<lparr>it_reg := Some reg, fixed_reg := True\<rparr>);
                    Some (v, cu'\<lparr>fixed_var_infos := (fixed_var_infos cu')[reg := v]\<rparr>) }) }"

section \<open>Positions\<close>

text \<open>Every instruction takes two positions; the tree maps a position to the block and the index of its instruction.
  The result of the insertion is not looked at.\<close>

fun position_insns ::
  "bool \<Rightarrow> nat \<Rightarrow> nat \<Rightarrow> insn list \<Rightarrow> nat \<Rightarrow> (nat \<times> nat) radix_tree \<Rightarrow> (insn list \<times> nat \<times> (nat \<times> nat) radix_tree) option" where
  "position_insns mem b k [] pos t = Some ([], pos, t)"
| "position_insns mem b k (i # is) pos t =
     do { (_, t') \<leftarrow> radix_tree_insert (\<lambda>_. mem) t (of_nat pos) (b, k);
          (is', pos', t'') \<leftarrow> position_insns mem b (Suc k) is (pos + 2) t';
          Some (i\<lparr>lir_pos := pos\<rparr> # is', pos', t'') }"

fun position_blocks ::
  "bool \<Rightarrow> nat \<Rightarrow> basic_block list \<Rightarrow> nat \<Rightarrow> (nat \<times> nat) radix_tree \<Rightarrow>
   (basic_block list \<times> nat \<times> (nat \<times> nat) radix_tree) option" where
  "position_blocks mem b [] pos t = Some ([], pos, t)"
| "position_blocks mem b (bb # bbs) pos t =
     do { (is, pos', t') \<leftarrow> position_insns mem b 0 (insn_list bb) pos t;
          (bbs', pos'', t'') \<leftarrow> position_blocks mem (Suc b) bbs pos' t';
          Some (bb\<lparr>start_insn := pos, insn_list := is, end_insn := pos'\<rparr> # bbs', pos'', t'') }"

definition compute_insn_positions :: "bool \<Rightarrow> compilation_unit \<Rightarrow> compilation_unit option" where
  "compute_insn_positions mem cu =
     do { t \<leftarrow> alloc_radix_tree mem mem 8 64;
          t \<leftarrow> t;
          (bbs, pos, t') \<leftarrow> position_blocks mem 0 (bb_list cu) 0 t;
          Some (cu\<lparr>bb_list := bbs, lir_insn_map := t', last_insn := pos\<rparr>) }"

section \<open>Sets\<close>

definition init_block_sets :: "bool \<Rightarrow> u64 \<Rightarrow> basic_block \<Rightarrow> int \<times> basic_block" where
  "init_block_sets mem nr bb =
     (case alloc_bitset mem nr of
        None \<Rightarrow> (- ENOMEM, bb)
      | Some s \<Rightarrow> (0, bb\<lparr>use_set := s, def_set := s, live_in_set := s, live_out_set := s\<rparr>))"

fun init_sets_loop :: "bool \<Rightarrow> u64 \<Rightarrow> basic_block list \<Rightarrow> int \<times> basic_block list" where
  "init_sets_loop mem nr [] = (0, [])"
| "init_sets_loop mem nr (bb # bbs) =
     (case init_block_sets mem nr bb of
        (err, bb') \<Rightarrow> if err \<noteq> 0 then (err, bb' # bbs)
                       else case init_sets_loop mem nr bbs of (err, bbs') \<Rightarrow> (err, bb' # bbs'))"

definition init_sets :: "bool \<Rightarrow> compilation_unit \<Rightarrow> int \<times> compilation_unit" where
  "init_sets mem cu =
     (case init_sets_loop mem (nr_vregs cu) (bb_list cu) of (err, bbs) \<Rightarrow> (err, cu\<lparr>bb_list := bbs\<rparr>))"

definition var_bit :: "var_info list \<Rightarrow> nat \<Rightarrow> u64 option" where
  "var_bit vars v = map_option (\<lambda>x. ucast (vreg x)) (read_at vars v)"

fun use_loop :: "var_info list \<Rightarrow> nat list \<Rightarrow> basic_block \<Rightarrow> basic_block option" where
  "use_loop vars [] bb = Some bb"
| "use_loop vars (v # vs) bb =
     do { i \<leftarrow> var_bit vars v;
          t \<leftarrow> test_bit (bits (def_set bb)) i;
          bb' \<leftarrow> (if \<not> t then do { ws \<leftarrow> set_bit (bits (use_set bb)) i; Some (bb\<lparr>use_set := (use_set bb)\<lparr>bits := ws\<rparr>\<rparr>) }
                 else Some bb);
          use_loop vars vs bb' }"

fun def_loop :: "var_info list \<Rightarrow> nat list \<Rightarrow> basic_block \<Rightarrow> basic_block option" where
  "def_loop vars [] bb = Some bb"
| "def_loop vars (v # vs) bb =
     do { i \<leftarrow> var_bit vars v;
          ws \<leftarrow> set_bit (bits (def_set bb)) i;
          def_loop vars vs (bb\<lparr>def_set := (def_set bb)\<lparr>bits := ws\<rparr>\<rparr>) }"

definition analyze_insn_use_def :: "compilation_unit \<Rightarrow> basic_block \<Rightarrow> insn \<Rightarrow> basic_block option" where
  "analyze_insn_use_def cu bb i =
     do { uses \<leftarrow> insn_uses i;
          bb' \<leftarrow> use_loop (var_infos cu) uses bb;
          defs \<leftarrow> insn_defs (fixed_var_infos cu) i;
          def_loop (var_infos cu) defs bb' }"

fun analyze_block_use_def :: "compilation_unit \<Rightarrow> insn list \<Rightarrow> basic_block \<Rightarrow> basic_block option" where
  "analyze_block_use_def cu [] bb = Some bb"
| "analyze_block_use_def cu (i # is) bb = do { bb' \<leftarrow> analyze_insn_use_def cu bb i; analyze_block_use_def cu is bb' }"

fun analyze_blocks_use_def :: "compilation_unit \<Rightarrow> basic_block list \<Rightarrow> basic_block list option" where
  "analyze_blocks_use_def cu [] = Some []"
| "analyze_blocks_use_def cu (bb # bbs) =
     do { bb' \<leftarrow> analyze_block_use_def cu (insn_list bb) bb; bbs' \<leftarrow> analyze_blocks_use_def cu bbs; Some (bb' # bbs') }"

definition analyze_use_def :: "compilation_unit \<Rightarrow> compilation_unit option" where
  "analyze_use_def cu = do { bbs \<leftarrow> analyze_blocks_use_def cu (bb_list cu); Some (cu\<lparr>bb_list := bbs\<rparr>) }"

text \<open>The loop over the successors of a block; the block may be its own successor.\<close>

fun succ_loop :: "basic_block list \<Rightarrow> nat list \<Rightarrow> bitset \<Rightarrow> bitset option" where
  "succ_loop bbs [] out = Some out"
| "succ_loop bbs (s # ss) out =
     do { succ \<leftarrow> read_at bbs s; out' \<leftarrow> bitset_union_to (live_in_set succ) out; succ_loop bbs ss out' }"

text \<open>The body of the iteration for the block \<open>i\<close>: whether a set changed, the blocks and the two saved sets.\<close>

definition live_step ::
  "basic_block list \<Rightarrow> nat \<Rightarrow> bitset \<times> bitset \<Rightarrow> (bool \<times> basic_block list \<times> bitset \<times> bitset) option" where
  "live_step bbs i olds =
     do { this \<leftarrow> read_at bbs i;
          old_in \<leftarrow> bitset_copy_to (live_in_set this) (fst olds);
          old_out \<leftarrow> bitset_copy_to (live_out_set this) (snd olds);
          in1 \<leftarrow> bitset_copy_to (live_out_set this) (live_in_set this);
          in2 \<leftarrow> bitset_sub (def_set this) in1;
          in3 \<leftarrow> bitset_union_to (use_set this) in2;
          let bbs1 = bbs[i := this\<lparr>live_in_set := in3\<rparr>] in
          do { out1 \<leftarrow> bitset_clear_all (live_out_set this);
               out2 \<leftarrow> succ_loop bbs1 (successors this) out1;
               same_in \<leftarrow> bitset_equal in3 old_in;
               same_out \<leftarrow> bitset_equal out2 old_out;
               Some (\<not> same_in \<or> \<not> same_out, bbs[i := this\<lparr>live_in_set := in3, live_out_set := out2\<rparr>], old_in, old_out) } }"

text \<open>One pass over the first \<open>n\<close> blocks, from the last one to the first.\<close>

fun live_pass ::
  "nat \<Rightarrow> bool \<Rightarrow> basic_block list \<Rightarrow> bitset \<times> bitset \<Rightarrow> (bool \<times> basic_block list \<times> bitset \<times> bitset) option" where
  "live_pass 0 changed bbs olds = Some (changed, bbs, olds)"
| "live_pass (Suc i) changed bbs olds =
     do { (c, bbs', olds') \<leftarrow> live_step bbs i olds; live_pass i (changed \<or> c) bbs' olds' }"

partial_function (option) live_loop :: "basic_block list \<Rightarrow> bitset \<times> bitset \<Rightarrow> basic_block list option" where
  "live_loop bbs olds =
     do { (changed, bbs', olds') \<leftarrow> live_pass (length bbs) False bbs olds;
          if changed then live_loop bbs' olds' else Some bbs' }"

definition analyze_live_sets :: "bool \<Rightarrow> compilation_unit \<Rightarrow> (int \<times> compilation_unit) option" where
  "analyze_live_sets mem cu =
     (case alloc_bitset mem (nr_vregs cu) of
        None \<Rightarrow> Some (- ENOMEM, cu)
      | Some s \<Rightarrow> do { bbs \<leftarrow> live_loop (bb_list cu) (s, s); Some (0, cu\<lparr>bb_list := bbs\<rparr>) })"

section \<open>Live ranges\<close>

definition set_interval :: "compilation_unit \<Rightarrow> nat \<Rightarrow> live_interval \<Rightarrow> compilation_unit" where
  "set_interval cu v it = cu\<lparr>var_infos := (var_infos cu)[v := (var_infos cu ! v)\<lparr>interval := it\<rparr>]\<rparr>"

text \<open>The result of \<open>interval_add_range\<close> is not looked at.\<close>

definition var_add_range :: "bool \<Rightarrow> compilation_unit \<Rightarrow> nat \<Rightarrow> nat \<Rightarrow> nat \<Rightarrow> compilation_unit option" where
  "var_add_range mem cu v s e =
     do { var \<leftarrow> read_at (var_infos cu) v;
          Some (set_interval cu v (snd (interval_add_range mem (interval var) s e))) }"

definition set_first_start :: "live_interval \<Rightarrow> nat \<Rightarrow> live_interval" where
  "set_first_start it s =
     (case range_list it of [] \<Rightarrow> it | r # rs \<Rightarrow> it\<lparr>range_list := r\<lparr>r_start := s\<rparr> # rs\<rparr>)"

fun range_defs :: "bool \<Rightarrow> compilation_unit \<Rightarrow> nat list \<Rightarrow> nat \<Rightarrow> nat \<Rightarrow> compilation_unit option" where
  "range_defs mem cu [] pos fin = Some cu"
| "range_defs mem cu (v # vs) pos fin =
     do { var \<leftarrow> read_at (var_infos cu) v;
          cu' \<leftarrow> (if interval_is_empty (interval var) then var_add_range mem cu v (pos + 1) fin
                 else Some (set_interval cu v (set_first_start (interval var) (pos + 1))));
          range_defs mem cu' vs pos fin }"

fun range_uses :: "bool \<Rightarrow> compilation_unit \<Rightarrow> nat list \<Rightarrow> nat \<Rightarrow> nat \<Rightarrow> compilation_unit option" where
  "range_uses mem cu [] start pos = Some cu"
| "range_uses mem cu (v # vs) start pos =
     do { cu' \<leftarrow> var_add_range mem cu v start (pos + 1); range_uses mem cu' vs start pos }"

fun range_calls :: "bool \<Rightarrow> compilation_unit \<Rightarrow> nat list \<Rightarrow> nat \<Rightarrow> compilation_unit option" where
  "range_calls mem cu [] pos = Some cu"
| "range_calls mem cu (r # rs) pos =
     do { (v, cu') \<leftarrow> get_fixed_var mem mem cu r;
          v \<leftarrow> v;
          cu'' \<leftarrow> var_add_range mem cu' v (pos + 1) (pos + 2);
          range_calls mem cu'' rs pos }"

definition insn_live_ranges :: "bool \<Rightarrow> nat \<Rightarrow> nat \<Rightarrow> compilation_unit \<Rightarrow> insn \<Rightarrow> compilation_unit option" where
  "insn_live_ranges mem start fin cu i =
     do { defs \<leftarrow> insn_defs (fixed_var_infos cu) i;
          cu1 \<leftarrow> range_defs mem cu defs (lir_pos i) fin;
          uses \<leftarrow> insn_uses i;
          cu2 \<leftarrow> range_uses mem cu1 uses start (lir_pos i);
          if insn_is_call i then range_calls mem cu2 caller_save_regs (lir_pos i) else Some cu2 }"

text \<open>\<open>__update_live_ranges\<close>: the instructions of a block from the last one to the first.\<close>

fun insns_live_ranges :: "bool \<Rightarrow> nat \<Rightarrow> nat \<Rightarrow> compilation_unit \<Rightarrow> insn list \<Rightarrow> compilation_unit option" where
  "insns_live_ranges mem start fin cu [] = Some cu"
| "insns_live_ranges mem start fin cu (i # is) =
     do { cu' \<leftarrow> insns_live_ranges mem start fin cu is; insn_live_ranges mem start fin cu' i }"

fun live_out_ranges :: "bool \<Rightarrow> basic_block \<Rightarrow> nat \<Rightarrow> compilation_unit \<Rightarrow> compilation_unit option" where
  "live_out_ranges mem bb 0 cu = Some cu"
| "live_out_ranges mem bb (Suc v) cu =
     do { i \<leftarrow> var_bit (var_infos cu) v;
          t \<leftarrow> test_bit (bits (live_out_set bb)) i;
          cu' \<leftarrow> (if t then var_add_range mem cu v (start_insn bb) (end_insn bb) else Some cu);
          live_out_ranges mem bb v cu' }"

fun update_blocks :: "bool \<Rightarrow> basic_block list \<Rightarrow> compilation_unit \<Rightarrow> compilation_unit option" where
  "update_blocks mem [] cu = Some cu"
| "update_blocks mem (bb # bbs) cu =
     do { cu1 \<leftarrow> update_blocks mem bbs cu;
          cu2 \<leftarrow> live_out_ranges mem bb (length (var_infos cu1)) cu1;
          insns_live_ranges mem (start_insn bb) (end_insn bb) cu2 (insn_list bb) }"

definition update_live_ranges :: "bool \<Rightarrow> compilation_unit \<Rightarrow> compilation_unit option" where
  "update_live_ranges mem cu = update_blocks mem (bb_list cu) cu"

definition analyze_liveness :: "bool \<Rightarrow> compilation_unit \<Rightarrow> (int \<times> compilation_unit) option" where
  "analyze_liveness mem cu =
     (case init_sets mem cu of
        (err, cu1) \<Rightarrow>
          if err \<noteq> 0 then Some (err, cu1)
          else do { cu2 \<leftarrow> analyze_use_def cu1;
                    (err, cu3) \<leftarrow> analyze_live_sets mem cu2;
                    if err \<noteq> 0 then Some (err, cu3)
                    else do { cu4 \<leftarrow> update_live_ranges mem cu3; Some (0, cu4) } })"

end
