(* ===== verification/Live_Sets.thy ===== *)
theory Live_Sets
  imports Liveness
begin

text \<open>
  The sets of the liveness analysis are exact. Liveness is stated on paths through the instructions: a variable is live
  before an instruction if a path from there reaches a use of it with no definition on the way. The theory proves that
  the use and definition sets summarise a block, that the iteration ends, and that the live sets it leaves are those
  that the paths define. The sets are handled through the interface \<open>index_set\<close> of the bit sets.
\<close>

section \<open>Liveness on paths\<close>

text \<open>For every block the registers that each instruction uses and defines, and the successors.\<close>

type_synonym flow = "((nat set \<times> nat set) list \<times> nat list) list"

inductive live_before :: "flow \<Rightarrow> nat \<Rightarrow> nat \<Rightarrow> nat \<Rightarrow> bool" for G where
  use: "b < length G \<Longrightarrow> k < length (fst (G ! b)) \<Longrightarrow> v \<in> fst (fst (G ! b) ! k) \<Longrightarrow> live_before G b k v"
| pass: "b < length G \<Longrightarrow> k < length (fst (G ! b)) \<Longrightarrow> v \<notin> snd (fst (G ! b) ! k) \<Longrightarrow>
    live_before G b (Suc k) v \<Longrightarrow> live_before G b k v"
| edge: "b < length G \<Longrightarrow> s \<in> set (snd (G ! b)) \<Longrightarrow> live_before G s 0 v \<Longrightarrow>
    live_before G b (length (fst (G ! b))) v"

lemma live_before_insn:
  assumes "b < length G" "k < length (fst (G ! b))"
  shows "live_before G b k v \<longleftrightarrow>
    v \<in> fst (fst (G ! b) ! k) \<or> v \<notin> snd (fst (G ! b) ! k) \<and> live_before G b (Suc k) v"
  using assms by (auto elim: live_before.cases intro: live_before.intros)

lemma live_before_end:
  assumes "b < length G"
  shows "live_before G b (length (fst (G ! b))) v \<longleftrightarrow> (\<exists>s\<in>set (snd (G ! b)). live_before G s 0 v)"
  using assms by (auto elim: live_before.cases intro: live_before.intros)

fun gen :: "(nat set \<times> nat set) list \<Rightarrow> nat set" where
  "gen [] = {}"
| "gen (i # is) = fst i \<union> (gen is - snd i)"

fun kill :: "(nat set \<times> nat set) list \<Rightarrow> nat set" where
  "kill [] = {}"
| "kill (i # is) = snd i \<union> kill is"

lemma live_before_rest:
  assumes "b < length G" "k \<le> length (fst (G ! b))"
  shows "live_before G b k v \<longleftrightarrow> v \<in> gen (drop k (fst (G ! b))) \<or>
    v \<notin> kill (drop k (fst (G ! b))) \<and> live_before G b (length (fst (G ! b))) v"
  using assms(2)
proof (induction rule: inc_induct)
  case (step k)
  then show ?case
    using live_before_insn [OF assms(1) step.hyps(2), of v] by (auto simp: Cons_nth_drop_Suc [symmetric])
qed simp

text \<open>A solution of the data-flow equations contains what is live.\<close>

lemma live_before_solution:
  assumes "\<forall>b<length G. inn b = gen (fst (G ! b)) \<union> (out b - kill (fst (G ! b))) \<and> out b = (\<Union>s\<in>set (snd (G ! b)). inn s)"
    and "\<forall>b<length G. \<forall>s\<in>set (snd (G ! b)). s < length G"
    and "live_before G b k v"
  shows "k \<le> length (fst (G ! b)) \<and> v \<in> gen (drop k (fst (G ! b))) \<union> (out b - kill (drop k (fst (G ! b))))"
  using assms(3)
proof induction
  case (edge b s v)
  then have "v \<in> inn s" using assms(1,2) by fastforce
  then show ?case using assms(1) edge by auto
qed (auto simp: Cons_nth_drop_Suc [symmetric])

section \<open>The flow of a compilation unit\<close>

definition vr :: "var_info list \<Rightarrow> nat \<Rightarrow> nat" where
  "vr vars x = unat (vreg (vars ! x))"

definition insn_flow :: "compilation_unit \<Rightarrow> insn \<Rightarrow> nat set \<times> nat set" where
  "insn_flow cu i = (vr (var_infos cu) ` set (the (insn_uses i)), vr (var_infos cu) ` set (the (insn_defs (fixed_var_infos cu) i)))"

definition flow_of :: "compilation_unit \<Rightarrow> flow" where
  "flow_of cu = map (\<lambda>bb. (map (insn_flow cu) (insn_list bb), successors bb)) (bb_list cu)"

definition insn_ok :: "compilation_unit \<Rightarrow> insn \<Rightarrow> bool" where
  "insn_ok cu i \<longleftrightarrow>
     (case insn_uses i of None \<Rightarrow> False | Some us \<Rightarrow> list_all (\<lambda>v. v < length (var_infos cu)) us) \<and>
     (case insn_defs (fixed_var_infos cu) i of None \<Rightarrow> False | Some ds \<Rightarrow> list_all (\<lambda>v. v < length (var_infos cu)) ds)"

definition blocks_ok :: "compilation_unit \<Rightarrow> bool" where
  "blocks_ok cu \<longleftrightarrow>
     list_all (\<lambda>bb. list_all (insn_ok cu) (insn_list bb) \<and> list_all (\<lambda>s. s < length (bb_list cu)) (successors bb)) (bb_list cu)"

definition vregs_ok :: "compilation_unit \<Rightarrow> bool" where
  "vregs_ok cu \<longleftrightarrow> unat (nr_vregs cu) + 63 < 2 ^ 64 \<and> list_all (\<lambda>x. unat (vreg x) < unat (nr_vregs cu)) (var_infos cu)"

text \<open>The number of words of a set.\<close>

definition set_words :: "compilation_unit \<Rightarrow> nat" where
  "set_words cu = (unat (nr_vregs cu) + 63) div 64"

lemma vr_bound: "vregs_ok cu \<Longrightarrow> x < length (var_infos cu) \<Longrightarrow> vr (var_infos cu) x < 64 * set_words cu"
  by (fastforce simp: vregs_ok_def list_all_length vr_def set_words_def)

lemma unat_ucast_32_64: "unat (ucast (w :: u32) :: u64) = unat w"
proof -
  have "unat w < 2 ^ 64" using unat_lt_pow [of w] by simp
  then show ?thesis by (simp add: unsigned_ucast_eq take_bit_nat_eq_self)
qed

lemma var_bit_ok: "x < length vars \<Longrightarrow> \<exists>i. var_bit vars x = Some i \<and> unat i = vr vars x"
  by (simp add: var_bit_def vr_def unat_ucast_32_64)

section \<open>Use and definition sets\<close>

lemma set_bit_bset:
  assumes "bitset_of n s" "unat i < 64 * n"
  shows "\<exists>ws. set_bit (bits s) i = Some ws \<and> bitset_of n (s\<lparr>bits := ws\<rparr>) \<and> bset (s\<lparr>bits := ws\<rparr>) = insert (unat i) (bset s)"
  using set_bit_eq [of i "bits s"] assms by (auto simp: bset_def bitset_of_def bitset_wf_def)

lemma test_bit_bset: "bitset_of n s \<Longrightarrow> unat i < 64 * n \<Longrightarrow> test_bit (bits s) i = Some (unat i \<in> bset s)"
  by (simp add: test_bit_eq bset_def bitset_of_def)

lemma use_loop_ok:
  assumes "bitset_of n (use_set bb)" "bitset_of n (def_set bb)" "\<forall>v\<in>set vs. v < length vars \<and> vr vars v < 64 * n"
  shows "\<exists>s. use_loop vars vs bb = Some (bb\<lparr>use_set := s\<rparr>) \<and> bitset_of n s \<and>
    bset s = bset (use_set bb) \<union> (vr vars ` set vs - bset (def_set bb))"
  using assms
proof (induction vs arbitrary: bb)
  case Nil
  then show ?case by (intro exI [of _ "use_set bb"]) simp
next
  case (Cons v vs)
  obtain i where i: "var_bit vars v = Some i" "unat i = vr vars v" using var_bit_ok [of v vars] Cons.prems(3) by auto
  have lt: "unat i < 64 * n" using i Cons.prems(3) by simp
  note t = test_bit_bset [OF Cons.prems(2) lt]
  show ?case
  proof (cases "unat i \<in> bset (def_set bb)")
    case True
    then show ?thesis using Cons.IH [OF Cons.prems(1,2)] Cons.prems(3) i t by auto
  next
    case False
    obtain ws where ws: "set_bit (bits (use_set bb)) i = Some ws" "bitset_of n ((use_set bb)\<lparr>bits := ws\<rparr>)"
        "bset ((use_set bb)\<lparr>bits := ws\<rparr>) = insert (unat i) (bset (use_set bb))"
      using set_bit_bset [OF Cons.prems(1) lt] by blast
    then show ?thesis using Cons.IH [of "bb\<lparr>use_set := (use_set bb)\<lparr>bits := ws\<rparr>\<rparr>"] Cons.prems(2,3) i t False by auto
  qed
qed

lemma def_loop_ok:
  assumes "bitset_of n (def_set bb)" "\<forall>v\<in>set vs. v < length vars \<and> vr vars v < 64 * n"
  shows "\<exists>s. def_loop vars vs bb = Some (bb\<lparr>def_set := s\<rparr>) \<and> bitset_of n s \<and> bset s = bset (def_set bb) \<union> vr vars ` set vs"
  using assms
proof (induction vs arbitrary: bb)
  case Nil
  then show ?case by (intro exI [of _ "def_set bb"]) simp
next
  case (Cons v vs)
  obtain i where i: "var_bit vars v = Some i" "unat i = vr vars v" using var_bit_ok [of v vars] Cons.prems(2) by auto
  have lt: "unat i < 64 * n" using i Cons.prems(2) by simp
  obtain ws where ws: "set_bit (bits (def_set bb)) i = Some ws" "bitset_of n ((def_set bb)\<lparr>bits := ws\<rparr>)"
      "bset ((def_set bb)\<lparr>bits := ws\<rparr>) = insert (unat i) (bset (def_set bb))"
    using set_bit_bset [OF Cons.prems(1) lt] by blast
  then show ?case using Cons.IH [of "bb\<lparr>def_set := (def_set bb)\<lparr>bits := ws\<rparr>\<rparr>"] Cons.prems(2) i by auto
qed

lemma insn_okD:
  assumes "insn_ok cu i"
  obtains us ds where "insn_uses i = Some us" "insn_defs (fixed_var_infos cu) i = Some ds"
    "\<forall>v\<in>set us. v < length (var_infos cu)" "\<forall>v\<in>set ds. v < length (var_infos cu)"
    "insn_flow cu i = (vr (var_infos cu) ` set us, vr (var_infos cu) ` set ds)"
  using assms by (auto simp: insn_ok_def insn_flow_def list_all_iff split: option.splits)

lemma analyze_block_use_def_ok:
  assumes "vregs_ok cu" "bitset_of (set_words cu) (use_set bb)" "bitset_of (set_words cu) (def_set bb)" "list_all (insn_ok cu) is"
  shows "\<exists>s d. analyze_block_use_def cu is bb = Some (bb\<lparr>use_set := s, def_set := d\<rparr>) \<and>
    bitset_of (set_words cu) s \<and> bitset_of (set_words cu) d \<and>
    bset s = bset (use_set bb) \<union> (gen (map (insn_flow cu) is) - bset (def_set bb)) \<and>
    bset d = bset (def_set bb) \<union> kill (map (insn_flow cu) is)"
  using assms(2-)
proof (induction "is" arbitrary: bb)
  case Nil
  then show ?case by (intro exI [of _ "use_set bb"] exI [of _ "def_set bb"]) simp
next
  case (Cons i "is")
  obtain us ds where i: "insn_uses i = Some us" "insn_defs (fixed_var_infos cu) i = Some ds"
      "\<forall>v\<in>set us. v < length (var_infos cu)" "\<forall>v\<in>set ds. v < length (var_infos cu)"
      "insn_flow cu i = (vr (var_infos cu) ` set us, vr (var_infos cu) ` set ds)"
    using insn_okD [of cu i] Cons.prems(3) by auto
  have b: "\<forall>v\<in>set us. v < length (var_infos cu) \<and> vr (var_infos cu) v < 64 * set_words cu"
    "\<forall>v\<in>set ds. v < length (var_infos cu) \<and> vr (var_infos cu) v < 64 * set_words cu"
    using i(3,4) vr_bound [OF assms(1)] by auto
  obtain s where s: "use_loop (var_infos cu) us bb = Some (bb\<lparr>use_set := s\<rparr>)" "bitset_of (set_words cu) s"
      "bset s = bset (use_set bb) \<union> (vr (var_infos cu) ` set us - bset (def_set bb))"
    using use_loop_ok [OF Cons.prems(1,2) b(1)] by blast
  obtain d where d: "def_loop (var_infos cu) ds (bb\<lparr>use_set := s\<rparr>) = Some (bb\<lparr>use_set := s, def_set := d\<rparr>)"
      "bitset_of (set_words cu) d" "bset d = bset (def_set bb) \<union> vr (var_infos cu) ` set ds"
    using def_loop_ok [of "set_words cu" "bb\<lparr>use_set := s\<rparr>", OF _ b(2)] Cons.prems(2) by auto
  have "analyze_insn_use_def cu bb i = Some (bb\<lparr>use_set := s, def_set := d\<rparr>)"
    using i(1,2) s(1) d(1) by (simp add: analyze_insn_use_def_def)
  moreover obtain sa da where h: "analyze_block_use_def cu is (bb\<lparr>use_set := s, def_set := d\<rparr>) = Some (bb\<lparr>use_set := sa, def_set := da\<rparr>)"
      "bitset_of (set_words cu) sa" "bitset_of (set_words cu) da"
      "bset sa = bset s \<union> (gen (map (insn_flow cu) is) - bset d)" "bset da = bset d \<union> kill (map (insn_flow cu) is)"
    using Cons.IH [of "bb\<lparr>use_set := s, def_set := d\<rparr>"] Cons.prems(3) s(2) d(2) by auto
  ultimately have "analyze_block_use_def cu (i # is) bb = Some (bb\<lparr>use_set := sa, def_set := da\<rparr>)" by simp
  moreover have "bset sa = bset (use_set bb) \<union> (gen (map (insn_flow cu) (i # is)) - bset (def_set bb))"
    "bset da = bset (def_set bb) \<union> kill (map (insn_flow cu) (i # is))"
    using h(4,5) s(3) d(3) i(5) by auto
  ultimately show ?case using h(2,3) by blast
qed

section \<open>The iteration\<close>

abbreviation (input) inn :: "basic_block list \<Rightarrow> nat \<Rightarrow> nat set" where
  "inn bbs i \<equiv> bset (live_in_set (bbs ! i))"

abbreviation (input) out :: "basic_block list \<Rightarrow> nat \<Rightarrow> nat set" where
  "out bbs i \<equiv> bset (live_out_set (bbs ! i))"

definition four_sets :: "nat \<Rightarrow> basic_block \<Rightarrow> bool" where
  "four_sets n bb \<longleftrightarrow> bitset_of n (use_set bb) \<and> bitset_of n (def_set bb) \<and> bitset_of n (live_in_set bb) \<and> bitset_of n (live_out_set bb)"

text \<open>The blocks carry the summary of the flow, and their live sets lie between the equations and the paths.\<close>

definition summarised :: "flow \<Rightarrow> nat \<Rightarrow> basic_block \<Rightarrow> bool" where
  "summarised G i bb \<longleftrightarrow> successors bb = snd (G ! i) \<and> bset (use_set bb) = gen (fst (G ! i)) \<and> bset (def_set bb) = kill (fst (G ! i))"

definition flow_inv :: "flow \<Rightarrow> (nat \<Rightarrow> nat set) \<Rightarrow> (nat \<Rightarrow> nat set) \<Rightarrow> bool" where
  "flow_inv G In Out \<longleftrightarrow>
     (\<forall>i<length G. In i \<subseteq> gen (fst (G ! i)) \<union> (Out i - kill (fst (G ! i))) \<and> Out i \<subseteq> (\<Union>s\<in>set (snd (G ! i)). In s) \<and>
        In i \<subseteq> {v. live_before G i 0 v} \<and> Out i \<subseteq> {v. live_before G i (length (fst (G ! i))) v})"

definition live_inv :: "nat \<Rightarrow> flow \<Rightarrow> basic_block list \<Rightarrow> bool" where
  "live_inv n G bbs \<longleftrightarrow> length bbs = length G \<and>
     (\<forall>i<length G. four_sets n (bbs ! i) \<and> summarised G i (bbs ! i) \<and> (\<forall>s\<in>set (snd (G ! i)). s < length G)) \<and>
     flow_inv G (inn bbs) (out bbs)"

lemma flow_inv_step:
  assumes "flow_inv G In Out" "i < length G" "\<forall>s\<in>set (snd (G ! i)). s < length G"
    and "X = gen (fst (G ! i)) \<union> (Out i - kill (fst (G ! i)))" "Y = (\<Union>s\<in>set (snd (G ! i)). (In(i := X)) s)"
  shows "flow_inv G (In(i := X)) (Out(i := Y)) \<and> In i \<subseteq> X \<and> Out i \<subseteq> Y"
proof -
  note inv = assms(1) [unfolded flow_inv_def, rule_format]
  have IX: "In i \<subseteq> X" using inv [OF assms(2)] assms(4) by auto
  then have up: "In s \<subseteq> (In(i := X)) s" for s by auto
  then have up_succ: "(\<Union>s\<in>set (snd (G ! j)). In s) \<subseteq> (\<Union>s\<in>set (snd (G ! j)). (In(i := X)) s)" for j
    by (intro UN_mono subset_refl)
  have OY: "Out i \<subseteq> Y" unfolding assms(5) by (rule subset_trans [OF _ up_succ]) (use inv [OF assms(2)] in blast)
  have lX: "live_before G i 0 v" if "v \<in> X" for v
    using that live_before_rest [OF assms(2), of 0 v] inv [OF assms(2)] assms(4) by auto
  have lY: "live_before G i (length (fst (G ! i))) v" if "v \<in> Y" for v
  proof -
    have "v \<in> (\<Union>s\<in>set (snd (G ! i)). (In(i := X)) s)" using that by (simp only: assms(5))
    then obtain s where s: "s \<in> set (snd (G ! i))" "v \<in> (In(i := X)) s" by (rule UN_E)
    then have "live_before G s 0 v" using lX inv [of s] assms(3) by (cases "s = i") auto
    then show ?thesis using live_before_end [OF assms(2)] s(1) by blast
  qed
  have "(In(i := X)) j \<subseteq> gen (fst (G ! j)) \<union> ((Out(i := Y)) j - kill (fst (G ! j))) \<and>
      (Out(i := Y)) j \<subseteq> (\<Union>s\<in>set (snd (G ! j)). (In(i := X)) s) \<and>
      (In(i := X)) j \<subseteq> {v. live_before G j 0 v} \<and> (Out(i := Y)) j \<subseteq> {v. live_before G j (length (fst (G ! j))) v}" if "j < length G" for j
  proof (cases "j = i")
    case True
    have "X \<subseteq> gen (fst (G ! i)) \<union> (Y - kill (fst (G ! i)))" using OY assms(4) by auto
    moreover have "Y \<subseteq> (\<Union>s\<in>set (snd (G ! i)). (In(i := X)) s)" by (simp only: assms(5) order_refl)
    moreover have "X \<subseteq> {v. live_before G i 0 v}" "Y \<subseteq> {v. live_before G i (length (fst (G ! i))) v}" using lX lY by auto
    ultimately show ?thesis using True by (simp only: fun_upd_same)
  next
    case False
    then have eq: "(In(i := X)) j = In j" "(Out(i := Y)) j = Out j" by simp_all
    have "Out j \<subseteq> (\<Union>s\<in>set (snd (G ! j)). (In(i := X)) s)" by (rule subset_trans [OF _ up_succ]) (use inv [OF that] in blast)
    then show ?thesis using inv [OF that] unfolding eq by blast
  qed
  then have "flow_inv G (In(i := X)) (Out(i := Y))" unfolding flow_inv_def by blast
  then show ?thesis using IX OY by blast
qed

text \<open>What a step leaves alone.\<close>

definition code :: "basic_block \<Rightarrow> insn list \<times> nat list \<times> nat \<times> nat" where
  "code bb = (insn_list bb, successors bb, start_insn bb, end_insn bb)"

lemma succ_loop_ok:
  assumes "\<forall>s\<in>set ss. s < length bbs \<and> bitset_of n (live_in_set (bbs ! s))" "bitset_of n acc"
  shows "\<exists>r. succ_loop bbs ss acc = Some r \<and> bitset_of n r \<and> bset r = bset acc \<union> (\<Union>s\<in>set ss. inn bbs s)"
  using assms
proof (induction ss arbitrary: acc)
  case (Cons s ss)
  obtain c where c: "bitset_union_to (live_in_set (bbs ! s)) acc = Some c" "bitset_of n c" "bset c = bset acc \<union> inn bbs s"
    using bs.union [of n "live_in_set (bbs ! s)" acc] Cons.prems by auto
  then show ?case using Cons.IH [of c] Cons.prems by (auto simp: Un_assoc)
qed simp

text \<open>The effect of a step in terms of the sets.\<close>

lemma live_step_sets:
  assumes "live_inv n G bbs" "i < length G" "bitset_of n (fst olds)" "bitset_of n (snd olds)"
  shows "\<exists>c x y olds'. live_step bbs i olds = Some (c, bbs[i := (bbs ! i)\<lparr>live_in_set := x, live_out_set := y\<rparr>], olds') \<and>
    bitset_of n x \<and> bitset_of n y \<and> bitset_of n (fst olds') \<and> bitset_of n (snd olds') \<and>
    bset x = gen (fst (G ! i)) \<union> (out bbs i - kill (fst (G ! i))) \<and>
    bset y = (\<Union>s\<in>set (snd (G ! i)). if s = i then bset x else inn bbs s) \<and>
    c = (\<not> (bset x = inn bbs i \<and> bset y = out bbs i))"
proof -
  let ?b = "bbs ! i"
  have i: "i < length bbs" "four_sets n ?b" "summarised G i ?b" "\<forall>s\<in>set (successors ?b). s < length bbs"
    using assms(1,2) by (auto simp: live_inv_def summarised_def)
  have four: "bitset_of n (use_set ?b)" "bitset_of n (def_set ?b)" "bitset_of n (live_in_set ?b)" "bitset_of n (live_out_set ?b)"
    using i(2) by (simp_all add: four_sets_def)
  have fours: "\<forall>s<length bbs. bitset_of n (live_in_set (bbs ! s))" using assms(1) by (auto simp: live_inv_def four_sets_def)
  obtain oi where oi: "bitset_copy_to (live_in_set ?b) (fst olds) = Some oi" "bitset_of n oi" "bset oi = inn bbs i"
    using bs.copy [OF four(3) assms(3)] by blast
  obtain oo where oo: "bitset_copy_to (live_out_set ?b) (snd olds) = Some oo" "bitset_of n oo" "bset oo = out bbs i"
    using bs.copy [OF four(4) assms(4)] by blast
  obtain x1 where x1: "bitset_copy_to (live_out_set ?b) (live_in_set ?b) = Some x1" "bitset_of n x1" "bset x1 = out bbs i"
    using bs.copy [OF four(4,3)] by blast
  obtain x2 where x2: "bitset_sub (def_set ?b) x1 = Some x2" "bitset_of n x2" "bset x2 = bset x1 - bset (def_set ?b)"
    using bs.sub [OF four(2) x1(2)] by blast
  obtain x where x: "bitset_union_to (use_set ?b) x2 = Some x" "bitset_of n x" "bset x = bset x2 \<union> bset (use_set ?b)"
    using bs.union [OF four(1) x2(2)] by blast
  let ?bbs1 = "bbs[i := ?b\<lparr>live_in_set := x\<rparr>]"
  obtain y1 where y1: "bitset_clear_all (live_out_set ?b) = Some y1" "bitset_of n y1" "bset y1 = {}"
    using bs.clear [OF four(4)] by blast
  have "\<forall>s\<in>set (successors ?b). s < length ?bbs1 \<and> bitset_of n (live_in_set (?bbs1 ! s))"
    using i(1,4) fours x(2) by (auto simp: nth_list_update)
  from succ_loop_ok [OF this y1(2)] obtain y where y: "succ_loop ?bbs1 (successors ?b) y1 = Some y" "bitset_of n y"
      "bset y = bset y1 \<union> (\<Union>s\<in>set (successors ?b). inn ?bbs1 s)"
    by blast
  have upd: "inn ?bbs1 s = (if s = i then bset x else inn bbs s)" for s using i(1) by (simp add: nth_list_update)
  have sets: "bset x = gen (fst (G ! i)) \<union> (out bbs i - kill (fst (G ! i)))"
    "bset y = (\<Union>s\<in>set (snd (G ! i)). if s = i then bset x else inn bbs s)"
    using x(3) x2(3) x1(3) i(3) y(3) y1(3) unfolding upd by (auto simp: summarised_def)
  have step: "live_step bbs i olds = Some (\<not> (bset x = inn bbs i \<and> bset y = out bbs i),
      bbs[i := ?b\<lparr>live_in_set := x, live_out_set := y\<rparr>], oi, oo)"
    using i(1) oi(1) oo(1) x1(1) x2(1) x(1) y1(1) y(1) bs.equal [OF x(2) oi(2)] bs.equal [OF y(2) oo(2)] oi(3) oo(3)
    by (simp add: live_step_def Let_def)
  show ?thesis
    by (rule exI, rule exI [of _ x], rule exI [of _ y], rule exI [of _ "(oi, oo)"], intro conjI, rule step)
      (simp_all only: x(2) y(2) oi(2) oo(2) sets(1) fst_conv snd_conv, simp only: sets)
qed

text \<open>The size of the live sets, which every changing step increases.\<close>

definition live_size :: "basic_block list \<Rightarrow> nat" where
  "live_size bbs = (\<Sum>j<length bbs. card (inn bbs j) + card (out bbs j))"

definition solved :: "flow \<Rightarrow> basic_block list \<Rightarrow> nat \<Rightarrow> bool" where
  "solved G bbs i \<longleftrightarrow> inn bbs i = gen (fst (G ! i)) \<union> (out bbs i - kill (fst (G ! i))) \<and>
     out bbs i = (\<Union>s\<in>set (snd (G ! i)). inn bbs s)"

definition same_sets :: "basic_block list \<Rightarrow> basic_block list \<Rightarrow> bool" where
  "same_sets bbs bbs' \<longleftrightarrow> (\<forall>j<length bbs. inn bbs' j = inn bbs j \<and> out bbs' j = out bbs j)"

lemma bset_finite: "bitset_of n s \<Longrightarrow> bset s \<subseteq> {..<64 * n}"
  by (auto simp: bset_def bitset_of_def dest: wset_bound)

lemma live_step_ok:
  assumes "live_inv n G bbs" "i < length G" "bitset_of n (fst olds)" "bitset_of n (snd olds)"
  shows "\<exists>c bbs' olds'. live_step bbs i olds = Some (c, bbs', olds') \<and> live_inv n G bbs' \<and>
    bitset_of n (fst olds') \<and> bitset_of n (snd olds') \<and> map code bbs' = map code bbs \<and>
    (c \<longrightarrow> live_size bbs < live_size bbs') \<and> (\<not> c \<longrightarrow> same_sets bbs bbs' \<and> solved G bbs i) \<and> live_size bbs \<le> live_size bbs'"
proof -
  obtain c x y olds' where h: "live_step bbs i olds = Some (c, bbs[i := (bbs ! i)\<lparr>live_in_set := x, live_out_set := y\<rparr>], olds')"
      "bitset_of n x" "bitset_of n y" "bitset_of n (fst olds')" "bitset_of n (snd olds')"
      "bset x = gen (fst (G ! i)) \<union> (out bbs i - kill (fst (G ! i)))"
      "bset y = (\<Union>s\<in>set (snd (G ! i)). if s = i then bset x else inn bbs s)"
      "c = (\<not> (bset x = inn bbs i \<and> bset y = out bbs i))"
    using live_step_sets [OF assms] by (elim exE conjE) (rule that; assumption)
  define bbs' where "bbs' = bbs[i := (bbs ! i)\<lparr>live_in_set := x, live_out_set := y\<rparr>]"
  have len: "i < length bbs" "length bbs' = length bbs" "length bbs = length G" using assms(1,2) by (auto simp: live_inv_def bbs'_def)
  have sets: "inn bbs' = (inn bbs)(i := bset x)" "out bbs' = (out bbs)(i := bset y)"
    using len(1) by (auto simp: bbs'_def nth_list_update fun_eq_iff)
  have at: "inn bbs' j = (if j = i then bset x else inn bbs j)" "out bbs' j = (if j = i then bset y else out bbs j)" for j
    using len(1) by (auto simp: bbs'_def nth_list_update)
  have "bset y = (\<Union>s\<in>set (snd (G ! i)). ((inn bbs)(i := bset x)) s)" using h(7) by (simp add: fun_upd_def)
  then have "flow_inv G ((inn bbs)(i := bset x)) ((out bbs)(i := bset y)) \<and> inn bbs i \<subseteq> bset x \<and> out bbs i \<subseteq> bset y"
    using assms(1,2) h(6) by (intro flow_inv_step [where In = "inn bbs" and Out = "out bbs"]) (simp_all add: live_inv_def)
  then have fl: "flow_inv G (inn bbs') (out bbs')" "inn bbs i \<subseteq> bset x" "out bbs i \<subseteq> bset y" unfolding sets by blast+
  have "live_inv n G bbs'"
    using assms(1) fl(1) len h(2,3) by (auto simp: live_inv_def bbs'_def nth_list_update four_sets_def summarised_def)
  moreover have "map code bbs' = map code bbs"
    using len(1) by (intro nth_equalityI) (auto simp: bbs'_def nth_list_update code_def)
  moreover have le: "card (inn bbs i) \<le> card (bset x)" "card (out bbs i) \<le> card (bset y)"
    using fl(2,3) bset_finite [OF h(2)] bset_finite [OF h(3)] by (auto intro!: card_mono dest: finite_subset)
  then have mono: "\<forall>j\<in>{..<length bbs}. card (inn bbs j) + card (out bbs j) \<le> card (inn bbs' j) + card (out bbs' j)"
    unfolding at by auto
  have "live_size bbs \<le> live_size bbs'" unfolding live_size_def len(2) by (rule sum_mono) (use mono in blast)
  moreover have "live_size bbs < live_size bbs'" if c
  proof -
    have "card (inn bbs i) < card (bset x) \<or> card (out bbs i) < card (bset y)"
      using that h(8) fl(2,3) bset_finite [OF h(2)] bset_finite [OF h(3)] by (metis finite_lessThan finite_subset psubsetI psubset_card_mono)
    then have "card (inn bbs i) + card (out bbs i) < card (inn bbs' i) + card (out bbs' i)" using le unfolding at by auto
    then show ?thesis unfolding live_size_def len(2) using mono len(1) by (intro sum_strict_mono_ex1) auto
  qed
  moreover have "same_sets bbs bbs' \<and> solved G bbs i" if "\<not> c"
  proof -
    have "bset x = inn bbs i" "bset y = out bbs i" using that h(8) by simp_all
    then show ?thesis using h(6,7) at by (auto simp: same_sets_def solved_def split: if_splits)
  qed
  ultimately show ?thesis using h(1,4,5) unfolding bbs'_def by blast
qed

lemma solved_same:
  assumes "same_sets bbs bbs'" "live_inv n G bbs" "j < length G" "solved G bbs' j"
  shows "solved G bbs j"
proof -
  have len: "length bbs = length G" "\<forall>s\<in>set (snd (G ! j)). s < length bbs" using assms(2,3) by (auto simp: live_inv_def)
  then have "inn bbs' j = inn bbs j" "out bbs' j = out bbs j" "(\<Union>s\<in>set (snd (G ! j)). inn bbs' s) = (\<Union>s\<in>set (snd (G ! j)). inn bbs s)"
    using assms(1,3) by (auto simp: same_sets_def)
  then show ?thesis using assms(4) by (simp add: solved_def)
qed

lemma live_pass_ok:
  assumes "live_inv n G bbs" "i \<le> length G" "bitset_of n (fst olds)" "bitset_of n (snd olds)"
  shows "\<exists>c bbs' olds'. live_pass i ch bbs olds = Some (c, bbs', olds') \<and> live_inv n G bbs' \<and>
    bitset_of n (fst olds') \<and> bitset_of n (snd olds') \<and> map code bbs' = map code bbs \<and> live_size bbs \<le> live_size bbs' \<and>
    (ch \<longrightarrow> c) \<and> (c \<and> \<not> ch \<longrightarrow> live_size bbs < live_size bbs') \<and>
    (\<not> c \<longrightarrow> same_sets bbs bbs' \<and> (\<forall>j<i. solved G bbs j))"
  using assms
proof (induction i arbitrary: bbs olds ch)
  case 0
  then show ?case by (simp add: same_sets_def)
next
  case (Suc i)
  obtain c1 bbs1 olds1 where 1: "live_step bbs i olds = Some (c1, bbs1, olds1)" "live_inv n G bbs1"
      "bitset_of n (fst olds1)" "bitset_of n (snd olds1)" "map code bbs1 = map code bbs"
      "c1 \<longrightarrow> live_size bbs < live_size bbs1" "\<not> c1 \<longrightarrow> same_sets bbs bbs1 \<and> solved G bbs i" "live_size bbs \<le> live_size bbs1"
    using live_step_ok [OF Suc.prems(1) _ Suc.prems(3,4), of i] Suc.prems(2) by auto
  obtain c bbs' olds' where 2: "live_pass i (ch \<or> c1) bbs1 olds1 = Some (c, bbs', olds')" "live_inv n G bbs'"
      "bitset_of n (fst olds')" "bitset_of n (snd olds')" "map code bbs' = map code bbs1" "live_size bbs1 \<le> live_size bbs'"
      "ch \<or> c1 \<longrightarrow> c" "c \<and> \<not> (ch \<or> c1) \<longrightarrow> live_size bbs1 < live_size bbs'"
      "\<not> c \<longrightarrow> same_sets bbs1 bbs' \<and> (\<forall>j<i. solved G bbs1 j)"
    using Suc.IH [OF 1(2) Suc_leD [OF Suc.prems(2)] 1(3,4), of "ch \<or> c1"] by (elim exE conjE) (rule that; assumption)
  have "same_sets bbs bbs' \<and> (\<forall>j<Suc i. solved G bbs j)" if "\<not> c"
  proof -
    have nc: "\<not> c1" using that 2(7) by blast
    have len: "length bbs1 = length bbs" using 1(5) map_eq_imp_length_eq by blast
    have "solved G bbs j" if "j < i" for j
      using solved_same [OF _ Suc.prems(1), of bbs1 j] 1(7) nc 2(9) \<open>\<not> c\<close> that Suc.prems(2) by auto
    then show ?thesis using 1(7) nc 2(9) \<open>\<not> c\<close> len by (auto simp: same_sets_def less_Suc_eq)
  qed
  moreover have "c \<and> \<not> ch \<longrightarrow> live_size bbs < live_size bbs'" using 1(6,8) 2(6,8) by (cases c1) auto
  moreover have "live_pass (Suc i) ch bbs olds = Some (c, bbs', olds')" using 1(1) 2(1) by simp
  ultimately show ?case using 1(5,8) 2(2-7) by (intro exI [of _ c] exI [of _ bbs'] exI [of _ olds']) auto
qed

lemma live_size_bound:
  assumes "live_inv n G bbs"
  shows "live_size bbs \<le> length G * (2 * (64 * n))"
proof -
  have card: "card (inn bbs j) + card (out bbs j) \<le> 2 * (64 * n)" if "j < length bbs" for j
  proof -
    have "bitset_of n (live_in_set (bbs ! j))" "bitset_of n (live_out_set (bbs ! j))"
      using assms that by (auto simp: live_inv_def four_sets_def)
    then have "card (inn bbs j) \<le> 64 * n" "card (out bbs j) \<le> 64 * n"
      using card_mono [OF finite_lessThan bset_finite] by fastforce+
    then show ?thesis by simp
  qed
  have "live_size bbs \<le> (\<Sum>j<length bbs. 2 * (64 * n))" unfolding live_size_def by (rule sum_mono) (use card in auto)
  then show ?thesis using assms by (simp add: live_inv_def)
qed

lemma live_loop_ok:
  assumes "live_inv n G bbs" "bitset_of n (fst olds)" "bitset_of n (snd olds)"
  shows "\<exists>bbs'. live_loop bbs olds = Some bbs' \<and> live_inv n G bbs' \<and> map code bbs' = map code bbs \<and>
    (\<forall>j<length G. solved G bbs' j)"
  using assms
proof (induction "length G * (2 * (64 * n)) - live_size bbs" arbitrary: bbs olds rule: less_induct)
  case less
  have len: "length bbs = length G" using less.prems(1) by (simp add: live_inv_def)
  obtain c bbs' olds' where p: "live_pass (length G) False bbs olds = Some (c, bbs', olds')" "live_inv n G bbs'"
      "bitset_of n (fst olds')" "bitset_of n (snd olds')" "map code bbs' = map code bbs" "c \<longrightarrow> live_size bbs < live_size bbs'"
      "\<not> c \<longrightarrow> same_sets bbs bbs' \<and> (\<forall>j<length G. solved G bbs j)"
    using live_pass_ok [OF less.prems(1) order_refl less.prems(2,3), of False] by (elim exE conjE) (rule that; simp)
  have unf: "live_loop bbs olds = (if c then live_loop bbs' olds' else Some bbs')" using p(1) len by (subst live_loop.simps) simp
  show ?case
  proof (cases c)
    case True
    then have "length G * (2 * (64 * n)) - live_size bbs' < length G * (2 * (64 * n)) - live_size bbs"
      using p(6) live_size_bound [OF p(2)] by (intro diff_less_mono2) auto
    then show ?thesis using less.hyps [OF _ p(2-4)] p(5) True unf by auto
  next
    case False
    then have "same_sets bbs' bbs" "\<forall>j<length G. solved G bbs j" using p(2,7) len by (auto simp: same_sets_def live_inv_def)
    then have "\<forall>j<length G. solved G bbs' j" using solved_same [OF _ p(2)] by blast
    then show ?thesis using False unf p(2,5) by auto
  qed
qed

section \<open>The analysis as a whole\<close>

lemma init_sets_loop_eq:
  "alloc_bitset True nr = Some s \<Longrightarrow>
   init_sets_loop True nr bbs = (0, map (\<lambda>bb. bb\<lparr>use_set := s, def_set := s, live_in_set := s, live_out_set := s\<rparr>) bbs)"
  by (induction bbs) (simp_all add: init_block_sets_def)

text \<open>A block after the first two passes.\<close>

definition prepared :: "compilation_unit \<Rightarrow> basic_block \<Rightarrow> basic_block \<Rightarrow> bool" where
  "prepared cu bb bb' \<longleftrightarrow> four_sets (set_words cu) bb' \<and> code bb' = code bb \<and>
     bset (use_set bb') = gen (map (insn_flow cu) (insn_list bb)) \<and> bset (def_set bb') = kill (map (insn_flow cu) (insn_list bb)) \<and>
     bset (live_in_set bb') = {} \<and> bset (live_out_set bb') = {}"

lemma analyze_block_prepared:
  assumes "vregs_ok cu" "list_all (insn_ok cu) (insn_list bb)" "bitset_of (set_words cu) s" "bset s = {}"
    and "bb0 = bb\<lparr>use_set := s, def_set := s, live_in_set := s, live_out_set := s\<rparr>"
  shows "\<exists>bb'. analyze_block_use_def cu (insn_list bb0) bb0 = Some bb' \<and> prepared cu bb bb'"
proof -
  have "bitset_of (set_words cu) (use_set bb0)" "bitset_of (set_words cu) (def_set bb0)" "list_all (insn_ok cu) (insn_list bb0)"
    using assms by simp_all
  from analyze_block_use_def_ok [OF assms(1) this] obtain u d where
      h: "analyze_block_use_def cu (insn_list bb0) bb0 = Some (bb0\<lparr>use_set := u, def_set := d\<rparr>)"
      "bitset_of (set_words cu) u" "bitset_of (set_words cu) d"
      "bset u = bset (use_set bb0) \<union> (gen (map (insn_flow cu) (insn_list bb0)) - bset (def_set bb0))"
      "bset d = bset (def_set bb0) \<union> kill (map (insn_flow cu) (insn_list bb0))"
    by (elim exE conjE) (rule that; assumption)
  then have "prepared cu bb (bb0\<lparr>use_set := u, def_set := d\<rparr>)" using assms(3-5) by (simp add: prepared_def four_sets_def code_def)
  then show ?thesis using h(1) by blast
qed

lemma analyze_blocks_prepared:
  assumes "vregs_ok cu" "list_all (\<lambda>bb. list_all (insn_ok cu) (insn_list bb)) bbs" "bitset_of (set_words cu) s" "bset s = {}"
  shows "\<exists>bbs'. analyze_blocks_use_def cu (map (\<lambda>bb. bb\<lparr>use_set := s, def_set := s, live_in_set := s, live_out_set := s\<rparr>) bbs) = Some bbs' \<and>
    list_all2 (prepared cu) bbs bbs'"
  using assms(2)
proof (induction bbs)
  case (Cons bb bbs)
  then show ?case using analyze_block_prepared [OF assms(1) _ assms(3,4) refl, of bb] by auto
qed simp

lemma prepared_inv:
  assumes "blocks_ok cu" "list_all2 (prepared cu) (bb_list cu) bbs"
  shows "live_inv (set_words cu) (flow_of cu) bbs" "map code bbs = map code (bb_list cu)"
proof -
  have len: "length bbs = length (bb_list cu)" using assms(2) by (simp add: list_all2_lengthD)
  have p: "prepared cu (bb_list cu ! i) (bbs ! i)" if "i < length (bb_list cu)" for i using list_all2_nthD [OF assms(2) that] .
  show "map code bbs = map code (bb_list cu)" using p len by (intro nth_equalityI) (auto simp: prepared_def)
  have "four_sets (set_words cu) (bbs ! i) \<and> summarised (flow_of cu) i (bbs ! i) \<and>
      (\<forall>s\<in>set (snd (flow_of cu ! i)). s < length (flow_of cu)) \<and> inn bbs i = {} \<and> out bbs i = {}" if "i < length (bb_list cu)" for i
  proof -
    have "\<forall>s\<in>set (successors (bb_list cu ! i)). s < length (bb_list cu)"
      using assms(1) nth_mem [OF that] unfolding blocks_ok_def list_all_iff by blast
    then show ?thesis using p [OF that] that by (simp add: prepared_def summarised_def flow_of_def code_def)
  qed
  then show "live_inv (set_words cu) (flow_of cu) bbs" using len by (simp add: live_inv_def flow_inv_def flow_of_def)
qed

lemma flow_bb_list [simp]:
  "insn_flow (cu\<lparr>bb_list := z\<rparr>) = insn_flow cu" "insn_ok (cu\<lparr>bb_list := z\<rparr>) = insn_ok cu"
  "set_words (cu\<lparr>bb_list := z\<rparr>) = set_words cu" "prepared (cu\<lparr>bb_list := z\<rparr>) = prepared cu"
  "vregs_ok (cu\<lparr>bb_list := z\<rparr>) = vregs_ok cu"
proof -
  show 1: "insn_flow (cu\<lparr>bb_list := z\<rparr>) = insn_flow cu" by (simp add: fun_eq_iff insn_flow_def)
  show 2: "set_words (cu\<lparr>bb_list := z\<rparr>) = set_words cu" by (simp add: set_words_def)
  show "insn_ok (cu\<lparr>bb_list := z\<rparr>) = insn_ok cu" by (auto simp: fun_eq_iff insn_ok_def split: option.splits)
  show "prepared (cu\<lparr>bb_list := z\<rparr>) = prepared cu" unfolding prepared_def 1 2 ..
  show "vregs_ok (cu\<lparr>bb_list := z\<rparr>) = vregs_ok cu" by (simp add: vregs_ok_def)
qed

lemma analyze_sets_ok:
  assumes "blocks_ok cu" "vregs_ok cu"
  shows "\<exists>cu1 cu2 bbs. init_sets True cu = (0, cu1) \<and> analyze_use_def cu1 = Some cu2 \<and>
    analyze_live_sets True cu2 = Some (0, cu\<lparr>bb_list := bbs\<rparr>) \<and> map code bbs = map code (bb_list cu) \<and>
    (\<forall>b<length (bb_list cu). four_sets (set_words cu) (bbs ! b) \<and>
       inn bbs b = {v. live_before (flow_of cu) b 0 v} \<and>
       out bbs b = {v. live_before (flow_of cu) b (length (fst (flow_of cu ! b))) v})"
proof -
  have "unat (nr_vregs cu) + 63 < 2 ^ 64" using assms(2) by (simp add: vregs_ok_def)
  from alloc_bitset_eq [OF this] obtain s where s: "alloc_bitset True (nr_vregs cu) = Some s" "bitset_of (set_words cu) s" "bset s = {}"
    by (auto simp: bitset_of_def set_words_def)
  define z where "z = map (\<lambda>bb. bb\<lparr>use_set := s, def_set := s, live_in_set := s, live_out_set := s\<rparr>) (bb_list cu)"
  let ?cu1 = "cu\<lparr>bb_list := z\<rparr>" and ?G = "flow_of cu"
  have i: "init_sets True cu = (0, ?cu1)" using init_sets_loop_eq [OF s(1)] by (simp add: init_sets_def z_def)
  have "list_all (\<lambda>bb. list_all (insn_ok cu) (insn_list bb)) (bb_list cu)" using assms(1) by (simp add: blocks_ok_def list_all_iff)
  then obtain bbs2 where b: "analyze_blocks_use_def ?cu1 z = Some bbs2" "list_all2 (prepared cu) (bb_list cu) bbs2"
    using analyze_blocks_prepared [of ?cu1 "bb_list cu" s] assms(2) s(2,3) unfolding z_def by simp blast
  then have u: "analyze_use_def ?cu1 = Some (cu\<lparr>bb_list := bbs2\<rparr>)" by (simp add: analyze_use_def_def)
  note p = prepared_inv [OF assms(1) b(2)]
  obtain bbs where l: "live_loop bbs2 (s, s) = Some bbs" "live_inv (set_words cu) ?G bbs" "map code bbs = map code bbs2" "\<forall>j<length ?G. solved ?G bbs j"
    using live_loop_ok [OF p(1), of "(s, s)"] s(2) by auto
  have inv: "four_sets (set_words cu) (bbs ! b) \<and> inn bbs b \<subseteq> {v. live_before ?G b 0 v} \<and> out bbs b \<subseteq> {v. live_before ?G b (length (fst (?G ! b))) v} \<and>
      (\<forall>s\<in>set (snd (?G ! b)). s < length ?G)" if "b < length ?G" for b
    using l(2) that by (simp add: live_inv_def flow_inv_def)
  have sol: "k \<le> length (fst (?G ! b)) \<and> v \<in> gen (drop k (fst (?G ! b))) \<union> (out bbs b - kill (drop k (fst (?G ! b))))"
    if "live_before ?G b k v" for b k v
    by (rule live_before_solution [OF _ _ that, of "inn bbs"]) (use l(4) inv in \<open>auto simp: solved_def\<close>)
  have "inn bbs b = {v. live_before ?G b 0 v} \<and> out bbs b = {v. live_before ?G b (length (fst (?G ! b))) v}" if "b < length ?G" for b
  proof (intro conjI subset_antisym subsetI)
    show "v \<in> inn bbs b" if "v \<in> {v. live_before ?G b 0 v}" for v
      using sol [of b 0 v] that l(4) \<open>b < length ?G\<close> by (simp add: solved_def)
    show "v \<in> out bbs b" if "v \<in> {v. live_before ?G b (length (fst (?G ! b))) v}" for v
      using sol [of b "length (fst (?G ! b))" v] that by simp
  qed (use inv [OF that] in auto)
  moreover have "analyze_live_sets True (cu\<lparr>bb_list := bbs2\<rparr>) = Some (0, cu\<lparr>bb_list := bbs\<rparr>)" using s(1) l(1) by (simp add: analyze_live_sets_def)
  moreover have "length ?G = length (bb_list cu)" by (simp add: flow_of_def)
  ultimately show ?thesis using i u inv l(3) p(2)
    by (intro exI [of _ ?cu1] exI [of _ "cu\<lparr>bb_list := bbs2\<rparr>"] exI [of _ bbs]) auto
qed

text \<open>C6: The iteration of the liveness analysis ends on every control-flow graph, loops included, and its live-in and
  live-out sets are exactly the registers that are live on some path of instructions: those that a path reaches a use
  of with no definition on the way. No bit set is read outside of its words.\<close>

theorem live_sets_terminate_exact:
  assumes "blocks_ok cu" "vregs_ok cu"
  shows "\<exists>cu1 cu2 cu3. init_sets True cu = (0, cu1) \<and> analyze_use_def cu1 = Some cu2 \<and> analyze_live_sets True cu2 = Some (0, cu3) \<and>
    length (bb_list cu3) = length (bb_list cu) \<and>
    (\<forall>b<length (bb_list cu).
       bset (live_in_set (bb_list cu3 ! b)) = {v. live_before (flow_of cu) b 0 v} \<and>
       bset (live_out_set (bb_list cu3 ! b)) = {v. live_before (flow_of cu) b (length (insn_list (bb_list cu ! b))) v})"
proof -
  obtain cu1 cu2 bbs where h: "init_sets True cu = (0, cu1)" "analyze_use_def cu1 = Some cu2"
      "analyze_live_sets True cu2 = Some (0, cu\<lparr>bb_list := bbs\<rparr>)" "map code bbs = map code (bb_list cu)"
      "\<forall>b<length (bb_list cu). four_sets (set_words cu) (bbs ! b) \<and> inn bbs b = {v. live_before (flow_of cu) b 0 v} \<and>
       out bbs b = {v. live_before (flow_of cu) b (length (fst (flow_of cu ! b))) v}"
    using analyze_sets_ok [OF assms] by (elim exE conjE) (rule that; assumption)
  have "length bbs = length (bb_list cu)" using h(4) map_eq_imp_length_eq by blast
  then show ?thesis
    using h(5) by (intro exI [of _ cu1] exI [of _ cu2] exI [of _ "cu\<lparr>bb_list := bbs\<rparr>"]) (simp add: h(1-3) flow_of_def)
qed

text \<open>A block that loads a constant, and a loop that copies it.\<close>

definition null_set :: bitset where
  "null_set = \<lparr>nr_bits = 0, bs_size = 0, bits = []\<rparr>"

definition sample_block :: "insn list \<Rightarrow> nat list \<Rightarrow> basic_block" where
  "sample_block is ss =
     \<lparr>insn_list = is, successors = ss, start_insn = 0, end_insn = 0, def_set = null_set, use_set = null_set,
      live_in_set = null_set, live_out_set = null_set\<rparr>"

definition sample_load :: insn where
  "sample_load = the (imm_reg_insn True INSN_MOV_IMM_REG 5 0)"

definition sample_copy :: insn where
  "sample_copy = the (reg_reg_insn True INSN_MOV_REG_REG 0 1)"

definition sample_cu :: compilation_unit where
  "sample_cu =
     \<lparr>bb_list = [sample_block [sample_load] [1],
                 sample_block [sample_copy] [1]],
      var_infos = [\<lparr>vreg = 32, v_type = J_LONG, interval = alloc_interval\<rparr>, \<lparr>vreg = 33, v_type = J_LONG, interval = alloc_interval\<rparr>],
      nr_vregs = 34, fixed_var_infos = replicate 32 None, regalloc_done = False, last_insn = 0,
      lir_insn_map = \<lparr>rt_root = Null, bits_per_level = 8, level_count = 8\<rparr>\<rparr>"

lemma sample_insns:
  "insn_uses sample_load = Some []"
  "insn_defs (replicate 32 None) sample_load = Some [0]"
  "insn_uses sample_copy = Some [0]"
  "insn_defs (replicate 32 None) sample_copy = Some [1]"
proof -
  have f: "read_at insn_flags INSN_MOV_IMM_REG = Some 2" "read_at insn_flags INSN_MOV_REG_REG = Some 2050"
    by (simp_all add: read_at_def insn_flags_values INSN_MOV_IMM_REG_def INSN_MOV_REG_REG_def)
  show "insn_uses sample_load = Some []"
    "insn_defs (replicate 32 None) sample_load = Some [0]"
    "insn_uses sample_copy = Some [0]"
    "insn_defs (replicate 32 None) sample_copy = Some [1]"
    by (simp_all add: sample_load_def sample_copy_def insn_uses_def insn_defs_def imm_reg_insn_def reg_reg_insn_def alloc_insn_def f flag_values pick_def
      init_reg_operand_def checkregs_def)
qed

lemma sample_cu_ok: "blocks_ok sample_cu" "vregs_ok sample_cu"
  by (simp_all add: blocks_ok_def vregs_ok_def sample_cu_def sample_block_def insn_ok_def sample_insns)

theorem live_sets_terminate_exact_witness:
  "\<exists>cu1 cu2 cu3. init_sets True sample_cu = (0, cu1) \<and> analyze_use_def cu1 = Some cu2 \<and>
     analyze_live_sets True cu2 = Some (0, cu3) \<and> 32 \<in> bset (live_in_set (bb_list cu3 ! 1))"
proof -
  have "live_before (flow_of sample_cu) 1 0 32"
    by (rule live_before.use) (simp_all add: flow_of_def sample_cu_def sample_block_def insn_flow_def sample_insns vr_def)
  moreover have "1 < length (bb_list sample_cu)" by (simp add: sample_cu_def)
  ultimately show ?thesis using live_sets_terminate_exact [OF sample_cu_ok] by blast
qed

end
