(* ===== verification/Live_Ranges.thy ===== *)
theory Live_Ranges
  imports Live_Sets
begin

text \<open>
  The live ranges that \<open>update_live_ranges\<close> builds cover every position where a variable is live. The ranges of a
  variable are followed through the blocks and the instructions in the reverse order in which the source visits them:
  the lists stay sorted and disjoint, a definition cuts only positions before it, and a variable that is live before an
  instruction has a first range from the start of the block on.
\<close>

section \<open>Operations on the ranges of one variable\<close>

definition rs_ok :: "bool \<Rightarrow> nat \<Rightarrow> nat \<Rightarrow> live_range list \<Rightarrow> bool" where
  "rs_ok st lo hi rs \<longleftrightarrow> sorted_wrt (\<lambda>a b. r_end a \<le> r_start b) rs \<and>
     (\<forall>r\<in>set rs. r_start r \<le> r_end r \<and> (st \<longrightarrow> r_start r < r_end r) \<and> lo \<le> r_start r \<and> hi \<le> r_end r)"

definition starts_at :: "nat \<Rightarrow> nat \<Rightarrow> live_range list \<Rightarrow> bool" where
  "starts_at lo hi rs \<longleftrightarrow> (case rs of [] \<Rightarrow> False | r # _ \<Rightarrow> r_start r = lo \<and> hi \<le> r_end r)"

definition tail_from :: "nat \<Rightarrow> live_range list \<Rightarrow> bool" where
  "tail_from q rs \<longleftrightarrow> (\<forall>r\<in>set (tl rs). q \<le> r_start r)"

definition out_op :: "nat \<Rightarrow> nat \<Rightarrow> live_range list \<Rightarrow> live_range list" where
  "out_op s e rs = snd (add_range True rs s e)"

definition def_op :: "nat \<Rightarrow> nat \<Rightarrow> live_range list \<Rightarrow> live_range list" where
  "def_op p fin rs = (case rs of [] \<Rightarrow> snd (add_range True [] (p + 1) fin) | r # rs' \<Rightarrow> r\<lparr>r_start := p + 1\<rparr> # rs')"

lemma rs_ok_Cons:
  "rs_ok st lo hi (r # rs) \<longleftrightarrow> rs_ok st lo hi rs \<and> (\<forall>x\<in>set rs. r_end r \<le> r_start x) \<and>
     r_start r \<le> r_end r \<and> (st \<longrightarrow> r_start r < r_end r) \<and> lo \<le> r_start r \<and> hi \<le> r_end r"
  by (auto simp: rs_ok_def)

lemma rs_ok_Nil [simp]: "rs_ok st lo hi []"
  by (simp add: rs_ok_def)

lemma rs_ok_mono: "rs_ok st lo hi rs \<Longrightarrow> lo' \<le> lo \<Longrightarrow> hi' \<le> hi \<Longrightarrow> rs_ok st lo' hi' rs"
  by (fastforce simp: rs_ok_def)

lemma rs_ok_from: "rs_ok st lo hi rs \<Longrightarrow> rs_ok st lo lo rs"
  by (fastforce simp: rs_ok_def)

lemma rs_ok_ranges: "rs_ok st lo hi rs \<Longrightarrow> st \<Longrightarrow> ranges_ok rs"
  by (simp add: rs_ok_def ranges_ok_def)

lemma rs_ok_tail: "rs_ok st lo hi rs \<Longrightarrow> tail_from hi rs"
  by (cases rs) (fastforce simp: rs_ok_Cons tail_from_def)+

lemma starts_at_mono: "starts_at lo hi rs \<Longrightarrow> hi' \<le> hi \<Longrightarrow> starts_at lo hi' rs"
  by (auto simp: starts_at_def split: list.splits)

lemma starts_at_cov: "starts_at lo hi rs \<Longrightarrow> lo \<le> q \<Longrightarrow> q < hi \<Longrightarrow> q \<in> cov rs"
  by (auto simp: starts_at_def range_set_def split: list.splits)

text \<open>A range that starts before all others and ends before their ends is put in front or extends the first one.\<close>

lemma out_op_eq:
  assumes "\<forall>r\<in>set rs. s \<le> r_start r \<and> e \<le> r_end r \<and> r_start r \<le> r_end r"
  shows "out_op s e rs = (case rs of [] \<Rightarrow> [\<lparr>r_start = s, r_end = e\<rparr>]
    | r # rs' \<Rightarrow> if e < r_start r then \<lparr>r_start = s, r_end = e\<rparr> # rs else \<lparr>r_start = s, r_end = r_end r\<rparr> # rs')"
  using assms by (cases rs) (auto simp: out_op_def add_range_def min_def max_def)

lemma out_op_ok:
  assumes "rs_ok st bs e rs" "bs \<le> e" "st \<longrightarrow> bs < e"
  shows "rs_ok st bs e (out_op bs e rs) \<and> cov rs \<subseteq> cov (out_op bs e rs) \<and> starts_at bs e (out_op bs e rs) \<and>
    (tail_from (e + 1) rs \<longrightarrow> tail_from (e + 1) (out_op bs e rs)) \<and> (starts_at bs h rs \<longrightarrow> starts_at bs h (out_op bs e rs))"
proof -
  have "\<forall>r\<in>set rs. bs \<le> r_start r \<and> e \<le> r_end r \<and> r_start r \<le> r_end r" using assms(1) by (simp add: rs_ok_def)
  note eq = out_op_eq [OF this]
  show ?thesis
  proof (cases rs)
    case Nil
    then show ?thesis using assms(2,3) unfolding eq by (simp add: rs_ok_Cons starts_at_def tail_from_def)
  next
    case (Cons r rs')
    have ok: "rs_ok st bs e rs'" "\<forall>x\<in>set rs'. r_end r \<le> r_start x" "r_start r \<le> r_end r" "bs \<le> r_start r" "e \<le> r_end r" "st \<longrightarrow> r_start r < r_end r"
      using assms(1) Cons by (simp_all add: rs_ok_Cons)
    show ?thesis
    proof (cases "e < r_start r")
      case True
      then have eq': "out_op bs e rs = \<lparr>r_start = bs, r_end = e\<rparr> # r # rs'" unfolding eq using Cons by simp
      have "rs_ok st bs e (\<lparr>r_start = bs, r_end = e\<rparr> # r # rs')" using ok True assms(2,3) by (fastforce simp: rs_ok_Cons)
      moreover have "tail_from (e + 1) (\<lparr>r_start = bs, r_end = e\<rparr> # r # rs')" using ok True by (fastforce simp: tail_from_def)
      ultimately show ?thesis using True assms(2) Cons unfolding eq' by (auto simp: starts_at_def)
    next
      case False
      then have eq': "out_op bs e rs = \<lparr>r_start = bs, r_end = r_end r\<rparr> # rs'" unfolding eq using Cons by simp
      have "rs_ok st bs e (\<lparr>r_start = bs, r_end = r_end r\<rparr> # rs')" using ok by (auto simp: rs_ok_Cons)
      then show ?thesis using ok(4,5) Cons unfolding eq' by (auto simp: starts_at_def tail_from_def range_set_def)
    qed
  qed
qed

lemma def_op_ok:
  assumes "rs_ok st bs (p + 2) rs" "bs \<le> p + 1" "p + 2 \<le> fin"
  shows "rs_ok st bs (p + 2) (def_op p fin rs) \<and> cov rs \<inter> {p + 1..} \<subseteq> cov (def_op p fin rs)"
  using assms by (cases rs) (auto simp: def_op_def add_range_def rs_ok_Cons range_set_def)

lemma call_op_ok:
  assumes "rs_ok st bs (p + 1) rs" "tail_from (p + 2) rs" "bs \<le> p + 1"
  shows "rs_ok st bs (p + 1) (out_op (p + 1) (p + 2) rs) \<and> tail_from (p + 2) (out_op (p + 1) (p + 2) rs) \<and>
    cov rs \<subseteq> cov (out_op (p + 1) (p + 2) rs) \<and> (starts_at bs h rs \<longrightarrow> starts_at bs h (out_op (p + 1) (p + 2) rs))"
proof (cases rs)
  case Nil
  then show ?thesis using assms(3) by (simp add: out_op_def add_range_def rs_ok_Cons tail_from_def starts_at_def)
next
  case (Cons r rs')
  have ok: "rs_ok st bs (p + 1) rs'" "\<forall>x\<in>set rs'. r_end r \<le> r_start x \<and> p + 2 \<le> r_start x" "r_start r \<le> r_end r" "bs \<le> r_start r"
    "p + 1 \<le> r_end r" "st \<longrightarrow> r_start r < r_end r"
    using assms(1,2) Cons by (simp_all add: rs_ok_Cons tail_from_def)
  show ?thesis
  proof (cases "p + 2 < r_start r")
    case True
    then have eq: "out_op (p + 1) (p + 2) rs = \<lparr>r_start = p + 1, r_end = p + 2\<rparr> # r # rs'" using Cons by (simp add: out_op_def add_range_def)
    have "rs_ok st bs (p + 1) (\<lparr>r_start = p + 1, r_end = p + 2\<rparr> # r # rs')" using ok True assms(3) by (fastforce simp: rs_ok_Cons)
    then show ?thesis using True ok assms(3) Cons unfolding eq by (auto simp: tail_from_def starts_at_def)
  next
    case False
    then have eq: "out_op (p + 1) (p + 2) rs = \<lparr>r_start = min (p + 1) (r_start r), r_end = max (p + 2) (r_end r)\<rparr> # rs'"
      using Cons ok(5) by (simp add: out_op_def add_range_def)
    have "rs_ok st bs (p + 1) (\<lparr>r_start = min (p + 1) (r_start r), r_end = max (p + 2) (r_end r)\<rparr> # rs')"
      using ok assms(3) by (auto simp: rs_ok_Cons)
    then show ?thesis using ok assms(3) Cons unfolding eq by (auto simp: tail_from_def starts_at_def range_set_def)
  qed
qed

section \<open>Loops over variables\<close>

text \<open>The ranges of all registers, and an operation applied to those of one of them.\<close>

definition upd :: "(live_range list \<Rightarrow> live_range list) \<Rightarrow> nat \<Rightarrow> (nat \<Rightarrow> live_range list) \<Rightarrow> nat \<Rightarrow> live_range list" where
  "upd opn v R = R(v := opn (R v))"

lemma upd_at: "upd opn w R v = (if v = w then opn (R v) else R v)"
  by (simp add: upd_def)

lemma fold_upd_snoc:
  "fold (upd opn) (vs @ [w]) R v = (if v = w then opn (fold (upd opn) vs R v) else fold (upd opn) vs R v)"
  by (simp only: fold_append fold.simps comp_apply id_apply upd_at)

lemma fold_upd:
  assumes "\<forall>v. P (R v)" "\<And>rs. P rs \<Longrightarrow> P (opn rs) \<and> Q rs (opn rs)" "\<And>rs. Q rs rs" "\<And>a b c. Q a b \<Longrightarrow> Q b c \<Longrightarrow> Q a c"
  shows "P (fold (upd opn) vs R v) \<and> Q (R v) (fold (upd opn) vs R v) \<and> (v \<notin> set vs \<longrightarrow> fold (upd opn) vs R v = R v)"
proof (induction vs rule: rev_induct)
  case Nil
  then show ?case using assms(1,3) by simp
next
  case (snoc w vs)
  then show ?case using assms(2,4) unfolding fold_upd_snoc by (cases "v = w") auto
qed

lemma fold_upd_hit:
  assumes "\<forall>v. P (R v)" "\<And>rs. P rs \<Longrightarrow> P (opn rs) \<and> S (opn rs)" "v \<in> set vs"
  shows "S (fold (upd opn) vs R v)"
  using assms(3)
proof (induction vs rule: rev_induct)
  case (snoc w vs)
  have "P (fold (upd opn) vs R v)" using fold_upd [where Q = "\<lambda>_ _. True" and P = P] assms(1,2) by blast
  then show ?case using snoc assms(2) unfolding fold_upd_snoc by (cases "v = w") auto
qed simp

definition insn_op ::
  "nat \<Rightarrow> nat \<Rightarrow> nat \<Rightarrow> nat list \<Rightarrow> nat list \<Rightarrow> nat list \<Rightarrow> (nat \<Rightarrow> live_range list) \<Rightarrow> nat \<Rightarrow> live_range list" where
  "insn_op bs fin p ds us cs R =
     fold (upd (out_op (p + 1) (p + 2))) cs (fold (upd (out_op bs (p + 1))) us (fold (upd (def_op p fin)) ds R))"

definition enlarges :: "nat \<Rightarrow> live_range list \<Rightarrow> live_range list \<Rightarrow> bool" where
  "enlarges bs a b \<longleftrightarrow> cov a \<subseteq> cov b \<and> (\<forall>h. starts_at bs h a \<longrightarrow> starts_at bs h b)"

lemma enlarges_refl: "enlarges bs a a" and enlarges_trans: "enlarges bs a b \<Longrightarrow> enlarges bs b c \<Longrightarrow> enlarges bs a c"
  by (auto simp: enlarges_def)

lemma insn_op_ok:
  assumes "\<forall>v. rs_ok st bs (p + 2) (R v)" "bs \<le> p" "p + 2 \<le> fin"
  shows "rs_ok st bs (p + 1) (insn_op bs fin p ds us cs R v) \<and> cov (R v) \<inter> {p + 1..} \<subseteq> cov (insn_op bs fin p ds us cs R v) \<and>
    (v \<in> set us \<longrightarrow> starts_at bs (p + 1) (insn_op bs fin p ds us cs R v)) \<and>
    (v \<notin> set ds \<longrightarrow> starts_at bs h (R v) \<longrightarrow> starts_at bs h (insn_op bs fin p ds us cs R v))"
proof -
  let ?P1 = "rs_ok st bs (p + 2)" and ?P2 = "\<lambda>rs. rs_ok st bs (p + 1) rs \<and> tail_from (p + 2) rs"
  define R1 where "R1 = fold (upd (def_op p fin)) ds R"
  define R2 where "R2 = fold (upd (out_op bs (p + 1))) us R1"
  have 1: "?P1 (R1 v) \<and> cov (R v) \<inter> {p + 1..} \<subseteq> cov (R1 v) \<and> (v \<notin> set ds \<longrightarrow> R1 v = R v)" for v
    unfolding R1_def
    by (rule fold_upd [where P = ?P1 and Q = "\<lambda>a b. cov a \<inter> {p + 1..} \<subseteq> cov b"]) (use assms def_op_ok in \<open>auto\<close>)
  then have P2: "\<forall>v. ?P2 (R1 v)" using rs_ok_tail [of st bs "p + 2"] rs_ok_mono [of st bs "p + 2" _ bs "p + 1"] by auto
  have use: "?P2 (out_op bs (p + 1) rs) \<and> starts_at bs (p + 1) (out_op bs (p + 1) rs) \<and> enlarges bs rs (out_op bs (p + 1) rs)" if "?P2 rs" for rs
    using out_op_ok [of st bs "p + 1" rs] that assms(2) by (simp add: enlarges_def)
  have call: "?P2 (out_op (p + 1) (p + 2) rs) \<and> enlarges bs rs (out_op (p + 1) (p + 2) rs)" if "?P2 rs" for rs
    using call_op_ok [of st bs p rs] that assms(2) by (simp add: enlarges_def)
  have 2: "?P2 (R2 v) \<and> enlarges bs (R1 v) (R2 v) \<and> (v \<notin> set us \<longrightarrow> R2 v = R1 v)" for v
    unfolding R2_def
    by (rule fold_upd [where P = ?P2 and Q = "enlarges bs"]) (use P2 use enlarges_refl enlarges_trans in blast)+
  have hit: "starts_at bs (p + 1) (R2 v)" if "v \<in> set us" for v
    unfolding R2_def
    by (rule fold_upd_hit [where P = ?P2]) (use P2 use that in blast)+
  have 3: "?P2 (insn_op bs fin p ds us cs R v) \<and> enlarges bs (R2 v) (insn_op bs fin p ds us cs R v) \<and>
      (v \<notin> set cs \<longrightarrow> insn_op bs fin p ds us cs R v = R2 v)" for v
    unfolding insn_op_def R2_def [unfolded R1_def, symmetric]
    by (rule fold_upd [where P = ?P2 and Q = "enlarges bs"]) (use 2 call enlarges_refl enlarges_trans in blast)+
  show ?thesis using 1 [of v] 2 [of v] 3 [of v] hit [of v] by (auto simp: enlarges_def)
qed

section \<open>The variables of a compilation unit\<close>

definition vars_ok :: "compilation_unit \<Rightarrow> bool" where
  "vars_ok cu \<longleftrightarrow> distinct (map vreg (var_infos cu)) \<and> vregs_ok cu \<and> NR_FIXED_REGISTERS \<le> unat (nr_vregs cu) \<and>
     length (fixed_var_infos cu) = NR_FIXED_REGISTERS \<and> \<not> regalloc_done cu \<and>
     (\<forall>r<NR_FIXED_REGISTERS. case fixed_var_infos cu ! r of
        None \<Rightarrow> (\<forall>x<length (var_infos cu). vr (var_infos cu) x \<noteq> r)
      | Some x \<Rightarrow> x < length (var_infos cu) \<and> vr (var_infos cu) x = r)"

lemma vars_ok_cong:
  "var_infos cu' = var_infos cu \<Longrightarrow> nr_vregs cu' = nr_vregs cu \<Longrightarrow> fixed_var_infos cu' = fixed_var_infos cu \<Longrightarrow>
   regalloc_done cu' = regalloc_done cu \<Longrightarrow> vars_ok cu' = vars_ok cu"
  unfolding vars_ok_def vregs_ok_def by (simp only:)

definition ranges_of :: "compilation_unit \<Rightarrow> nat \<Rightarrow> live_range list" where
  "ranges_of cu v =
     (case map_of (map (\<lambda>x. (unat (vreg x), range_list (interval x))) (var_infos cu)) v of None \<Rightarrow> [] | Some rs \<Rightarrow> rs)"

lemma distinct_vregs: "distinct (map vreg vars) \<Longrightarrow> distinct (map fst (map (\<lambda>x. (unat (vreg x), f x)) vars))"
  by (simp add: o_def distinct_map inj_on_def word_unat_eq_iff)

lemma ranges_of_var:
  assumes "distinct (map vreg (var_infos cu))" "x < length (var_infos cu)"
  shows "ranges_of cu (vr (var_infos cu) x) = range_list (interval (var_infos cu ! x))"
proof -
  have "map_of (map (\<lambda>x. (unat (vreg x), range_list (interval x))) (var_infos cu)) (vr (var_infos cu) x)
      = Some (range_list (interval (var_infos cu ! x)))"
    using assms(2) by (subst map_of_eq_Some_iff [OF distinct_vregs [OF assms(1)]]) (auto simp: vr_def)
  then show ?thesis by (simp add: ranges_of_def)
qed

lemma ranges_of_none: "\<forall>x<length (var_infos cu). vr (var_infos cu) x \<noteq> v \<Longrightarrow> ranges_of cu v = []"
  by (fastforce simp: ranges_of_def vr_def in_set_conv_nth dest!: map_of_SomeD split: option.splits)

text \<open>Both units have the same variables, up to new fixed ones.\<close>

definition extends :: "compilation_unit \<Rightarrow> compilation_unit \<Rightarrow> bool" where
  "extends cu cu' \<longleftrightarrow> vars_ok cu' \<and> length (var_infos cu) \<le> length (var_infos cu') \<and>
     (\<forall>x<length (var_infos cu). vr (var_infos cu') x = vr (var_infos cu) x) \<and>
     (\<forall>r<NR_FIXED_REGISTERS. \<forall>x. fixed_var_infos cu ! r = Some x \<longrightarrow> fixed_var_infos cu' ! r = Some x) \<and>
     nr_vregs cu' = nr_vregs cu \<and> bb_list cu' = bb_list cu"

lemma extends_refl: "vars_ok cu \<Longrightarrow> extends cu cu"
  by (simp add: extends_def)

lemma extends_trans: "extends a b \<Longrightarrow> extends b c \<Longrightarrow> extends a c"
  by (auto simp: extends_def)

lemma set_interval_vr: "vr (var_infos (set_interval cu x it)) y = vr (var_infos cu) y"
  by (cases "x < length (var_infos cu)") (auto simp: set_interval_def vr_def nth_list_update list_update_beyond)

lemma set_interval_vregs: "map vreg (var_infos (set_interval cu x it)) = map vreg (var_infos cu)"
  by (cases "x < length (var_infos cu)")
    (auto simp: set_interval_def nth_list_update list_update_beyond intro!: nth_equalityI)

lemma set_interval_ok:
  assumes "vars_ok cu" "x < length (var_infos cu)"
  shows "extends cu (set_interval cu x it)" "ranges_of (set_interval cu x it) = (ranges_of cu)(vr (var_infos cu) x := range_list it)"
proof -
  let ?cu = "set_interval cu x it"
  have f: "length (var_infos ?cu) = length (var_infos cu)" "fixed_var_infos ?cu = fixed_var_infos cu" "nr_vregs ?cu = nr_vregs cu"
    "bb_list ?cu = bb_list cu" "regalloc_done ?cu = regalloc_done cu" by (simp_all add: set_interval_def)
  have "vregs_ok ?cu = vregs_ok cu"
    using set_interval_vregs [of cu x it] by (simp add: vregs_ok_def f(3) list_all_length f(1) vr_def [symmetric] set_interval_vr)
  then have ok: "vars_ok ?cu" using assms(1) unfolding vars_ok_def f set_interval_vregs set_interval_vr by simp
  then show "extends cu ?cu" by (simp add: extends_def f set_interval_vr)
  have d: "distinct (map vreg (var_infos cu))" "distinct (map vreg (var_infos ?cu))" using assms(1) ok by (simp_all add: vars_ok_def)
  show "ranges_of ?cu = (ranges_of cu)(vr (var_infos cu) x := range_list it)"
  proof (rule ext)
    fix v
    show "ranges_of ?cu v = ((ranges_of cu)(vr (var_infos cu) x := range_list it)) v"
    proof (cases "\<exists>y<length (var_infos cu). vr (var_infos cu) y = v")
      case True
      then obtain y where y: "y < length (var_infos cu)" "vr (var_infos cu) y = v" by blast
      have "ranges_of ?cu v = range_list (interval (var_infos ?cu ! y))"
        using ranges_of_var [OF d(2), of y] y f(1) by (simp add: set_interval_vr)
      moreover have "vr (var_infos cu) x = v \<longleftrightarrow> x = y"
        using d(1) y assms(2) by (auto simp: vr_def distinct_conv_nth word_unat_eq_iff)
      ultimately show ?thesis
        using ranges_of_var [OF d(1) y(1)] y assms(2) by (auto simp: set_interval_def nth_list_update)
    next
      case False
      then show ?thesis using ranges_of_none [of cu v] ranges_of_none [of ?cu v] assms(2) f(1) by (auto simp: set_interval_vr)
    qed
  qed
qed

lemma extends_vr: "extends cu cu' \<Longrightarrow> \<forall>x\<in>set xs. x < length (var_infos cu) \<Longrightarrow> map (vr (var_infos cu')) xs = map (vr (var_infos cu)) xs"
  by (simp add: extends_def)

lemma extends_index: "extends cu cu' \<Longrightarrow> \<forall>x\<in>set xs. x < length (var_infos cu) \<Longrightarrow> \<forall>x\<in>set xs. x < length (var_infos cu')"
  by (fastforce simp: extends_def)

lemma extends_ok: "extends cu cu' \<Longrightarrow> vars_ok cu'"
  by (simp add: extends_def)

lemma var_add_range_ok:
  assumes "vars_ok cu" "x < length (var_infos cu)"
  shows "\<exists>cu'. var_add_range True cu x s e = Some cu' \<and> extends cu cu' \<and>
    ranges_of cu' = upd (out_op s e) (vr (var_infos cu) x) (ranges_of cu)"
proof -
  let ?it = "snd (interval_add_range True (interval (var_infos cu ! x)) s e)"
  have "range_list ?it = out_op s e (range_list (interval (var_infos cu ! x)))"
    by (simp add: interval_add_range_def out_op_def split: prod.splits)
  also have "range_list (interval (var_infos cu ! x)) = ranges_of cu (vr (var_infos cu) x)"
    using ranges_of_var assms by (simp add: vars_ok_def)
  finally show ?thesis using set_interval_ok [OF assms, of ?it] assms(2) by (simp add: var_add_range_def upd_def)
qed

lemma range_uses_ok:
  assumes "vars_ok cu" "\<forall>x\<in>set xs. x < length (var_infos cu)"
  shows "\<exists>cu'. range_uses True cu xs s p = Some cu' \<and> extends cu cu' \<and>
    ranges_of cu' = fold (upd (out_op s (p + 1))) (map (vr (var_infos cu)) xs) (ranges_of cu)"
  using assms
proof (induction xs arbitrary: cu)
  case Nil
  then show ?case by (simp add: extends_refl)
next
  case (Cons x xs)
  have "x < length (var_infos cu)" using Cons.prems(2) by simp
  from var_add_range_ok [OF Cons.prems(1) this] obtain cu1 where 1: "var_add_range True cu x s (p + 1) = Some cu1" "extends cu cu1"
      "ranges_of cu1 = upd (out_op s (p + 1)) (vr (var_infos cu) x) (ranges_of cu)" by blast
  have "\<forall>x\<in>set xs. x < length (var_infos cu)" using Cons.prems(2) by simp
  note x = extends_index [OF 1(2) this] extends_vr [OF 1(2) this]
  obtain cu' where 2: "range_uses True cu1 xs s p = Some cu'" "extends cu1 cu'"
      "ranges_of cu' = fold (upd (out_op s (p + 1))) (map (vr (var_infos cu1)) xs) (ranges_of cu1)"
    using Cons.IH [OF extends_ok [OF 1(2)] x(1)] by blast
  have "range_uses True cu (x # xs) s p = Some cu'" using 1(1) 2(1) by simp
  moreover have "ranges_of cu' = fold (upd (out_op s (p + 1))) (map (vr (var_infos cu)) (x # xs)) (ranges_of cu)"
    unfolding 2(3) 1(3) x(2) list.map fold.simps comp_apply ..
  ultimately show ?case using extends_trans [OF 1(2) 2(2)] by blast
qed

lemma def_step_ok:
  assumes "vars_ok cu" "x < length (var_infos cu)"
  shows "\<exists>cu'. (if interval_is_empty (interval (var_infos cu ! x)) then var_add_range True cu x (p + 1) fin
      else Some (set_interval cu x (set_first_start (interval (var_infos cu ! x)) (p + 1)))) = Some cu' \<and>
    extends cu cu' \<and> ranges_of cu' = upd (def_op p fin) (vr (var_infos cu) x) (ranges_of cu)"
proof -
  have eq: "ranges_of cu (vr (var_infos cu) x) = range_list (interval (var_infos cu ! x))"
    using ranges_of_var assms by (simp add: vars_ok_def)
  show ?thesis
  proof (cases "range_list (interval (var_infos cu ! x))")
    case Nil
    then show ?thesis using var_add_range_ok [OF assms, of "p + 1" fin] eq
      by (simp add: interval_is_empty_def upd_def def_op_def out_op_def)
  next
    case (Cons r rs)
    then show ?thesis using set_interval_ok [OF assms, of "set_first_start (interval (var_infos cu ! x)) (p + 1)"] eq
      by (simp add: interval_is_empty_def upd_def def_op_def set_first_start_def)
  qed
qed

lemma range_defs_ok:
  assumes "vars_ok cu" "\<forall>x\<in>set xs. x < length (var_infos cu)"
  shows "\<exists>cu'. range_defs True cu xs p fin = Some cu' \<and> extends cu cu' \<and>
    ranges_of cu' = fold (upd (def_op p fin)) (map (vr (var_infos cu)) xs) (ranges_of cu)"
  using assms
proof (induction xs arbitrary: cu)
  case Nil
  then show ?case by (simp add: extends_refl)
next
  case (Cons x xs)
  have x: "x < length (var_infos cu)" "\<forall>x\<in>set xs. x < length (var_infos cu)" using Cons.prems(2) by simp_all
  from def_step_ok [OF Cons.prems(1) x(1)] obtain cu1 where
    1: "(if interval_is_empty (interval (var_infos cu ! x)) then var_add_range True cu x (p + 1) fin
        else Some (set_interval cu x (set_first_start (interval (var_infos cu ! x)) (p + 1)))) = Some cu1"
      "extends cu cu1" "ranges_of cu1 = upd (def_op p fin) (vr (var_infos cu) x) (ranges_of cu)" by blast
  note y = extends_index [OF 1(2) x(2)] extends_vr [OF 1(2) x(2)]
  obtain cu' where 2: "range_defs True cu1 xs p fin = Some cu'" "extends cu1 cu'"
      "ranges_of cu' = fold (upd (def_op p fin)) (map (vr (var_infos cu1)) xs) (ranges_of cu1)"
    using Cons.IH [OF extends_ok [OF 1(2)] y(1)] by blast
  have "range_defs True cu (x # xs) p fin = Some cu'" using 1(1) 2(1) x(1) by simp
  moreover have "ranges_of cu' = fold (upd (def_op p fin)) (map (vr (var_infos cu)) (x # xs)) (ranges_of cu)"
    unfolding 2(3) 1(3) y(2) list.map fold.simps comp_apply ..
  ultimately show ?case using extends_trans [OF 1(2) 2(2)] by blast
qed

lemma get_fixed_var_ok:
  assumes "vars_ok cu" "r < NR_FIXED_REGISTERS"
  shows "\<exists>x cu'. get_fixed_var True True cu r = Some (Some x, cu') \<and> extends cu cu' \<and> x < length (var_infos cu') \<and>
    vr (var_infos cu') x = r \<and> ranges_of cu' = ranges_of cu"
proof (cases "fixed_var_infos cu ! r")
  case (Some x)
  have "length (fixed_var_infos cu) = NR_FIXED_REGISTERS" "x < length (var_infos cu) \<and> vr (var_infos cu) x = r"
    using assms Some unfolding vars_ok_def by fastforce+
  then show ?thesis using assms Some extends_refl by (auto simp: get_fixed_var_def)
next
  case None
  let ?v = "\<lparr>vreg = of_nat r, v_type = reg_default_type r, interval = alloc_interval\<lparr>it_reg := Some r, fixed_reg := True\<rparr>\<rparr>"
  let ?cu = "cu\<lparr>var_infos := var_infos cu @ [?v], fixed_var_infos := (fixed_var_infos cu)[r := Some (length (var_infos cu))]\<rparr>"
  have free: "\<forall>x<length (var_infos cu). vr (var_infos cu) x \<noteq> r" using assms None unfolding vars_ok_def by fastforce
  have r: "unat (of_nat r :: u32) = r" using assms(2) by (simp add: NR_FIXED_REGISTERS_def unat_of_nat take_bit_nat_eq_self)
  have len: "length (fixed_var_infos cu) = NR_FIXED_REGISTERS" "\<not> regalloc_done cu" "vregs_ok cu" "NR_FIXED_REGISTERS \<le> unat (nr_vregs cu)"
    "distinct (map vreg (var_infos cu))"
    using assms(1) by (simp_all add: vars_ok_def)
  have vr: "vr (var_infos ?cu) x = vr (var_infos cu) x" if "x < length (var_infos cu)" for x using that by (simp add: vr_def nth_append)
  have new: "vr (var_infos ?cu) (length (var_infos cu)) = r" by (simp add: vr_def r)
  have "of_nat r \<notin> vreg ` set (var_infos cu)" using free r by (auto simp: in_set_conv_nth vr_def)
  then have d: "distinct (map vreg (var_infos ?cu))" using len(5) by simp
  have v: "vregs_ok ?cu" using len(3,4) assms(2) r by (simp add: vregs_ok_def)
  have tab: "case fixed_var_infos ?cu ! q of None \<Rightarrow> (\<forall>x<length (var_infos ?cu). vr (var_infos ?cu) x \<noteq> q)
      | Some x \<Rightarrow> x < length (var_infos ?cu) \<and> vr (var_infos ?cu) x = q" if "q < NR_FIXED_REGISTERS" for q
  proof (cases "q = r")
    case True
    then show ?thesis using len(1) assms(2) new by simp
  next
    case False
    have "case fixed_var_infos cu ! q of None \<Rightarrow> (\<forall>x<length (var_infos cu). vr (var_infos cu) x \<noteq> q)
      | Some x \<Rightarrow> x < length (var_infos cu) \<and> vr (var_infos cu) x = q" using assms(1) that by (simp add: vars_ok_def)
    then show ?thesis using False new vr by (auto simp: less_Suc_eq split: option.splits)
  qed
  have "vars_ok ?cu" unfolding vars_ok_def using d v tab len by simp
  then have e: "extends cu ?cu" using vr None len(1) assms(2) by (auto simp: extends_def nth_list_update)
  have "ranges_of ?cu = ranges_of cu"
  proof (rule ext)
    fix q
    show "ranges_of ?cu q = ranges_of cu q"
      using ranges_of_none [OF free] r by (auto simp: ranges_of_def map_add_def alloc_interval_def split: option.splits)
  qed
  moreover have "get_fixed_var True True cu r = Some (Some (length (var_infos cu)), ?cu)"
    using assms(2) None len(1,2) by (simp add: get_fixed_var_def do_get_var_def)
  ultimately show ?thesis using e new by (intro exI [of _ "length (var_infos cu)"] exI [of _ ?cu]) simp
qed

lemma range_calls_ok:
  assumes "vars_ok cu" "\<forall>r\<in>set rs. r < NR_FIXED_REGISTERS"
  shows "\<exists>cu'. range_calls True cu rs p = Some cu' \<and> extends cu cu' \<and>
    ranges_of cu' = fold (upd (out_op (p + 1) (p + 2))) rs (ranges_of cu)"
  using assms
proof (induction rs arbitrary: cu)
  case Nil
  then show ?case by (simp add: extends_refl)
next
  case (Cons r rs)
  have "r < NR_FIXED_REGISTERS" using Cons.prems(2) by simp
  from get_fixed_var_ok [OF Cons.prems(1) this] obtain x cu1 where 1: "get_fixed_var True True cu r = Some (Some x, cu1)" "extends cu cu1"
      "x < length (var_infos cu1)" "vr (var_infos cu1) x = r" "ranges_of cu1 = ranges_of cu" by blast
  from var_add_range_ok [OF extends_ok [OF 1(2)] 1(3)] obtain cu2 where 2: "var_add_range True cu1 x (p + 1) (p + 2) = Some cu2" "extends cu1 cu2"
      "ranges_of cu2 = upd (out_op (p + 1) (p + 2)) r (ranges_of cu)" unfolding 1(4,5) by blast
  obtain cu' where 3: "range_calls True cu2 rs p = Some cu'" "extends cu2 cu'"
      "ranges_of cu' = fold (upd (out_op (p + 1) (p + 2))) rs (ranges_of cu2)"
    using Cons.IH [OF extends_ok [OF 2(2)]] Cons.prems(2) by auto
  have "range_calls True cu (r # rs) p = Some cu'" using 1(1) 2(1) 3(1) by simp
  moreover have "ranges_of cu' = fold (upd (out_op (p + 1) (p + 2))) (r # rs) (ranges_of cu)"
    unfolding 3(3) 2(3) fold.simps comp_apply ..
  ultimately show ?case using extends_trans [OF extends_trans [OF 1(2) 2(2)] 3(2)] by blast
qed

lemma checkregs_loop_extends:
  assumes "checkregs_loop f fixed rs = Some vs" "\<forall>r\<in>fst ` set rs. r < length fixed" "length fixed' = length fixed"
    "\<forall>r<length fixed. \<forall>x. fixed ! r = Some x \<longrightarrow> fixed' ! r = Some x"
  shows "checkregs_loop f fixed' rs = Some vs"
  using assms by (induction rs arbitrary: vs) (auto simp: bind_eq_Some_conv read_at_def split: if_splits)

lemma insn_defs_extends:
  assumes "vars_ok cu" "extends cu cu'" "insn_defs (fixed_var_infos cu) i = Some ds"
  shows "insn_defs (fixed_var_infos cu') i = Some ds"
proof -
  have len: "length (fixed_var_infos cu) = NR_FIXED_REGISTERS" "length (fixed_var_infos cu') = NR_FIXED_REGISTERS"
    using assms(1) extends_ok [OF assms(2)] by (simp_all add: vars_ok_def)
  have "checkregs_loop f (fixed_var_infos cu') checkregs = Some vs" if "checkregs_loop f (fixed_var_infos cu) checkregs = Some vs" for f vs
    by (rule checkregs_loop_extends [OF that])
      (use len assms(2) in \<open>simp_all add: checkregs_def NR_FIXED_REGISTERS_def extends_def\<close>)
  then show ?thesis using assms(3) by (auto simp: insn_defs_def bind_eq_Some_conv)
qed

lemma insn_live_ranges_ok:
  assumes "vars_ok cu0" "extends cu0 cu" "insn_ok cu0 i"
  shows "\<exists>cu' ds us cs. insn_live_ranges True bs fin cu i = Some cu' \<and> extends cu cu' \<and>
    (set us, set ds) = insn_flow cu0 i \<and> ranges_of cu' = insn_op bs fin (lir_pos i) ds us cs (ranges_of cu)"
proof -
  obtain us ds where i: "insn_uses i = Some us" "insn_defs (fixed_var_infos cu0) i = Some ds" "\<forall>v\<in>set us. v < length (var_infos cu0)"
      "\<forall>v\<in>set ds. v < length (var_infos cu0)" "insn_flow cu0 i = (vr (var_infos cu0) ` set us, vr (var_infos cu0) ` set ds)"
    using insn_okD [OF assms(3)] by metis
  note ok = extends_ok [OF assms(2)]
  have d: "insn_defs (fixed_var_infos cu) i = Some ds" by (rule insn_defs_extends [OF assms(1,2) i(2)])
  obtain cu1 where 1: "range_defs True cu ds (lir_pos i) fin = Some cu1" "extends cu cu1"
      "ranges_of cu1 = fold (upd (def_op (lir_pos i) fin)) (map (vr (var_infos cu)) ds) (ranges_of cu)"
    using range_defs_ok [OF ok extends_index [OF assms(2) i(4)]] by blast
  note e1 = extends_trans [OF assms(2) 1(2)]
  obtain cu2 where 2: "range_uses True cu1 us bs (lir_pos i) = Some cu2" "extends cu1 cu2"
      "ranges_of cu2 = fold (upd (out_op bs (lir_pos i + 1))) (map (vr (var_infos cu1)) us) (ranges_of cu1)"
    using range_uses_ok [OF extends_ok [OF e1] extends_index [OF e1 i(3)]] by blast
  define cs where "cs = (if insn_is_call i then caller_save_regs else [])"
  have "\<forall>r\<in>set cs. r < NR_FIXED_REGISTERS" by (cases "insn_is_call i") (simp_all add: cs_def caller_save_regs_def NR_FIXED_REGISTERS_def)
  from range_calls_ok [OF extends_ok [OF 2(2)] this] obtain cu3 where 3: "range_calls True cu2 cs (lir_pos i) = Some cu3" "extends cu2 cu3"
      "ranges_of cu3 = fold (upd (out_op (lir_pos i + 1) (lir_pos i + 2))) cs (ranges_of cu2)" by blast
  have "insn_live_ranges True bs fin cu i = Some cu3"
    using d 1(1) i(1) 2(1) 3(1) by (cases "insn_is_call i") (simp_all add: insn_live_ranges_def cs_def)
  moreover have "ranges_of cu3 = insn_op bs fin (lir_pos i) (map (vr (var_infos cu0)) ds) (map (vr (var_infos cu0)) us) cs (ranges_of cu)"
    unfolding insn_op_def 3(3) 2(3) 1(3) extends_vr [OF assms(2) i(4)] extends_vr [OF e1 i(3)] ..
  ultimately show ?thesis using i(5) extends_trans [OF extends_trans [OF 1(2) 2(2)] 3(2)]
    by (intro exI [of _ cu3] exI [of _ "map (vr (var_infos cu0)) ds"] exI [of _ "map (vr (var_infos cu0)) us"] exI [of _ cs]) simp
qed

lemma live_out_ranges_ok:
  assumes "vars_ok cu" "n \<le> length (var_infos cu)" "bitset_of (set_words cu) (live_out_set bb)"
  shows "\<exists>cu'. live_out_ranges True bb n cu = Some cu' \<and> extends cu cu' \<and>
    ranges_of cu' = fold (upd (out_op (start_insn bb) (end_insn bb)))
      (map (vr (var_infos cu)) (filter (\<lambda>x. vr (var_infos cu) x \<in> bset (live_out_set bb)) (rev [0..<n]))) (ranges_of cu)"
  using assms
proof (induction n arbitrary: cu)
  case 0
  then show ?case by (simp add: extends_refl)
next
  case (Suc x)
  let ?R = "upd (out_op (start_insn bb) (end_insn bb))" and ?L = "bset (live_out_set bb)"
  have x: "x < length (var_infos cu)" "vregs_ok cu" using Suc.prems(1,2) by (simp_all add: vars_ok_def)
  obtain i where i: "var_bit (var_infos cu) x = Some i" "unat i = vr (var_infos cu) x" using var_bit_ok [OF x(1)] by blast
  have t: "test_bit (bits (live_out_set bb)) i = Some (vr (var_infos cu) x \<in> ?L)"
    using test_bit_bset [OF Suc.prems(3), of i] vr_bound [OF x(2,1)] i(2) by simp
  have "\<exists>cu1. (if vr (var_infos cu) x \<in> ?L then var_add_range True cu x (start_insn bb) (end_insn bb) else Some cu) = Some cu1 \<and>
      extends cu cu1 \<and> ranges_of cu1 = (if vr (var_infos cu) x \<in> ?L then ?R (vr (var_infos cu) x) (ranges_of cu) else ranges_of cu)"
    using var_add_range_ok [OF Suc.prems(1) x(1), of "start_insn bb" "end_insn bb"] extends_refl [OF Suc.prems(1)] by simp
  then obtain cu1 where 1: "(if vr (var_infos cu) x \<in> ?L then var_add_range True cu x (start_insn bb) (end_insn bb) else Some cu) = Some cu1"
      "extends cu cu1" "ranges_of cu1 = (if vr (var_infos cu) x \<in> ?L then ?R (vr (var_infos cu) x) (ranges_of cu) else ranges_of cu)" by blast
  have w: "set_words cu1 = set_words cu" "x \<le> length (var_infos cu1)" using 1(2) x(1) by (auto simp: extends_def set_words_def)
  have vr: "vr (var_infos cu1) y = vr (var_infos cu) y" if "y < x" for y using 1(2) that x(1) by (simp add: extends_def)
  have xs: "map (vr (var_infos cu1)) (filter (\<lambda>x. vr (var_infos cu1) x \<in> ?L) (rev [0..<x])) =
      map (vr (var_infos cu)) (filter (\<lambda>x. vr (var_infos cu) x \<in> ?L) (rev [0..<x]))"
  proof (rule map_cong)
    show "filter (\<lambda>x. vr (var_infos cu1) x \<in> ?L) (rev [0..<x]) = filter (\<lambda>x. vr (var_infos cu) x \<in> ?L) (rev [0..<x])"
      by (rule filter_cong) (simp_all add: vr)
  qed (auto simp: vr)
  obtain cu' where 2: "live_out_ranges True bb x cu1 = Some cu'" "extends cu1 cu'"
      "ranges_of cu' = fold ?R (map (vr (var_infos cu)) (filter (\<lambda>x. vr (var_infos cu) x \<in> ?L) (rev [0..<x]))) (ranges_of cu1)"
    using Suc.IH [OF extends_ok [OF 1(2)] w(2)] Suc.prems(3) unfolding w(1) xs by blast
  have "live_out_ranges True bb (Suc x) cu = Some cu'" using i(1) t 1(1) 2(1) by simp
  then show ?case using extends_trans [OF 1(2) 2(2)] 2(3) 1(3) by (cases "vr (var_infos cu) x \<in> ?L") auto
qed

section \<open>One block\<close>

text \<open>The positions of a block that have to be covered, from the instruction \<open>k\<close> on.\<close>

definition covered :: "flow \<Rightarrow> nat \<Rightarrow> nat \<Rightarrow> nat \<Rightarrow> nat \<Rightarrow> nat \<Rightarrow> live_range list \<Rightarrow> bool" where
  "covered G b bs k n v rs \<longleftrightarrow>
     (\<forall>j. k \<le> j \<and> j < n \<longrightarrow> (live_before G b j v \<longrightarrow> bs + 2 * j \<in> cov rs) \<and> (live_before G b (Suc j) v \<longrightarrow> bs + 2 * j + 1 \<in> cov rs))"

lemma covered_mono:
  assumes "covered G b bs k n v rs" "cov rs \<inter> {bs + 2 * k..} \<subseteq> cov rs'"
  shows "covered G b bs k n v rs'"
  using assms unfolding covered_def by (auto simp: subset_iff)

lemma covered_step:
  assumes "covered G b bs (Suc k) n v rs" "cov rs \<inter> {bs + 2 * k + 1..} \<subseteq> cov rs'"
    and "live_before G b k v \<longrightarrow> bs + 2 * k \<in> cov rs'" "live_before G b (Suc k) v \<longrightarrow> bs + 2 * k + 1 \<in> cov rs'"
  shows "covered G b bs k n v rs'"
proof -
  have "covered G b bs (Suc k) n v rs'" by (rule covered_mono [OF assms(1)]) (use assms(2) in auto)
  then show ?thesis using assms(3,4) unfolding covered_def by (metis Suc_leI le_neq_implies_less)
qed

lemma insns_live_ranges_ok:
  assumes cu: "vars_ok cu0" "extends cu0 cu" "list_all (insn_ok cu0) is"
    and G: "b < length G" "fst (G ! b) = map (insn_flow cu0) is"
    and pos: "\<forall>j<length is. lir_pos (is ! j) = bs + 2 * j" "fin = bs + 2 * length is"
    and R: "\<forall>v. rs_ok st bs fin (ranges_of cu v)" "\<forall>v. live_before G b (length is) v \<longrightarrow> starts_at bs fin (ranges_of cu v)"
    and "k \<le> length is"
  shows "\<exists>cu'. insns_live_ranges True bs fin cu (drop k is) = Some cu' \<and> extends cu cu' \<and>
    (\<forall>v. rs_ok st bs (bs + 2 * k) (ranges_of cu' v) \<and> cov (ranges_of cu v) \<inter> {fin..} \<subseteq> cov (ranges_of cu' v) \<and>
       (live_before G b k v \<longrightarrow> starts_at bs (bs + 2 * k) (ranges_of cu' v)) \<and> covered G b bs k (length is) v (ranges_of cu' v))"
  using assms(10)
proof (induction rule: inc_induct)
  case base
  then show ?case using R extends_refl [OF extends_ok [OF cu(2)]] by (auto simp: pos(2) covered_def)
next
  case (step k)
  obtain cu1 where 1: "insns_live_ranges True bs fin cu (drop (Suc k) is) = Some cu1" "extends cu cu1"
      "\<forall>v. rs_ok st bs (bs + 2 * Suc k) (ranges_of cu1 v) \<and> cov (ranges_of cu v) \<inter> {fin..} \<subseteq> cov (ranges_of cu1 v) \<and>
       (live_before G b (Suc k) v \<longrightarrow> starts_at bs (bs + 2 * Suc k) (ranges_of cu1 v)) \<and> covered G b bs (Suc k) (length is) v (ranges_of cu1 v)"
    using step.IH by blast
  let ?p = "bs + 2 * k"
  have p: "lir_pos (is ! k) = ?p" "insn_ok cu0 (is ! k)" using pos(1) step.hyps cu(3) by (auto simp: list_all_length)
  from insn_live_ranges_ok [OF cu(1) extends_trans [OF cu(2) 1(2)] p(2)] obtain cu' ds us cs where
    2: "insn_live_ranges True bs fin cu1 (is ! k) = Some cu'" "extends cu1 cu'" "(set us, set ds) = insn_flow cu0 (is ! k)"
      "ranges_of cu' = insn_op bs fin ?p ds us cs (ranges_of cu1)" unfolding p(1) by blast
  have ok: "\<forall>v. rs_ok st bs (?p + 2) (ranges_of cu1 v)" "bs \<le> ?p" "?p + 2 \<le> fin" using 1(3) step.hyps pos(2) by (simp_all add: add.commute)
  note o = insn_op_ok [OF ok, of ds us cs, folded 2(4)]
  have flow: "live_before G b k v \<longleftrightarrow> v \<in> set us \<or> v \<notin> set ds \<and> live_before G b (Suc k) v" for v
    using live_before_insn [OF G(1), of k v] G(2) step.hyps 2(3) by (simp add: prod_eq_iff)
  have "insns_live_ranges True bs fin cu (drop k is) = Some cu'"
    using 1(1) 2(1) step.hyps by (simp add: Cons_nth_drop_Suc [symmetric])
  moreover have "rs_ok st bs ?p (ranges_of cu' v) \<and> cov (ranges_of cu v) \<inter> {fin..} \<subseteq> cov (ranges_of cu' v) \<and>
       (live_before G b k v \<longrightarrow> starts_at bs ?p (ranges_of cu' v)) \<and> covered G b bs k (length is) v (ranges_of cu' v)" for v
  proof -
    have c: "cov (ranges_of cu1 v) \<inter> {?p + 1..} \<subseteq> cov (ranges_of cu' v)" using o by blast
    have next_live: "starts_at bs (?p + 2) (ranges_of cu1 v)" if "live_before G b (Suc k) v" using 1(3) that by (simp add: add.commute)
    have now: "starts_at bs (?p + 1) (ranges_of cu' v)" if "live_before G b k v"
    proof (cases "v \<in> set us")
      case True
      then show ?thesis using o [of v] by blast
    next
      case False
      then have "v \<notin> set ds" "live_before G b (Suc k) v" using that flow by blast+
      then have "starts_at bs (?p + 2) (ranges_of cu' v)" using o [of v "?p + 2"] next_live by blast
      then show ?thesis by (rule starts_at_mono) simp
    qed
    have "covered G b bs k (length is) v (ranges_of cu' v)"
    proof (rule covered_step [OF _ c])
      show "covered G b bs (Suc k) (length is) v (ranges_of cu1 v)" using 1(3) by blast
      show "live_before G b k v \<longrightarrow> ?p \<in> cov (ranges_of cu' v)" using starts_at_cov [OF now] by simp
      show "live_before G b (Suc k) v \<longrightarrow> ?p + 1 \<in> cov (ranges_of cu' v)" using starts_at_cov [OF next_live, of "?p + 1"] c by auto
    qed
    moreover have "cov (ranges_of cu v) \<inter> {fin..} \<subseteq> cov (ranges_of cu' v)"
    proof -
      have "cov (ranges_of cu v) \<inter> {fin..} \<subseteq> cov (ranges_of cu1 v) \<inter> {?p + 1..}" using 1(3) ok(3) by auto
      then show ?thesis using c by (rule subset_trans)
    qed
    moreover have "rs_ok st bs ?p (ranges_of cu' v)" by (rule rs_ok_mono [of st bs "?p + 1"]) (use o in auto)
    moreover have "starts_at bs ?p (ranges_of cu' v)" if "live_before G b k v" using now [OF that] by (rule starts_at_mono) simp
    ultimately show ?thesis by blast
  qed
  ultimately show ?case using extends_trans [OF 1(2) 2(2)] by blast
qed

lemma live_before_var:
  assumes "blocks_ok cu" "live_before (flow_of cu) b k v"
  shows "\<exists>x<length (var_infos cu). vr (var_infos cu) x = v"
  using assms(2)
proof induction
  case (use b k v)
  have bb: "bb_list cu ! b \<in> set (bb_list cu)" "insn_list (bb_list cu ! b) ! k \<in> set (insn_list (bb_list cu ! b))"
    using use.hyps by (simp_all add: flow_of_def)
  then have "insn_ok cu (insn_list (bb_list cu ! b) ! k)" using assms(1) by (simp add: blocks_ok_def list_all_iff)
  then show ?case using use.hyps by (fastforce simp: flow_of_def elim!: insn_okD)
qed

section \<open>All blocks\<close>

definition bpos :: "basic_block list \<Rightarrow> nat \<Rightarrow> nat" where
  "bpos bbs b = 2 * (\<Sum>c<b. length (insn_list (bbs ! c)))"

definition placed :: "basic_block list \<Rightarrow> bool" where
  "placed bbs \<longleftrightarrow> (\<forall>b<length bbs. start_insn (bbs ! b) = bpos bbs b \<and> end_insn (bbs ! b) = bpos bbs (Suc b) \<and>
     (\<forall>j<length (insn_list (bbs ! b)). lir_pos (insn_list (bbs ! b) ! j) = bpos bbs b + 2 * j))"

lemma bpos_Suc: "bpos bbs (Suc b) = bpos bbs b + 2 * length (insn_list (bbs ! b))"
  by (simp add: bpos_def)

lemma bpos_mono: "b \<le> c \<Longrightarrow> bpos bbs b \<le> bpos bbs c"
  by (induction c rule: dec_induct) (simp_all add: bpos_Suc)

definition live_out_exact :: "compilation_unit \<Rightarrow> bool" where
  "live_out_exact cu \<longleftrightarrow> (\<forall>b<length (bb_list cu). bitset_of (set_words cu) (live_out_set (bb_list cu ! b)) \<and>
     bset (live_out_set (bb_list cu ! b)) = {v. live_before (flow_of cu) b (length (insn_list (bb_list cu ! b))) v})"

lemma live_out_block_ok:
  assumes "vars_ok cu0" "blocks_ok cu0" "live_out_exact cu0" "b < length (bb_list cu0)" "extends cu0 cu"
    and bb: "bb = bb_list cu0 ! b" and "start_insn bb \<le> end_insn bb" "st \<longrightarrow> start_insn bb < end_insn bb"
    and "\<forall>v. rs_ok st (end_insn bb) (end_insn bb) (ranges_of cu v)"
  shows "\<exists>cu'. live_out_ranges True bb (length (var_infos cu)) cu = Some cu' \<and> extends cu cu' \<and>
    (\<forall>v. rs_ok st (start_insn bb) (end_insn bb) (ranges_of cu' v) \<and> cov (ranges_of cu v) \<subseteq> cov (ranges_of cu' v) \<and>
       (live_before (flow_of cu0) b (length (insn_list bb)) v \<longrightarrow> starts_at (start_insn bb) (end_insn bb) (ranges_of cu' v)))"
proof -
  let ?s = "start_insn bb" and ?e = "end_insn bb"
  let ?xs = "map (vr (var_infos cu)) (filter (\<lambda>x. vr (var_infos cu) x \<in> bset (live_out_set bb)) (rev [0..<length (var_infos cu)]))"
  have w: "set_words cu = set_words cu0" using assms(5) by (simp add: extends_def set_words_def)
  have L: "bitset_of (set_words cu) (live_out_set bb)" "bset (live_out_set bb) = {v. live_before (flow_of cu0) b (length (insn_list bb)) v}"
    using assms(3,4) unfolding live_out_exact_def bb w by blast+
  obtain cu' where c: "live_out_ranges True bb (length (var_infos cu)) cu = Some cu'" "extends cu cu'"
      "ranges_of cu' = fold (upd (out_op ?s ?e)) ?xs (ranges_of cu)"
    using live_out_ranges_ok [OF extends_ok [OF assms(5)] order_refl L(1)] by blast
  have P: "\<forall>v. rs_ok st ?s ?e (ranges_of cu v)" using assms(7,9) rs_ok_mono by blast
  have opn: "rs_ok st ?s ?e (out_op ?s ?e rs) \<and> cov rs \<subseteq> cov (out_op ?s ?e rs) \<and> starts_at ?s ?e (out_op ?s ?e rs)" if "rs_ok st ?s ?e rs" for rs
    using out_op_ok [OF that assms(7,8)] by blast
  have 1: "rs_ok st ?s ?e (ranges_of cu' v) \<and> cov (ranges_of cu v) \<subseteq> cov (ranges_of cu' v) \<and> (v \<notin> set ?xs \<longrightarrow> ranges_of cu' v = ranges_of cu v)" for v
    unfolding c(3) by (rule fold_upd [where P = "rs_ok st ?s ?e" and Q = "\<lambda>a b. cov a \<subseteq> cov b"]) (use P opn in auto)
  have 2: "starts_at ?s ?e (ranges_of cu' v)" if "live_before (flow_of cu0) b (length (insn_list bb)) v" for v
  proof -
    have "\<exists>x<length (var_infos cu0). vr (var_infos cu0) x = v" by (rule live_before_var [OF assms(2) that])
    then obtain x where x: "x < length (var_infos cu0)" "vr (var_infos cu0) x = v" by blast
    then have "x < length (var_infos cu)" "vr (var_infos cu) x = v" using assms(5) by (auto simp: extends_def)
    then have v: "v \<in> set ?xs" using that L(2) by auto
    show ?thesis unfolding c(3)
      by (rule fold_upd_hit [where P = "rs_ok st ?s ?e" and S = "starts_at ?s ?e", OF P _ v]) (use opn in blast)
  qed
  show ?thesis using c(1,2) 1 2 by blast
qed

lemma update_blocks_ok:
  assumes "vars_ok cu0" "blocks_ok cu0" "live_out_exact cu0" "bbs = bb_list cu0" "placed bbs" "\<forall>v. ranges_of cu0 v = []"
    and "st \<longrightarrow> (\<forall>b<length bbs. insn_list (bbs ! b) \<noteq> [])" "b \<le> length bbs"
  shows "\<exists>cu'. update_blocks True (drop b bbs) cu0 = Some cu' \<and> extends cu0 cu' \<and>
    (\<forall>v. rs_ok st (bpos bbs b) (bpos bbs b) (ranges_of cu' v) \<and>
       (\<forall>c. b \<le> c \<and> c < length bbs \<longrightarrow> covered (flow_of cu0) c (bpos bbs c) 0 (length (insn_list (bbs ! c))) v (ranges_of cu' v)))"
  using assms(8)
proof (induction rule: inc_induct)
  case base
  then show ?case using assms(1,6) by (auto simp: extends_refl)
next
  case (step b)
  let ?G = "flow_of cu0" and ?bb = "bbs ! b" and ?is = "insn_list (bbs ! b)"
  obtain cu1 where 1: "update_blocks True (drop (Suc b) bbs) cu0 = Some cu1" "extends cu0 cu1"
      "\<forall>v. rs_ok st (bpos bbs (Suc b)) (bpos bbs (Suc b)) (ranges_of cu1 v) \<and>
       (\<forall>c. Suc b \<le> c \<and> c < length bbs \<longrightarrow> covered ?G c (bpos bbs c) 0 (length (insn_list (bbs ! c))) v (ranges_of cu1 v))"
    using step.IH by blast
  have b: "start_insn ?bb = bpos bbs b" "end_insn ?bb = bpos bbs (Suc b)" "\<forall>j<length ?is. lir_pos (?is ! j) = bpos bbs b + 2 * j"
    "b < length (bb_list cu0)" "?bb = bb_list cu0 ! b"
    using assms(4,5) step.hyps(2) unfolding placed_def by blast+
  have len: "start_insn ?bb \<le> end_insn ?bb" "st \<longrightarrow> start_insn ?bb < end_insn ?bb"
    using b assms(7) step.hyps(2) by (auto simp: bpos_Suc)
  have r1: "\<forall>v. rs_ok st (end_insn ?bb) (end_insn ?bb) (ranges_of cu1 v)" using 1(3) b(2) by simp
  obtain cu2 where 2: "live_out_ranges True ?bb (length (var_infos cu1)) cu1 = Some cu2" "extends cu1 cu2"
      "\<forall>v. rs_ok st (start_insn ?bb) (end_insn ?bb) (ranges_of cu2 v) \<and> cov (ranges_of cu1 v) \<subseteq> cov (ranges_of cu2 v) \<and>
       (live_before ?G b (length ?is) v \<longrightarrow> starts_at (start_insn ?bb) (end_insn ?bb) (ranges_of cu2 v))"
    using live_out_block_ok [OF assms(1-3) b(4) 1(2) b(5) len r1] by blast
  have i: "list_all (insn_ok cu0) ?is" "b < length ?G" "fst (?G ! b) = map (insn_flow cu0) ?is"
    using assms(2,4) b(4,5) nth_mem [OF b(4)] by (auto simp: blocks_ok_def list_all_iff flow_of_def)
  have e: "end_insn ?bb = start_insn ?bb + 2 * length ?is" "\<forall>j<length ?is. lir_pos (?is ! j) = start_insn ?bb + 2 * j"
    using b by (simp_all add: bpos_Suc)
  obtain cu' where 3: "insns_live_ranges True (start_insn ?bb) (end_insn ?bb) cu2 (drop 0 ?is) = Some cu'" "extends cu2 cu'"
      "\<forall>v. rs_ok st (start_insn ?bb) (start_insn ?bb + 2 * 0) (ranges_of cu' v) \<and>
       cov (ranges_of cu2 v) \<inter> {end_insn ?bb..} \<subseteq> cov (ranges_of cu' v) \<and>
       (live_before ?G b 0 v \<longrightarrow> starts_at (start_insn ?bb) (start_insn ?bb + 2 * 0) (ranges_of cu' v)) \<and>
       covered ?G b (start_insn ?bb) 0 (length ?is) v (ranges_of cu' v)"
    using insns_live_ranges_ok [OF assms(1) extends_trans [OF 1(2) 2(2)] i e(2,1), of st 0] 2(3) by blast
  have "update_blocks True (drop b bbs) cu0 = Some cu'"
    using 1(1) 2(1) 3(1) step.hyps(2) by (simp add: Cons_nth_drop_Suc [symmetric])
  moreover have "extends cu0 cu'" by (rule extends_trans [OF extends_trans [OF 1(2) 2(2)] 3(2)])
  moreover have "covered ?G c (bpos bbs c) 0 (length (insn_list (bbs ! c))) v (ranges_of cu' v)" if "b \<le> c" "c < length bbs" for c v
  proof (cases "c = b")
    case True
    then show ?thesis using 3(3) b(1) by simp
  next
    case False
    then have c: "Suc b \<le> c" using that by simp
    then have "{bpos bbs c..} \<subseteq> {end_insn ?bb..}" using bpos_mono [OF c, of bbs] b(2) by simp
    then have "cov (ranges_of cu1 v) \<inter> {bpos bbs c + 2 * 0..} \<subseteq> cov (ranges_of cu' v)" using 2(3) 3(3) by fastforce
    then show ?thesis using 1(3) c that(2) covered_mono by blast
  qed
  ultimately show ?case using 3(3) b(1) by auto
qed

section \<open>Positions\<close>

definition tree64 :: "(nat \<times> nat) radix_tree \<Rightarrow> bool" where
  "tree64 t \<longleftrightarrow> rt_wf t \<and> 64 \<le> bits_per_level t * level_count t"

lemma tree64_insert: "tree64 t \<Longrightarrow> \<exists>t'. radix_tree_insert (\<lambda>_. True) t key v = Some (0, t') \<and> tree64 t'"
proof -
  assume t: "tree64 t"
  have "rt_key t key"
  proof -
    have "unat key < 2 ^ 64" using unat_lt_pow [of key] by simp
    also have "(2::nat) ^ 64 \<le> 2 ^ (bits_per_level t * level_count t)" using t by (intro power_increasing) (simp_all add: tree64_def)
    finally show ?thesis by (simp add: rt_key_def)
  qed
  then show ?thesis using insert_correct [of t key "\<lambda>_. True" v] t by (auto simp: tree64_def)
qed

definition numbered :: "nat \<Rightarrow> basic_block \<Rightarrow> basic_block \<Rightarrow> bool" where
  "numbered pos bb bb' \<longleftrightarrow> successors bb' = successors bb \<and> start_insn bb' = pos \<and> end_insn bb' = pos + 2 * length (insn_list bb) \<and>
     length (insn_list bb') = length (insn_list bb) \<and>
     (\<forall>j<length (insn_list bb). insn_list bb' ! j = (insn_list bb ! j)\<lparr>lir_pos := pos + 2 * j\<rparr>)"

lemma position_insns_ok:
  "tree64 t \<Longrightarrow> \<exists>is' t'. position_insns True b k is pos t = Some (is', pos + 2 * length is, t') \<and> tree64 t' \<and>
     length is' = length is \<and> (\<forall>j<length is. is' ! j = (is ! j)\<lparr>lir_pos := pos + 2 * j\<rparr>)"
proof (induction "is" arbitrary: k pos t)
  case (Cons i "is")
  obtain t1 where 1: "radix_tree_insert (\<lambda>_. True) t (of_nat pos) (b, k) = Some (0, t1)" "tree64 t1"
    using tree64_insert [OF Cons.prems] by blast
  obtain is' t' where 2: "position_insns True b (Suc k) is (pos + 2) t1 = Some (is', pos + 2 + 2 * length is, t')" "tree64 t'"
      "length is' = length is" "\<forall>j<length is. is' ! j = (is ! j)\<lparr>lir_pos := pos + 2 + 2 * j\<rparr>"
    using Cons.IH [OF 1(2), of "Suc k" "pos + 2"] by blast
  have "\<forall>j<length (i # is). (i\<lparr>lir_pos := pos\<rparr> # is') ! j = ((i # is) ! j)\<lparr>lir_pos := pos + 2 * j\<rparr>"
    using 2(4) by (auto simp: nth_Cons split: nat.splits)
  then show ?case using 1 2 by (intro exI [of _ "i\<lparr>lir_pos := pos\<rparr> # is'"] exI [of _ t']) simp
qed simp

lemma bpos_Cons: "bpos (bb # bbs) (Suc i) = 2 * length (insn_list bb) + bpos bbs i"
  unfolding bpos_def sum.lessThan_Suc_shift by simp

lemma position_blocks_ok:
  "tree64 t \<Longrightarrow> \<exists>bbs' pos' t'. position_blocks True b bbs pos t = Some (bbs', pos', t') \<and> length bbs' = length bbs \<and>
     (\<forall>i<length bbs. numbered (pos + bpos bbs i) (bbs ! i) (bbs' ! i))"
proof (induction bbs arbitrary: b pos t)
  case (Cons bb bbs)
  obtain is' t1 where 1: "position_insns True b 0 (insn_list bb) pos t = Some (is', pos + 2 * length (insn_list bb), t1)" "tree64 t1"
      "length is' = length (insn_list bb)" "\<forall>j<length (insn_list bb). is' ! j = (insn_list bb ! j)\<lparr>lir_pos := pos + 2 * j\<rparr>"
    using position_insns_ok [OF Cons.prems] by blast
  let ?pos = "pos + 2 * length (insn_list bb)"
  obtain bbs' pos' t' where 2: "position_blocks True (Suc b) bbs ?pos t1 = Some (bbs', pos', t')" "length bbs' = length bbs"
      "\<forall>i<length bbs. numbered (?pos + bpos bbs i) (bbs ! i) (bbs' ! i)"
    using Cons.IH [OF 1(2), of "Suc b" ?pos] by blast
  let ?bb = "bb\<lparr>start_insn := pos, insn_list := is', end_insn := ?pos\<rparr>"
  have "numbered (pos + bpos (bb # bbs) 0) bb ?bb" using 1(3,4) by (simp add: numbered_def bpos_def)
  then have "\<forall>i<length (bb # bbs). numbered (pos + bpos (bb # bbs) i) ((bb # bbs) ! i) ((?bb # bbs') ! i)"
    using 2(3) by (auto simp: nth_Cons bpos_Cons add.assoc split: nat.splits)
  then show ?case using 1(1) 2(1,2) by (intro exI [of _ "?bb # bbs'"] exI [of _ pos'] exI [of _ t']) simp
qed simp

lemma insn_pos_irrelevant [simp]: "insn_uses (i\<lparr>lir_pos := p\<rparr>) = insn_uses i" "insn_defs fixed (i\<lparr>lir_pos := p\<rparr>) = insn_defs fixed i"
  by (simp_all add: insn_uses_def insn_defs_def)

text \<open>The numbering changes nothing that the liveness sees.\<close>

lemma compute_insn_positions_ok:
  assumes "blocks_ok cu" "vars_ok cu"
  shows "\<exists>cu'. compute_insn_positions True cu = Some cu' \<and> placed (bb_list cu') \<and> length (bb_list cu') = length (bb_list cu) \<and>
    var_infos cu' = var_infos cu \<and> vars_ok cu' \<and> blocks_ok cu' \<and> flow_of cu' = flow_of cu \<and>
    (\<forall>b<length (bb_list cu). length (insn_list (bb_list cu' ! b)) = length (insn_list (bb_list cu ! b)))"
proof -
  obtain t :: "(nat \<times> nat) radix_tree" where t: "alloc_radix_tree True True 8 64 = Some (Some t)" "rt_inv t" "64 \<le> bits_per_level t * level_count t"
    using alloc_radix_tree_inv [of 8 64] by auto
  then have "tree64 t" by (simp add: tree64_def rt_inv_def)
  from position_blocks_ok [OF this, of 0 "bb_list cu" 0] obtain bbs pos' t' where
    p: "position_blocks True 0 (bb_list cu) 0 t = Some (bbs, pos', t')" "length bbs = length (bb_list cu)"
      "\<forall>i<length (bb_list cu). numbered (bpos (bb_list cu) i) (bb_list cu ! i) (bbs ! i)" by auto
  let ?cu = "cu\<lparr>bb_list := bbs, lir_insn_map := t', last_insn := pos'\<rparr>"
  have f: "insn_flow ?cu = insn_flow cu" "insn_ok ?cu = insn_ok cu"
    by (simp add: fun_eq_iff insn_flow_def) (auto simp: fun_eq_iff insn_ok_def split: option.splits)
  have pl: "insn_flow cu (i\<lparr>lir_pos := q\<rparr>) = insn_flow cu i" "insn_ok cu (i\<lparr>lir_pos := q\<rparr>) = insn_ok cu i" for i q
    by (simp_all add: insn_flow_def insn_ok_def)
  have bp: "bpos bbs b = bpos (bb_list cu) b" if "b \<le> length (bb_list cu)" for b
    using that p(3) unfolding bpos_def by (intro arg_cong [where f = "(*) 2"] sum.cong) (auto simp: numbered_def)
  have "placed bbs" unfolding placed_def using p(2,3) bp by (auto simp: numbered_def bpos_Suc)
  moreover have "map (insn_flow cu) (insn_list (bbs ! b)) = map (insn_flow cu) (insn_list (bb_list cu ! b))" if "b < length (bb_list cu)" for b
    using p(3) that by (intro nth_equalityI) (auto simp: numbered_def pl)
  then have "flow_of ?cu = flow_of cu"
    using p(2,3) by (intro nth_equalityI) (auto simp: flow_of_def f numbered_def)
  moreover have "list_all (insn_ok cu) (insn_list (bbs ! b))" if "b < length (bb_list cu)" for b
    using p(3) that assms(1) by (auto simp: numbered_def blocks_ok_def list_all_length pl)
  then have "blocks_ok ?cu" using assms(1) p(2,3) by (auto simp: blocks_ok_def f list_all_length numbered_def)
  moreover have "vars_ok ?cu" using assms(2) by (simp add: vars_ok_cong [of ?cu cu])
  moreover have "compute_insn_positions True cu = Some ?cu" using t(1) p(1) by (simp add: compute_insn_positions_def)
  ultimately show ?thesis using p(2,3) by (intro exI [of _ ?cu]) (auto simp: numbered_def)
qed

section \<open>The analysis as a whole\<close>

lemma analyze_liveness_ok:
  assumes "vars_ok cu" "blocks_ok cu" "placed (bb_list cu)" "list_all (\<lambda>x. range_list (interval x) = []) (var_infos cu)"
  shows "\<exists>cu'. analyze_liveness True cu = Some (0, cu') \<and> vars_ok cu' \<and>
    (\<forall>v. \<forall>b<length (bb_list cu). covered (flow_of cu) b (bpos (bb_list cu) b) 0 (length (insn_list (bb_list cu ! b))) v (ranges_of cu' v)) \<and>
    ((\<forall>b<length (bb_list cu). insn_list (bb_list cu ! b) \<noteq> []) \<longrightarrow> (\<forall>v. ranges_ok (ranges_of cu' v)))"
proof -
  have "vregs_ok cu" using assms(1) by (simp add: vars_ok_def)
  from analyze_sets_ok [OF assms(2) this] obtain cu1 cu2 bbs where
    1: "init_sets True cu = (0, cu1)" "analyze_use_def cu1 = Some cu2" "analyze_live_sets True cu2 = Some (0, cu\<lparr>bb_list := bbs\<rparr>)"
      "map code bbs = map code (bb_list cu)"
      "\<forall>b<length (bb_list cu). four_sets (set_words cu) (bbs ! b) \<and> inn bbs b = {v. live_before (flow_of cu) b 0 v} \<and>
       out bbs b = {v. live_before (flow_of cu) b (length (fst (flow_of cu ! b))) v}"
    by (elim exE conjE) (rule that; assumption)
  let ?cu = "cu\<lparr>bb_list := bbs\<rparr>" and ?st = "\<forall>b<length bbs. insn_list (bbs ! b) \<noteq> []"
  have len: "length bbs = length (bb_list cu)" using 1(4) map_eq_imp_length_eq by blast
  have code: "insn_list (bbs ! b) = insn_list (bb_list cu ! b)" "successors (bbs ! b) = successors (bb_list cu ! b)"
    "start_insn (bbs ! b) = start_insn (bb_list cu ! b)" "end_insn (bbs ! b) = end_insn (bb_list cu ! b)" if "b < length (bb_list cu)" for b
    using arg_cong [OF 1(4), of "\<lambda>xs. xs ! b"] that len by (simp_all add: code_def)
  have flow: "flow_of ?cu = flow_of cu" using code len by (intro nth_equalityI) (auto simp: flow_of_def)
  have ok: "vars_ok ?cu" "blocks_ok ?cu" using assms(1,2) code len by (simp_all add: vars_ok_cong [of ?cu cu] blocks_ok_def list_all_length)
  have bp: "bpos bbs b = bpos (bb_list cu) b" if "b \<le> length (bb_list cu)" for b
    using that code unfolding bpos_def by (intro arg_cong [where f = "(*) 2"] sum.cong) auto
  have pl: "placed bbs" using assms(3) code len bp by (simp add: placed_def)
  have ex: "live_out_exact ?cu" using 1(5) code len flow by (simp add: live_out_exact_def four_sets_def flow_of_def)
  have empty: "\<forall>v. ranges_of ?cu v = []"
    using assms(4) by (auto simp: ranges_of_def list_all_iff dest!: map_of_SomeD split: option.splits)
  obtain cu' where 2: "update_blocks True (drop 0 bbs) ?cu = Some cu'" "extends ?cu cu'"
      "\<forall>v. rs_ok ?st (bpos bbs 0) (bpos bbs 0) (ranges_of cu' v) \<and>
       (\<forall>c. 0 \<le> c \<and> c < length bbs \<longrightarrow> covered (flow_of cu) c (bpos bbs c) 0 (length (insn_list (bbs ! c))) v (ranges_of cu' v))"
    using update_blocks_ok [OF ok ex _ pl empty, of ?st 0] unfolding flow by auto
  have "analyze_liveness True cu = Some (0, cu')" using 1(1-3) 2(1) by (simp add: analyze_liveness_def update_live_ranges_def)
  moreover have "ranges_ok (ranges_of cu' v)" if ?st for v using rs_ok_ranges [OF _ that] 2(3) by blast
  ultimately show ?thesis using 2(3) extends_ok [OF 2(2)] bp code len by auto
qed

text \<open>C5: The numbering of the instructions followed by the liveness analysis covers every position where a variable is
  live: if a path from before an instruction reaches a use of the variable with no definition on the way, its interval
  contains the position of the instruction, and likewise the position after it. When no block is empty, the ranges of
  every interval are sorted, disjoint and not empty, as the queries of the register allocator need.\<close>

theorem analyze_liveness_covers:
  assumes "vars_ok cu" "blocks_ok cu" "list_all (\<lambda>x. range_list (interval x) = []) (var_infos cu)"
  shows "\<exists>cu1 cu2. compute_insn_positions True cu = Some cu1 \<and> analyze_liveness True cu1 = Some (0, cu2) \<and>
    (\<forall>x b k. x < length (var_infos cu2) \<and> b < length (bb_list cu1) \<and> k < length (insn_list (bb_list cu1 ! b)) \<longrightarrow>
       (live_before (flow_of cu) b k (vr (var_infos cu2) x) \<longrightarrow>
          lir_pos (insn_list (bb_list cu1 ! b) ! k) \<in> cov (range_list (interval (var_infos cu2 ! x)))) \<and>
       (live_before (flow_of cu) b (Suc k) (vr (var_infos cu2) x) \<longrightarrow>
          lir_pos (insn_list (bb_list cu1 ! b) ! k) + 1 \<in> cov (range_list (interval (var_infos cu2 ! x))))) \<and>
    ((\<forall>b<length (bb_list cu). insn_list (bb_list cu ! b) \<noteq> []) \<longrightarrow>
       (\<forall>x<length (var_infos cu2). ranges_ok (range_list (interval (var_infos cu2 ! x)))))"
proof -
  obtain cu1 where 1: "compute_insn_positions True cu = Some cu1" "placed (bb_list cu1)" "length (bb_list cu1) = length (bb_list cu)"
      "var_infos cu1 = var_infos cu" "vars_ok cu1" "blocks_ok cu1" "flow_of cu1 = flow_of cu"
      "\<forall>b<length (bb_list cu). length (insn_list (bb_list cu1 ! b)) = length (insn_list (bb_list cu ! b))"
    using compute_insn_positions_ok [OF assms(2,1)] by (elim exE conjE) (rule that; assumption)
  have "list_all (\<lambda>x. range_list (interval x) = []) (var_infos cu1)" using assms(3) 1(4) by simp
  from analyze_liveness_ok [OF 1(5,6,2) this] obtain cu2 where
    2: "analyze_liveness True cu1 = Some (0, cu2)" "vars_ok cu2"
      "\<forall>v. \<forall>b<length (bb_list cu1). covered (flow_of cu) b (bpos (bb_list cu1) b) 0 (length (insn_list (bb_list cu1 ! b))) v (ranges_of cu2 v)"
      "(\<forall>b<length (bb_list cu1). insn_list (bb_list cu1 ! b) \<noteq> []) \<longrightarrow> (\<forall>v. ranges_ok (ranges_of cu2 v))"
    unfolding 1(7) by blast
  have r: "range_list (interval (var_infos cu2 ! x)) = ranges_of cu2 (vr (var_infos cu2) x)" if "x < length (var_infos cu2)" for x
    using ranges_of_var [OF _ that] 2(2) by (simp add: vars_ok_def)
  have "(live_before (flow_of cu) b k (vr (var_infos cu2) x) \<longrightarrow>
          lir_pos (insn_list (bb_list cu1 ! b) ! k) \<in> cov (range_list (interval (var_infos cu2 ! x)))) \<and>
       (live_before (flow_of cu) b (Suc k) (vr (var_infos cu2) x) \<longrightarrow>
          lir_pos (insn_list (bb_list cu1 ! b) ! k) + 1 \<in> cov (range_list (interval (var_infos cu2 ! x))))"
    if "x < length (var_infos cu2)" "b < length (bb_list cu1)" "k < length (insn_list (bb_list cu1 ! b))" for x b k
    using 2(3) [rule_format, OF that(2), of "vr (var_infos cu2) x"] 1(2) that r [OF that(1)] by (simp add: covered_def placed_def)
  moreover have "ranges_ok (range_list (interval (var_infos cu2 ! x)))"
    if "\<forall>b<length (bb_list cu). insn_list (bb_list cu ! b) \<noteq> []" "x < length (var_infos cu2)" for x
  proof -
    have "insn_list (bb_list cu1 ! b) \<noteq> []" if "b < length (bb_list cu1)" for b
      using that \<open>\<forall>b<length (bb_list cu). insn_list (bb_list cu ! b) \<noteq> []\<close> 1(3,8) by fastforce
    then show ?thesis using 2(4) r [OF that(2)] by simp
  qed
  ultimately show ?thesis using 1(1) 2(1) by blast
qed

lemma sample_cu_vars_ok: "vars_ok sample_cu"
proof -
  have vr: "vr (var_infos sample_cu) 0 = 32" "vr (var_infos sample_cu) (Suc 0) = 33" and len: "length (var_infos sample_cu) = Suc (Suc 0)"
    by (simp_all add: sample_cu_def vr_def)
  have "fixed_var_infos sample_cu ! r = None \<and> (\<forall>x<length (var_infos sample_cu). vr (var_infos sample_cu) x \<noteq> r)"
    if "r < NR_FIXED_REGISTERS" for r
  proof
    show "fixed_var_infos sample_cu ! r = None" using that by (simp add: sample_cu_def NR_FIXED_REGISTERS_def)
    show "\<forall>x<length (var_infos sample_cu). vr (var_infos sample_cu) x \<noteq> r"
      using that vr by (auto simp: len less_Suc_eq NR_FIXED_REGISTERS_def)
  qed
  then show ?thesis using sample_cu_ok(2)
    by (auto simp: vars_ok_def) (simp_all add: sample_cu_def NR_FIXED_REGISTERS_def)
qed

theorem analyze_liveness_covers_witness:
  "\<exists>cu1 cu2. compute_insn_positions True sample_cu = Some cu1 \<and> analyze_liveness True cu1 = Some (0, cu2) \<and>
     (\<forall>x<length (var_infos cu2). ranges_ok (range_list (interval (var_infos cu2 ! x))))"
proof -
  have "list_all (\<lambda>x. range_list (interval x) = []) (var_infos sample_cu)" by (simp add: sample_cu_def alloc_interval_def)
  from analyze_liveness_covers [OF sample_cu_vars_ok sample_cu_ok(1) this]
  have "\<exists>cu1 cu2. compute_insn_positions True sample_cu = Some cu1 \<and> analyze_liveness True cu1 = Some (0, cu2) \<and>
      ((\<forall>b<length (bb_list sample_cu). insn_list (bb_list sample_cu ! b) \<noteq> []) \<longrightarrow>
       (\<forall>x<length (var_infos cu2). ranges_ok (range_list (interval (var_infos cu2 ! x)))))" by blast
  moreover have "\<forall>b<length (bb_list sample_cu). insn_list (bb_list sample_cu ! b) \<noteq> []"
    by (auto simp: sample_cu_def sample_block_def less_Suc_eq)
  ultimately show ?thesis by blast
qed

end
