(* ===== verification/Spec2Isabelle.thy ===== *)
theory Spec2Isabelle
  imports Jato_Prelude Bitset Pqueue Bytecode Radix_Tree Hash_Map Vm_Types Utf8 Verifier Verifier_State Verify_Functions Block_Inference Monitor Monitor_Safety Monitor_Mutex Monitor_Spec Monitor_Wakeup Compile_Lock Interval Insn Liveness Live_Sets Live_Ranges
begin

text \<open>
  This library verifies parts of Jato, a Java virtual machine with a just-in-time compiler, in the configuration for
  x86-64.

  \<^bold>\<open>The program.\<close> A class that is used for the first time is initialised by \<open>vm/class.c\<close> under the lock of
  \<open>lib/compile-lock.c\<close>; its method descriptors are parsed by \<open>vm/types.c\<close>, its strings converted by \<open>vm/utf8.c\<close>.
  The verifier (\<open>vm/verifier.c\<close>, \<open>vm/verify-functions.c\<close>) checks the bytecode of a method with the readers of
  \<open>vm/bytecode.c\<close>. The compiler translates it into machine instructions over variables
  (\<open>arch/x86/instruction.c\<close>), computes where the variables are live (\<open>jit/liveness.c\<close>, \<open>jit/interval.c\<close>),
  gives them registers and emits code, which \<open>jit/cu-mapping.c\<close> registers so that a native address leads back to
  its method. Running code synchronises through the monitors of \<open>vm/monitor.c\<close>. The containers of \<open>lib\<close> serve all of
  them.

  \<^bold>\<open>Conventions.\<close> Theory \<open>Jato_Prelude\<close>: machine integers are words of their width where they may wrap. A C array is
  a list, accessed with its bounds. \<^const>\<open>None\<close> is a fault: an access outside of an array, a failed \<open>assert\<close>, the
  use of \<open>NULL\<close>, undefined arithmetic, a call of \<open>die\<close> or \<open>error\<close>. So an equation \<open>f x = Some y\<close> includes that the
  call is free of them. Error codes are the integers of the source. A boolean argument says whether an allocation
  succeeds. Linked lists are lists, pointers to list elements are indices.

  \<^bold>\<open>Theories, sources and results.\<close>

  \<^item> \<open>Bitset\<close> (\<open>lib/bitset.c\<close>): every operation computes the set operation of its name; the interface \<open>index_set\<close> is
    what the liveness analysis uses of it.
  \<^item> \<open>Pqueue\<close> (\<open>lib/pqueue.c\<close>): the heap invariant, insertion, removal of a least node, and in the interface
    \<open>min_queue\<close> that draining sorts. The comparison truncates a difference to \<open>int\<close>, so keys are below \<open>2^31\<close>.
  \<^item> \<open>Radix_Tree\<close> (\<open>lib/radix-tree.c\<close>, \<open>jit/cu-mapping.c\<close>): a finite map with a predecessor query; in the interface
    \<open>pred_map\<close>, the attribution of native addresses to compiled methods.
  \<^item> \<open>Hash_Map\<close> (\<open>lib/hash-map.c\<close>): a finite map through all resizes, for every \<open>key_contract\<close>, of which the pointer
    and the string keys of the source are instances.
  \<^item> \<open>Bytecode\<close> (\<open>vm/bytecode.c\<close>), \<open>Vm_Types\<close> (\<open>vm/types.c\<close>), \<open>Utf8\<close> (\<open>vm/utf8.c\<close>): sizes of instructions without
    reading past the code, patched branch targets read back, the descriptor parser accepts the method descriptors
    and what else it takes, decoding inverts encoding.
  \<^item> \<open>Verifier\<close>, \<open>Verifier_State\<close>, \<open>Verify_Functions\<close>, \<open>Block_Inference\<close> (\<open>vm/verifier.c\<close>,
    \<open>vm/verify-functions.c\<close>): what the first pass guarantees and what it does not look at, the verdict and its
    messages, the abstract states, one function per instruction, and the soundness of the entry state that a block
    infers, by rule induction over the runs of a block.
  \<^item> \<open>Monitor\<close>, \<open>Monitor_Safety\<close>, \<open>Monitor_Mutex\<close>, \<open>Monitor_Spec\<close>, \<open>Monitor_Wakeup\<close> (\<open>vm/monitor.c\<close>): all
    interleavings of lock, unlock and wait, one shared access per step, with their results and exceptions. They refine
    a table of reentrant locks, the owner check is exact, and no wakeup is lost. \<open>Monitor\<close> says what is simplified.
  \<^item> \<open>Compile_Lock\<close> (\<open>lib/compile-lock.c\<close>, \<open>vm_class_init\<close>): all interleavings; a class is initialised once,
    and no waiting thread is forgotten.
  \<^item> \<open>Interval\<close> (\<open>jit/interval.c\<close>, \<open>include/jit/vars.h\<close>): the queries are operations on sets of positions; splits
    partition, expiry is undone by the restoration.
  \<^item> \<open>Insn\<close> (\<open>arch/x86/instruction.c\<close>): the operands, the constructors and the table of flags; an instruction is seen to
    read and write the registers that its operation reads and writes.
  \<^item> \<open>Liveness\<close>, \<open>Live_Sets\<close>, \<open>Live_Ranges\<close> (\<open>jit/liveness.c\<close>, \<open>jit/compilation-unit.c\<close>): the iteration ends, its
    sets are liveness on paths, and the intervals cover every live position.

  \<^bold>\<open>Bounds.\<close> No definition carries fuel: recursion is structural or has a termination proof. Loops that might run
  forever are partial functions on \<open>option\<close>: the iteration of the liveness analysis, for which an end is proved. Positions of
  instructions, sizes of containers and counts of threads are natural numbers; the theories name the bound below which
  the machine integers of the source agree with them (\<open>2^31\<close> or \<open>2^32\<close>, out of reach of a method or a machine).

  \<^bold>\<open>Not modelled.\<close> The x86 encoder, the LLVM back end, signals, exceptions and stack traces: their correctness is the
  behaviour of native code, of which there is no model here. The instruction selector is generated by the build from a
  tree grammar, and the translation of bytecode to trees gets its meaning only from it. SSA form, dominance and the
  removal of array checks rewrite the output of that selector. Class loading, the object layer, JNI, the runtime
  natives, threads, archives and the collector depend on the file system, the operating system and memory layout. The
  Boehm collector is a third-party library. Tracing and disassembly only print. Functions that only free memory are
  left out of the components that are modelled.
\<close>

end
